(* ===== verification/Prelude.thy ===== *)
theory Prelude
  imports Main "HOL-Library.Word" "HOL-Library.Monad_Syntax" "HOL-Library.Signed_Division"
begin

text \<open>
  Shared vocabulary of the development: the machine types of the C sources, checked
  array access, and the generic lemmas that the component theories use.

  Conventions.  A C function that may abort (\<^verbatim>\<open>BUG_ON\<close>, see
  \<^verbatim>\<open>include/common/bug.h\<close>) or run into undefined behaviour (a read or a write
  outside an array, the dereference of a null pointer, a shift by a negative count)
  is a function into an \<open>option\<close> type, and \<open>None\<close> stands for that abort.  The
  ordinary error returns of the code are values inside \<open>Some\<close>.  \<^verbatim>\<open>unsigned long\<close> and
  pointers are 64 bit words, \<^verbatim>\<open>unsigned int\<close> is a 32 bit word where it can wrap, and
  \<^verbatim>\<open>int\<close> is the unbounded \<open>int\<close> (its overflow is undefined in C); division and
  remainder of \<^verbatim>\<open>int\<close> truncate towards zero (\<open>sdiv\<close>, \<open>smod\<close>).
\<close>

unbundle bit_operations_syntax

type_synonym u64 = "64 word"
type_synonym u32 = "32 word"
type_synonym u8 = "8 word"

named_theorems arr_simps \<open>checked array access\<close>

section \<open>Checked array access\<close>

definition arr_get :: "'a list \<Rightarrow> int \<Rightarrow> 'a option" where
  "arr_get xs i = (if 0 \<le> i \<and> i < int (length xs) then Some (xs ! nat i) else None)"

definition arr_set :: "'a list \<Rightarrow> int \<Rightarrow> 'a \<Rightarrow> 'a list option" where
  "arr_set xs i v = (if 0 \<le> i \<and> i < int (length xs) then Some (xs[nat i := v]) else None)"

lemma arr_get_nat [arr_simps]: "k < length xs \<Longrightarrow> arr_get xs (int k) = Some (xs ! k)"
  by (simp add: arr_get_def)

lemma arr_set_nat [arr_simps]: "k < length xs \<Longrightarrow> arr_set xs (int k) v = Some (xs[k := v])"
  by (simp add: arr_set_def)

lemma arr_get_SomeD: "arr_get xs i = Some v \<Longrightarrow> 0 \<le> i \<and> nat i < length xs \<and> v = xs ! nat i"
  by (auto simp: arr_get_def split: if_splits)

lemma arr_set_SomeD:
  "arr_set xs i v = Some ys \<Longrightarrow> 0 \<le> i \<and> nat i < length xs \<and> ys = xs[nat i := v]"
  by (auto simp: arr_set_def split: if_splits)

section \<open>C division on non-negative values\<close>

lemma sdiv_nonneg [simp]: "0 \<le> a \<Longrightarrow> 0 < b \<Longrightarrow> a sdiv b = a div (b :: int)"
  by (cases "a = 0") (auto simp: signed_divide_int_def sgn_mult)

lemma smod_nonneg [simp]: "0 \<le> a \<Longrightarrow> 0 < b \<Longrightarrow> a smod b = a mod (b :: int)"
  by (cases "a = 0") (auto simp: signed_modulo_int_def)

section \<open>Searching a list\<close>

lemma find_append:
  "List.find P (xs @ ys) = (case List.find P xs of None \<Rightarrow> List.find P ys | Some x \<Rightarrow> Some x)"
  by (induction xs) auto

lemma find_map: "List.find P (map f xs) = map_option f (List.find (\<lambda>x. P (f x)) xs)"
  by (induction xs) auto

lemma find_cong_set:
  "(\<And>x. x \<in> set xs \<Longrightarrow> P x = Q x) \<Longrightarrow> List.find P xs = List.find Q xs"
  by (induction xs) auto

lemma find_upt_split:
  "a \<le> b \<Longrightarrow> b \<le> c \<Longrightarrow> List.find P [a..<c] =
     (case List.find P [a..<b] of None \<Rightarrow> List.find P [b..<c] | Some x \<Rightarrow> Some x)"
  by (metis find_append upt_add_eq_append le_Suc_ex)

lemma upt_shift: "[c + a..<c + b] = map (\<lambda>k. c + k) [a..<b]"
proof (induction b)
  case (Suc b)
  then show ?case by (cases "a \<le> b") auto
qed simp

section \<open>Low and high bits of a word\<close>

lemma unat_take_bit_eq: "unat (take_bit n (w :: 'a::len word)) = take_bit n (unat w)"
  by (rule unsigned_take_bit_eq)

lemma and_not_mask_eq:
  fixes w :: "'a::len word"
  shows "w AND NOT (mask n) = w - take_bit n w"
proof -
  have "w AND NOT (mask n) = push_bit n (drop_bit n w)"
    by (auto simp: bit_eq_iff bit_simps)
  then show ?thesis using bits_ident [of n w] by (simp add: eq_diff_eq)
qed

lemma unat_and_not_mask:
  fixes w :: "'a::len word"
  shows "unat (w AND NOT (mask n)) = unat w - unat w mod 2 ^ n"
proof -
  have le: "take_bit n w \<le> w"
    unfolding word_le_nat_alt unat_take_bit_eq by (rule take_bit_nat_less_eq_self)
  show ?thesis
    unfolding and_not_mask_eq unat_sub [OF le] unat_take_bit_eq by (simp add: take_bit_eq_mod)
qed

lemma unat_lt_u64: "unat (x :: u64) < 2 ^ 64"
  using unsigned_less [of x, where ?'a = nat] by simp

lemma unat_plus_eq:
  "unat a + unat b < 2 ^ 64 \<Longrightarrow> unat (a + b) = unat (a :: u64) + unat b"
  by (simp add: unat_word_ariths)

lemma unat_of_nat_u64: "n < 2 ^ 64 \<Longrightarrow> unat (of_nat n :: u64) = n"
  by (simp add: unat_of_nat)

section \<open>A C int in 64 bit arithmetic\<close>

text \<open>Sign extension to \<^verbatim>\<open>unsigned long\<close>, and truncation back to \<^verbatim>\<open>int\<close>.\<close>

lemma sint_u32_lt: "sint (w :: u32) < 2 ^ 31" using sint_lt [of w] by simp

lemma length_64: "LENGTH(64) = 64" by simp

lemma sext_pos:
  assumes "0 < sint (len :: u32)"
  shows "unat (scast len :: u64) = nat (sint len)"
proof -
  have "take_bit 64 (sint len) = sint len"
    using assms sint_u32_lt [of len] by (intro take_bit_int_eq_self) simp_all
  then have "uint (scast len :: u64) = sint len"
    unfolding scast_eq unsigned_of_int using assms by (simp only: length_64)
  then show ?thesis by (simp only: unat_eq_nat_uint)
qed

lemma signed_take_bit_31: "n < 2 ^ 31 \<Longrightarrow> signed_take_bit 31 (int n) = int n"
  by (intro signed_take_bit_int_eq_self) simp_all

lemma trunc_small:
  assumes "unat (x :: u64) < 2 ^ 31"
  shows "sint (ucast x :: u32) = int (unat x)" and "scast (ucast x :: u32) = x"
proof -
  have ux: "uint x = int (unat x)" by simp
  have "signed_take_bit 31 (int (unat x)) = int (unat x)"
    using assms by (rule signed_take_bit_31)
  then have "signed_take_bit 31 (uint x) = uint x" by (simp only: ux)
  then have s: "sint (ucast x :: u32) = uint x" unfolding ucast_eq signed_of_int by simp
  then show "sint (ucast x :: u32) = int (unat x)" by simp
  from s show "scast (ucast x :: u32) = x" by (metis scast_eq word_of_int_uint)
qed

lemma trunc_len:
  assumes "0 < sint (len :: u32)" and "unat (d :: u64) \<le> nat (sint len)"
  shows "sint (ucast (scast len - d :: u64) :: u32) = sint len - int (unat d)"
    and "scast (ucast (scast len - d :: u64) :: u32) = (scast len - d :: u64)"
proof -
  note L = sext_pos [OF assms(1)]
  have le: "d \<le> scast len" using assms(2) L by (simp add: word_le_nat_alt)
  have u: "unat (scast len - d) = nat (sint len) - unat d" using unat_sub [OF le] L by simp
  then have lt: "unat (scast len - d) < 2 ^ 31" using sint_u32_lt [of len] assms(1) by simp
  show "sint (ucast (scast len - d :: u64) :: u32) = sint len - int (unat d)"
    unfolding trunc_small(1) [OF lt] u using assms by simp
  show "scast (ucast (scast len - d :: u64) :: u32) = (scast len - d :: u64)"
    by (rule trunc_small(2) [OF lt])
qed
section \<open>Rounding macros of include/common/compiler.h\<close>

definition round_mask :: "'a::len word \<Rightarrow> 'a word" where
  "round_mask y = y - 1"

definition round_up :: "'a::len word \<Rightarrow> 'a word \<Rightarrow> 'a word" where
  "round_up x y = ((x - 1) OR round_mask y) + 1"

definition round_down_w :: "'a::len word \<Rightarrow> 'a word \<Rightarrow> 'a word" where
  "round_down_w x y = x AND NOT (round_mask y)"

lemma unat_or_mask:
  fixes w :: u64
  assumes "k < 64"
  shows "unat (w OR mask k) = unat w - unat w mod 2 ^ k + (2 ^ k - 1)"
proof -
  have "w OR mask k = (w AND NOT (mask k)) + mask k"
    by (subst disjunctive_add) (auto simp: bit_simps bit_eq_iff)
  moreover have m: "unat (mask k :: u64) = 2 ^ k - 1"
  proof -
    have "mask k = (of_nat (2 ^ k - 1) :: u64)" by (simp add: mask_eq_exp_minus_1 of_nat_diff)
    moreover have "2 ^ k - 1 < (2 :: nat) ^ 64"
      using power_strict_increasing [OF assms, of "2 :: nat"] by linarith
    ultimately show ?thesis using unat_of_nat_u64 [of "2 ^ k - 1"] by (simp only:)
  qed
  moreover have "unat w - unat w mod 2 ^ k + (2 ^ k - 1) < 2 ^ 64"
  proof -
    define j where "j = 63 - k"
    have j: "64 = k + Suc j" using assms by (simp add: j_def)
    have "unat w div 2 ^ k < 2 ^ Suc j"
      using unat_lt_u64 [of w] unfolding j by (simp add: power_add div_less_iff_less_mult mult_ac)
    then have "(unat w div 2 ^ k + 1) * 2 ^ k \<le> 2 ^ Suc j * (2 ^ k :: nat)" by (intro mult_right_mono) auto
    also have "\<dots> = 2 ^ 64" unfolding j by (simp add: power_add)
    finally show ?thesis by (simp add: minus_mod_eq_div_mult)
  qed
  ultimately show ?thesis by (simp add: unat_plus_eq unat_and_not_mask)
qed

lemma unat_round_up:
  fixes x :: u64
  assumes k: "k < 64" and x: "unat x + 2 ^ k \<le> 2 ^ 64"
  shows "unat (round_up x (2 ^ k)) = (unat x + 2 ^ k - 1) div 2 ^ k * 2 ^ k"
proof (cases "x = 0")
  case False
  define y where "y = unat x - 1"
  have x1: "unat (x - 1) = y" using False by (simp add: y_def unat_minus_one)
  have xy: "unat x = y + 1" using False by (simp add: y_def unat_gt_0)
  have m: "2 ^ k - 1 = (mask k :: u64)" by (simp add: mask_eq_exp_minus_1)
  have z: "unat ((x - 1) OR mask k) = y - y mod 2 ^ k + (2 ^ k - 1)" using unat_or_mask [OF k, of "x - 1"] x1 by simp
  have "y - y mod 2 ^ k + (2 ^ k - 1) + 1 = (y div 2 ^ k + 1) * 2 ^ k" by (simp add: minus_mod_eq_div_mult)
  also have "\<dots> = (unat x + 2 ^ k - 1) div 2 ^ k * 2 ^ k" by (simp add: xy div_add_self2)
  finally have sum: "unat ((x - 1) OR mask k) + unat (1 :: u64) = (unat x + 2 ^ k - 1) div 2 ^ k * 2 ^ k"
    using z by simp
  have le: "(unat x + 2 ^ k - 1) div 2 ^ k * 2 ^ k \<le> unat x + 2 ^ k - 1" by simp
  have "unat ((x - 1) OR mask k) + unat (1 :: u64) < 2 ^ 64"
    unfolding sum using le x xy by linarith
  then show ?thesis unfolding round_up_def round_mask_def m by (subst unat_plus_eq) (simp_all only: sum)
qed (simp add: round_up_def round_mask_def)

lemma round_up_bounds:
  fixes x :: u64
  assumes "k < 64" and "unat x + 2 ^ k \<le> 2 ^ 64"
  shows "unat x \<le> unat (round_up x (2 ^ k))" and "unat (round_up x (2 ^ k)) < unat x + 2 ^ k"
    and "2 ^ k dvd unat (round_up x (2 ^ k))"
proof -
  have le: "n \<le> (n + 2 ^ k - 1) div 2 ^ k * 2 ^ k" for n :: nat
    using dividend_less_div_times [of "2 ^ k" "n + 2 ^ k - 1"] by simp
  have lt: "(n + 2 ^ k - 1) div 2 ^ k * 2 ^ k < n + 2 ^ k" for n :: nat
    by (rule le_less_trans [OF div_times_less_eq_dividend]) simp
  show "unat x \<le> unat (round_up x (2 ^ k))" "unat (round_up x (2 ^ k)) < unat x + 2 ^ k"
    "2 ^ k dvd unat (round_up x (2 ^ k))"
    unfolding unat_round_up [OF assms] using le lt by auto
qed

end
