(* ===== verification/Bitmap.thy ===== *)
theory Bitmap
  imports Prelude
begin

text \<open>
  Bit operations on arrays of \<^verbatim>\<open>unsigned long\<close>: the generic single-bit operations and
  the scanner of \<^verbatim>\<open>include/common/asm-generic/bitops.h\<close> and the range operations of
  \<^verbatim>\<open>criu/bitmap.c\<close>.  The abstract view of an array is its set of bit numbers, and
  every operation is shown to act on that set.
\<close>

section \<open>The code\<close>

abbreviation BITS_PER_LONG :: int where "BITS_PER_LONG \<equiv> 64"

definition bit_mask_of :: "int \<Rightarrow> u64 option" where
  "bit_mask_of nr =
     (if nr smod BITS_PER_LONG < 0 then None
      else Some (push_bit (nat (nr smod BITS_PER_LONG)) 1))"

definition c_set_bit :: "int \<Rightarrow> u64 list \<Rightarrow> u64 list option" where
  "c_set_bit nr addr = do {
     w \<leftarrow> arr_get addr (nr sdiv BITS_PER_LONG);
     b \<leftarrow> bit_mask_of nr;
     arr_set addr (nr sdiv BITS_PER_LONG) (w OR b) }"

definition c_change_bit :: "int \<Rightarrow> u64 list \<Rightarrow> u64 list option" where
  "c_change_bit nr addr = do {
     w \<leftarrow> arr_get addr (nr sdiv BITS_PER_LONG);
     b \<leftarrow> bit_mask_of nr;
     arr_set addr (nr sdiv BITS_PER_LONG) (w XOR b) }"

definition c_test_bit :: "int \<Rightarrow> u64 list \<Rightarrow> int option" where
  "c_test_bit nr addr = do {
     w \<leftarrow> arr_get addr (nr sdiv BITS_PER_LONG);
     b \<leftarrow> bit_mask_of nr;
     Some (if w AND b \<noteq> 0 then -1 else 0) }"

definition c_clear_bit :: "int \<Rightarrow> u64 list \<Rightarrow> u64 list option" where
  "c_clear_bit nr addr = do {
     w \<leftarrow> arr_get addr (nr sdiv BITS_PER_LONG);
     b \<leftarrow> bit_mask_of nr;
     arr_set addr (nr sdiv BITS_PER_LONG) (w AND NOT b) }"

text \<open>\<^verbatim>\<open>__builtin_ffsl\<close> numbers bits from 1 and gives 0 for the zero word.\<close>

definition builtin_ffsl :: "u64 \<Rightarrow> u64" where
  "builtin_ffsl w = (case List.find (\<lambda>i. bit w i) [0..<64] of None \<Rightarrow> 0 | Some i \<Rightarrow> of_nat (i + 1))"

definition c_ffs :: "u64 \<Rightarrow> u64" where
  "c_ffs w = builtin_ffsl w - 1"

text \<open>
  \<^verbatim>\<open>find_next_bit\<close>: \<open>fnb_found_first\<close> and \<open>fnb_found_middle\<close> are the code after the
  two labels, \<open>fnb_words\<close> is the loop over whole words.
\<close>

definition fnb_found_middle :: "u64 \<Rightarrow> u64 \<Rightarrow> u64" where
  "fnb_found_middle result tmp = result + c_ffs tmp"

definition fnb_found_first :: "u64 \<Rightarrow> u64 \<Rightarrow> u64 \<Rightarrow> u64" where
  "fnb_found_first result sz tmp =
     (let tmp = tmp AND drop_bit (unat (64 - sz)) (- 1)
      in if tmp = 0 then result + sz else fnb_found_middle result tmp)"

lemma unat_and_not_63: "unat ((w :: u64) AND - 64) = unat w - unat w mod 64"
  using unat_and_not_mask [of w 6] by (simp add: mask_eq_exp_minus_1)

lemma and_not_63_iff: "(sz :: u64) AND - 64 = 0 \<longleftrightarrow> unat sz < 64"
proof -
  have "sz AND - 64 = 0 \<longleftrightarrow> unat (sz AND - 64) = 0" by (simp add: unat_eq_0)
  also have "\<dots> \<longleftrightarrow> unat sz < 64"
    unfolding unat_and_not_63 by (simp add: minus_mod_eq_mult_div div_eq_0_iff)
  finally show ?thesis .
qed

lemma unat_minus_64: "64 \<le> unat sz \<Longrightarrow> unat ((sz :: u64) - 64) = unat sz - 64"
  by (simp add: unat_sub word_le_nat_alt)

function fnb_words :: "u64 list \<Rightarrow> int \<Rightarrow> u64 \<Rightarrow> u64 \<Rightarrow> u64 option" where
  "fnb_words addr p result sz =
     (if sz AND NOT 63 \<noteq> 0 then do {
        tmp \<leftarrow> arr_get addr p;
        if tmp \<noteq> 0 then Some (fnb_found_middle result tmp)
        else fnb_words addr (p + 1) (result + 64) (sz - 64) }
      else if sz = 0 then Some result
      else do {
        tmp \<leftarrow> arr_get addr p;
        Some (fnb_found_first result sz tmp) })"
  by pat_completeness auto
termination
  by (relation "measure (\<lambda>(addr, p, result, sz). unat sz)")
     (auto simp: and_not_63_iff unat_minus_64)

definition find_next_bit :: "u64 list \<Rightarrow> u64 \<Rightarrow> u64 \<Rightarrow> u64 option" where
  "find_next_bit addr sz offset =
     (let p = uint (offset div 64); result = offset AND NOT 63
      in if offset \<ge> sz then Some sz
         else
           let sz = sz - result; off = offset mod 64
           in if off \<noteq> 0 then do {
                tmp \<leftarrow> arr_get addr p;
                let tmp = tmp AND push_bit (unat off) (- 1);
                if sz < 64 then Some (fnb_found_first result sz tmp)
                else if tmp \<noteq> 0 then Some (fnb_found_middle result tmp)
                else fnb_words addr (p + 1) (result + 64) (sz - 64) }
              else fnb_words addr p result sz)"

text \<open>
  \<^verbatim>\<open>bitmap_set\<close> and \<^verbatim>\<open>bitmap_clear\<close> of \<^verbatim>\<open>criu/bitmap.c\<close>: the \<open>_words\<close> functions are
  the loops, which return the array, the word pointer, the remaining count and the mask.
\<close>

definition BITMAP_FIRST_WORD_MASK :: "int \<Rightarrow> u64 option" where
  "BITMAP_FIRST_WORD_MASK start =
     (if start smod BITS_PER_LONG < 0 then None
      else Some (push_bit (nat (start smod BITS_PER_LONG)) (- 1)))"

definition BITMAP_LAST_WORD_MASK :: "int \<Rightarrow> u64 option" where
  "BITMAP_LAST_WORD_MASK nbits =
     (if nbits smod BITS_PER_LONG = 0 then Some (- 1)
      else if nbits smod BITS_PER_LONG < 0 then None
      else Some (push_bit (nat (nbits smod BITS_PER_LONG)) 1 - 1))"

function bitmap_set_words ::
  "u64 list \<Rightarrow> int \<Rightarrow> int \<Rightarrow> int \<Rightarrow> u64 \<Rightarrow> (u64 list \<times> int \<times> int \<times> u64) option" where
  "bitmap_set_words m p nr bits_to_set mask_to_set =
     (if nr - bits_to_set \<ge> 0 then do {
        w \<leftarrow> arr_get m p;
        m \<leftarrow> arr_set m p (w OR mask_to_set);
        bitmap_set_words m (p + 1) (nr - bits_to_set) BITS_PER_LONG (- 1) }
      else Some (m, p, nr, mask_to_set))"
  by pat_completeness auto
termination
  by (relation "measures [\<lambda>(m, p, nr, b, k). if b = 64 then 0 else 1, \<lambda>(m, p, nr, b, k). nat nr]") auto

definition bitmap_set :: "u64 list \<Rightarrow> int \<Rightarrow> int \<Rightarrow> u64 list option" where
  "bitmap_set m start nr = do {
     first \<leftarrow> BITMAP_FIRST_WORD_MASK start;
     (m, p, rest, mask_to_set) \<leftarrow>
       bitmap_set_words m (start sdiv BITS_PER_LONG) nr
         (BITS_PER_LONG - start smod BITS_PER_LONG) first;
     if rest \<noteq> 0 then do {
       last \<leftarrow> BITMAP_LAST_WORD_MASK (start + nr);
       w \<leftarrow> arr_get m p;
       arr_set m p (w OR (mask_to_set AND last)) }
     else Some m }"

function bitmap_clear_words ::
  "u64 list \<Rightarrow> int \<Rightarrow> int \<Rightarrow> int \<Rightarrow> u64 \<Rightarrow> (u64 list \<times> int \<times> int \<times> u64) option" where
  "bitmap_clear_words m p nr bits_to_clear mask_to_clear =
     (if nr - bits_to_clear \<ge> 0 then do {
        w \<leftarrow> arr_get m p;
        m \<leftarrow> arr_set m p (w AND NOT mask_to_clear);
        bitmap_clear_words m (p + 1) (nr - bits_to_clear) BITS_PER_LONG (- 1) }
      else Some (m, p, nr, mask_to_clear))"
  by pat_completeness auto
termination
  by (relation "measures [\<lambda>(m, p, nr, b, k). if b = 64 then 0 else 1, \<lambda>(m, p, nr, b, k). nat nr]") auto

definition bitmap_clear :: "u64 list \<Rightarrow> int \<Rightarrow> int \<Rightarrow> u64 list option" where
  "bitmap_clear m start nr = do {
     first \<leftarrow> BITMAP_FIRST_WORD_MASK start;
     (m, p, rest, mask_to_clear) \<leftarrow>
       bitmap_clear_words m (start sdiv BITS_PER_LONG) nr
         (BITS_PER_LONG - start smod BITS_PER_LONG) first;
     if rest \<noteq> 0 then do {
       last \<leftarrow> BITMAP_LAST_WORD_MASK (start + nr);
       w \<leftarrow> arr_get m p;
       arr_set m p (w AND NOT (mask_to_clear AND last)) }
     else Some m }"

declare fnb_words.simps [simp del] bitmap_set_words.simps [simp del] bitmap_clear_words.simps [simp del]

section \<open>The abstract view\<close>

definition bmp_bit :: "u64 list \<Rightarrow> nat \<Rightarrow> bool" where
  "bmp_bit m i = bit (m ! (i div 64)) (i mod 64)"

definition bmp_abs :: "u64 list \<Rightarrow> nat set" where
  "bmp_abs m = {i. i < 64 * length m \<and> bmp_bit m i}"

text \<open>The reference scanner: the first member of \<open>[off..<n]\<close>, or \<open>n\<close>.\<close>

definition next_bit_ref :: "u64 list \<Rightarrow> nat \<Rightarrow> nat \<Rightarrow> nat" where
  "next_bit_ref m n off = (case List.find (bmp_bit m) [off..<n] of None \<Rightarrow> n | Some i \<Rightarrow> i)"

lemma bmp_bit_update:
  "q < length m \<Longrightarrow>
   bmp_bit (m[q := w]) i = (if i div 64 = q then bit w (i mod 64) else bmp_bit m i)"
  by (simp add: bmp_bit_def)

lemma bmp_bit_split: "r < 64 \<Longrightarrow> bmp_bit m (64 * k + r) = bit (m ! k) r"
  by (simp add: bmp_bit_def)

lemma div_lt_length: "i < 64 * length m \<Longrightarrow> i div 64 < length m"
  by (simp add: less_mult_imp_div_less mult.commute)

lemma nat_eq_by_64: "i = n \<longleftrightarrow> i div 64 = n div 64 \<and> i mod 64 = n mod (64 :: nat)"
  by (metis div_mult_mod_eq)

section \<open>Single bits\<close>

lemma bit_mask_of_int [simp]: "bit_mask_of (int n) = Some (push_bit (n mod 64) 1)"
  by (simp add: bit_mask_of_def nat_mod_distrib)

lemma arr_word [simp]:
  "n < 64 * length m \<Longrightarrow> arr_get m (int n div 64) = Some (m ! (n div 64))"
  "n < 64 * length m \<Longrightarrow> arr_set m (int n div 64) w = Some (m[n div 64 := w])"
  using div_lt_length [of n m] by (auto simp: arr_get_def arr_set_def nat_div_distrib)

lemma c_test_bit_eq:
  "n < 64 * length m \<Longrightarrow> c_test_bit (int n) m = Some (if bmp_bit m n then -1 else 0)"
proof -
  assume n: "n < 64 * length m"
  have "(m ! (n div 64)) AND push_bit (n mod 64) 1 \<noteq> 0 \<longleftrightarrow> bmp_bit m n"
    unfolding bmp_bit_def bit_eq_iff by (auto simp: bit_simps)
  with n show ?thesis by (simp add: c_test_bit_def)
qed

lemma bmp_set_bit:
  assumes "n < 64 * length m"
  shows "\<exists>m'. c_set_bit (int n) m = Some m' \<and> length m' = length m \<and>
     (\<forall>i. bmp_bit m' i \<longleftrightarrow> i = n \<or> bmp_bit m i)"
  using assms div_lt_length [OF assms]
  by (simp add: c_set_bit_def bmp_bit_update nat_eq_by_64 [of _ n])
     (auto simp: bmp_bit_def bit_simps)

lemma bmp_clear_bit:
  assumes "n < 64 * length m"
  shows "\<exists>m'. c_clear_bit (int n) m = Some m' \<and> length m' = length m \<and>
     (\<forall>i. bmp_bit m' i \<longleftrightarrow> i \<noteq> n \<and> bmp_bit m i)"
  using assms div_lt_length [OF assms]
  by (simp add: c_clear_bit_def bmp_bit_update nat_eq_by_64 [of _ n])
     (auto simp: bmp_bit_def bit_simps)

lemma bmp_change_bit:
  assumes "n < 64 * length m"
  shows "\<exists>m'. c_change_bit (int n) m = Some m' \<and> length m' = length m \<and>
     (\<forall>i. bmp_bit m' i \<longleftrightarrow> (if i = n then \<not> bmp_bit m i else bmp_bit m i))"
  using assms div_lt_length [OF assms]
  by (simp add: c_change_bit_def bmp_bit_update nat_eq_by_64 [of _ n])
     (auto simp: bmp_bit_def bit_simps)

section \<open>The scanner\<close>

lemma find_block:
  "b \<le> 64 \<Longrightarrow> List.find (bmp_bit m) [64 * p + a..<64 * p + b] =
     map_option (\<lambda>k. 64 * p + k) (List.find (bit (m ! p)) [a..<b])"
  unfolding upt_shift find_map
  by (rule arg_cong [where f = "map_option _"], rule find_cong_set) (simp add: bmp_bit_split)

lemma find_bit_zero: "List.find (bit (w :: u64)) [0..<64] = None \<longleftrightarrow> w = 0"
proof
  assume "List.find (bit w) [0..<64] = None"
  then have "\<forall>k < 64. \<not> bit w k" by (auto simp: find_None_iff)
  then show "w = 0" by (intro bit_eqI) (auto dest: bit_imp_le_length)
qed (simp add: find_None_iff)

lemma unat_c_ffs: "List.find (bit tmp) [0..<64] = Some k \<Longrightarrow> unat (c_ffs tmp) = k \<and> k < 64"
  by (frule find_Some_iff [THEN iffD1]) (auto simp: c_ffs_def builtin_ffsl_def unat_of_nat)

lemma found_middle_eq:
  assumes "List.find (bit tmp) [0..<64] = Some k" and "unat result = 64 * p"
    and "64 * p + 64 \<le> (2 :: nat) ^ 64"
  shows "unat (fnb_found_middle result tmp) = 64 * p + k"
  using assms unat_c_ffs [OF assms(1)] by (simp add: fnb_found_middle_def unat_plus_eq)

lemma find_bit_masked:
  assumes "a \<le> b" and "b \<le> 64"
    and "\<And>i. bit tmp i = (bit (w :: u64) i \<and> a \<le> i \<and> i < b)"
  shows "List.find (bit tmp) [0..<64] = List.find (bit w) [a..<b]"
proof -
  have 1: "List.find (bit tmp) [0..<a] = None" by (auto simp: find_None_iff assms(3))
  have 2: "List.find (bit tmp) [b..<64] = None" by (auto simp: find_None_iff assms(3))
  have 3: "List.find (bit tmp) [a..<b] = List.find (bit w) [a..<b]"
    by (rule find_cong_set) (simp add: assms(3))
  show ?thesis
    using find_upt_split [of 0 a 64 "bit tmp"] find_upt_split [of a b 64 "bit tmp"] assms(1,2)
    by (simp add: 1 2 3 split: option.splits)
qed

lemma found_first_eq:
  assumes "unat result = 64 * p" and "64 * p + 64 \<le> (2 :: nat) ^ 64"
    and "a \<le> unat sz" and "unat sz < 64" and "0 < unat sz"
    and tmp: "\<And>i. bit tmp i = (bit (m ! p) i \<and> a \<le> i \<and> i < 64)"
  shows "unat (fnb_found_first result sz tmp) = next_bit_ref m (64 * p + unat sz) (64 * p + a)"
proof -
  define tmp' where "tmp' = tmp AND drop_bit (unat (64 - sz)) (- 1)"
  have v: "fnb_found_first result sz tmp =
      (if tmp' = 0 then result + sz else fnb_found_middle result tmp')"
    by (simp only: fnb_found_first_def Let_def tmp'_def)
  have le: "sz \<le> 64" using assms(4) by (simp add: word_le_nat_alt)
  have u: "unat (64 - sz) = 64 - unat sz" by (simp add: unat_sub [OF le])
  have bits: "\<And>i. bit tmp' i = (bit (m ! p) i \<and> a \<le> i \<and> i < unat sz)"
    using assms(4,5) by (auto simp: tmp'_def bit_simps u tmp)
  have f: "List.find (bit tmp') [0..<64] = List.find (bit (m ! p)) [a..<unat sz]"
    by (rule find_bit_masked) (use assms(3,4) bits in auto)
  have ref: "List.find (bmp_bit m) [64 * p + a..<64 * p + unat sz] =
      map_option (\<lambda>k. 64 * p + k) (List.find (bit tmp') [0..<64])"
    using assms(4) by (simp add: find_block f)
  show ?thesis
  proof (cases "List.find (bit tmp') [0..<64]")
    case None
    then have "tmp' = 0" by (simp add: find_bit_zero)
    then show ?thesis using assms(1,2,4) None
      by (simp add: v next_bit_ref_def ref unat_plus_eq)
  next
    case (Some k)
    then have "tmp' \<noteq> 0" by (metis find_bit_zero option.distinct(1))
    then show ?thesis using found_middle_eq [OF Some assms(1,2)] Some
      by (simp add: v next_bit_ref_def ref)
  qed
qed

lemma next_bit_ref_block:
  "a \<le> 64 \<Longrightarrow> 64 * p + 64 \<le> n \<Longrightarrow> next_bit_ref m n (64 * p + a) =
     (case List.find (bit (m ! p)) [a..<64] of
        None \<Rightarrow> next_bit_ref m n (64 * p + 64) | Some k \<Rightarrow> 64 * p + k)"
  unfolding next_bit_ref_def
  by (subst find_upt_split [of _ "64 * p + 64"]) (auto simp: find_block split: option.splits)

lemma fnb_words_correct:
  assumes "unat result = 64 * p" and "64 * p + unat sz \<le> 64 * length m"
    and "64 * length m + 64 \<le> (2 :: nat) ^ 64"
  shows "\<exists>r. fnb_words m (int p) result sz = Some r \<and>
     unat r = next_bit_ref m (64 * p + unat sz) (64 * p)"
  using assms
proof (induction "unat sz" arbitrary: p result sz rule: less_induct)
  case less
  show ?case
  proof (cases "unat sz < 64")
    case small: True
    show ?thesis
    proof (cases "sz = 0")
      case True
      with less.prems show ?thesis
        by (simp add: fnb_words.simps [of m "int p" result 0] next_bit_ref_def)
    next
      case False
      then have pos: "0 < unat sz" by (simp add: unat_gt_0)
      have p: "p < length m" using less.prems(2) pos by simp
      have "unat (fnb_found_first result sz (m ! p)) = next_bit_ref m (64 * p + unat sz) (64 * p + 0)"
        by (rule found_first_eq) (use less.prems p small pos in \<open>auto dest: bit_imp_le_length\<close>)
      with False small p show ?thesis
        by (simp add: fnb_words.simps [of m "int p" result sz] and_not_63_iff arr_simps)
    qed
  next
    case False
    then have big: "64 \<le> unat sz" by simp
    have p: "p < length m" and n: "64 * p + 64 \<le> 64 * p + unat sz"
      using less.prems(2) big by simp_all
    note ref = next_bit_ref_block [of 0 p "64 * p + unat sz" m, simplified, OF n [simplified]]
    show ?thesis
    proof (cases "List.find (bit (m ! p)) [0..<64]")
      case None
      then have z: "m ! p = 0" by (simp add: find_bit_zero)
      have "\<exists>r. fnb_words m (int (p + 1)) (result + 64) (sz - 64) = Some r \<and>
          unat r = next_bit_ref m (64 * (p + 1) + unat (sz - 64)) (64 * (p + 1))"
        by (rule less.hyps) (use less.prems big p in \<open>auto simp: unat_minus_64 unat_plus_eq\<close>)
      moreover have "64 * (p + 1) + unat (sz - 64) = 64 * p + unat sz"
        and "int (p + 1) = int p + 1" and "64 * (p + 1) = 64 * p + 64"
        using big by (simp_all add: unat_minus_64)
      ultimately have "\<exists>r. fnb_words m (int p + 1) (result + 64) (sz - 64) = Some r \<and>
          unat r = next_bit_ref m (64 * p + unat sz) (64 * p)"
        by (simp only: ref None option.case)
      with z big p show ?thesis
        by (simp add: fnb_words.simps [of m "int p" result sz] and_not_63_iff arr_simps)
    next
      case (Some k)
      then have "m ! p \<noteq> 0" by (metis find_bit_zero option.distinct(1))
      moreover have "64 * p + 64 \<le> (2 :: nat) ^ 64" using less.prems p by simp
      ultimately show ?thesis
        using found_middle_eq [OF Some less.prems(1)] p big
        by (simp add: fnb_words.simps [of m "int p" result sz] and_not_63_iff arr_simps ref Some)
    qed
  qed
qed

lemma find_next_bit_correct:
  assumes "unat sz \<le> 64 * length m" and "64 * length m + 64 \<le> (2 :: nat) ^ 64"
    and "offset < sz"
  shows "\<exists>r. find_next_bit m sz offset = Some r \<and> unat r = next_bit_ref m (unat sz) (unat offset)"
proof -
  define q a where "q = unat offset div 64" and "a = unat offset mod 64"
  define result s where "result = offset AND - 64" and "s = sz - result"
  define tmp where "tmp = (m ! q) AND push_bit a (- 1)"
  have off: "unat offset = 64 * q + a" and a: "a < 64" by (simp_all add: q_def a_def)
  have lt: "unat offset < unat sz" using assms(3) by (simp add: word_less_nat_alt)
  have res: "unat result = 64 * q"
    by (simp add: result_def unat_and_not_63 q_def minus_mod_eq_mult_div)
  then have le: "result \<le> sz" using lt off by (simp add: word_le_nat_alt)
  have s: "64 * q + unat s = unat sz" using res le by (simp add: s_def unat_sub word_le_nat_alt)
  have q: "q < length m" using lt off assms(1) by simp
  have p: "uint (offset div 64) = int q" by (simp add: q_def uint_div zdiv_int)
  have o: "unat (offset mod 64) = a" by (simp add: unat_mod a_def)
  have fnb: "find_next_bit m sz offset =
      (if offset mod 64 \<noteq> 0 then
            if s < 64 then Some (fnb_found_first result s tmp)
            else if tmp \<noteq> 0 then Some (fnb_found_middle result tmp)
            else fnb_words m (int q + 1) (result + 64) (s - 64)
       else fnb_words m (int q) result s)"
    using assms(3) [unfolded not_le [symmetric]] q by (simp add: find_next_bit_def Let_def p o arr_simps result_def s_def tmp_def)
  have bound: "64 * q + 64 \<le> (2 :: nat) ^ 64" using q assms(2) by simp
  show ?thesis
  proof (cases "offset mod 64 = 0")
    case True
    then have "a = 0" using o by simp
    then show ?thesis
      using fnb_words_correct [of result q s m] res s assms(1,2) True off by (simp add: fnb)
  next
    case False
    have bits: "\<And>i. bit tmp i = (bit (m ! q) i \<and> a \<le> i \<and> i < 64)"
      by (auto simp: tmp_def bit_simps dest: bit_imp_le_length)
    have find: "List.find (bit tmp) [0..<64] = List.find (bit (m ! q)) [a..<64]"
      by (rule find_bit_masked) (use a bits in auto)
    show ?thesis
    proof (cases "unat s < 64")
      case True
      then have "unat (fnb_found_first result s tmp) = next_bit_ref m (64 * q + unat s) (64 * q + a)"
        using lt off s by (intro found_first_eq) (use res bound bits in auto)
      then show ?thesis using True False s off
        by (simp add: fnb word_less_nat_alt)
    next
      case big: False
      have n: "64 * q + 64 \<le> unat sz" using big s by simp
      have ref: "next_bit_ref m (unat sz) (unat offset) = (case List.find (bit tmp) [0..<64] of
          None \<Rightarrow> next_bit_ref m (unat sz) (64 * q + 64) | Some k \<Rightarrow> 64 * q + k)"
        unfolding off find using a n by (simp add: next_bit_ref_block)
      show ?thesis
      proof (cases "List.find (bit tmp) [0..<64]")
        case None
        then have z: "tmp = 0" by (simp add: find_bit_zero)
        have "\<exists>r. fnb_words m (int (q + 1)) (result + 64) (s - 64) = Some r \<and>
          unat r = next_bit_ref m (64 * (q + 1) + unat (s - 64)) (64 * (q + 1))"
          by (rule fnb_words_correct)
             (use res s assms(1,2) big q in \<open>auto simp: unat_minus_64 unat_plus_eq\<close>)
        moreover have "64 * (q + 1) + unat (s - 64) = unat sz" and "int (q + 1) = int q + 1"
          and "64 * (q + 1) = 64 * q + 64"
          using big s by (simp_all add: unat_minus_64)
        ultimately have "\<exists>r. fnb_words m (int q + 1) (result + 64) (s - 64) = Some r \<and>
          unat r = next_bit_ref m (unat sz) (unat offset)"
          by (simp only: ref None option.case)
        then show ?thesis using False big z by (simp add: fnb word_less_nat_alt)
      next
        case (Some k)
        then have "tmp \<noteq> 0" by (metis find_bit_zero option.distinct(1))
        then show ?thesis using found_middle_eq [OF Some res bound] False big Some
          by (simp add: fnb word_less_nat_alt ref)
      qed
    qed
  qed
qed

section \<open>Ranges\<close>

lemma bitmap_set_words_full:
  "64 * p + n \<le> 64 * length m \<Longrightarrow>
   \<exists>m'. bitmap_set_words m (int p) (int n) 64 (- 1) =
          Some (m', int (p + n div 64), int (n mod 64), - 1) \<and>
        length m' = length m \<and>
        (\<forall>k. m' ! k = (if p \<le> k \<and> k < p + n div 64 then - 1 else m ! k))"
proof (induction n arbitrary: p m rule: less_induct)
  case (less n)
  show ?case
  proof (cases "n < 64")
    case True
    then show ?thesis by (subst bitmap_set_words.simps) auto
  next
    case False
    then have n: "n = 64 + (n - 64)" "(n - 64) mod 64 = n mod 64" "n div 64 = Suc ((n - 64) div 64)"
      by (simp_all add: le_mod_geq le_div_geq)
    have p: "p < length m" using less.prems False by simp
    define m1 where "m1 = m[p := - 1]"
    obtain m' where m': "bitmap_set_words m1 (int (p + 1)) (int (n - 64)) 64 (- 1) =
        Some (m', int (p + 1 + (n - 64) div 64), int ((n - 64) mod 64), - 1)"
      and len: "length m' = length m1"
      and nth: "\<forall>k. m' ! k = (if p + 1 \<le> k \<and> k < p + 1 + (n - 64) div 64 then - 1 else m1 ! k)"
      using less.IH [of "n - 64" "p + 1" m1] less.prems False by (auto simp: m1_def)
    have "bitmap_set_words m (int p) (int n) 64 (- 1) =
        bitmap_set_words m1 (int (p + 1)) (int (n - 64)) 64 (- 1)"
      using False p by (subst bitmap_set_words.simps) (simp add: arr_simps m1_def of_nat_diff add.commute)
    moreover have "m' ! k = (if p \<le> k \<and> k < p + n div 64 then - 1 else m ! k)" for k
      using nth [rule_format, of k] n p by (cases "k = p") (auto simp: m1_def)
    ultimately show ?thesis using m' len n by (auto simp: m1_def)
  qed
qed

lemma last_word_mask:
  "BITMAP_LAST_WORD_MASK (int n) = Some (if n mod 64 = 0 then - 1 else mask (n mod 64))"
proof -
  have "int n smod 64 = int (n mod 64)" by (simp add: zmod_int)
  then show ?thesis by (simp add: BITMAP_LAST_WORD_MASK_def mask_eq_exp_minus_1)
qed

lemma block_le_iff:
  "r < 64 \<Longrightarrow> o' < 64 \<Longrightarrow> 64 * q + o' \<le> 64 * k + r \<longleftrightarrow> q < k \<or> q = k \<and> o' \<le> (r :: nat)"
  by (cases q k rule: linorder_cases) auto

lemma block_less_iff:
  "r < 64 \<Longrightarrow> o' < 64 \<Longrightarrow> 64 * k + r < 64 * q + o' \<longleftrightarrow> k < q \<or> k = q \<and> r < (o' :: nat)"
  by (cases q k rule: linorder_cases) auto

lemma bmp_bit_eqI:
  assumes "\<And>k r. r < 64 \<Longrightarrow> bit (m' ! k) r \<longleftrightarrow> bit (m ! k) r \<or> 64 * k + r \<in> A"
  shows "bmp_bit m' i \<longleftrightarrow> bmp_bit m i \<or> i \<in> A"
  using assms [of "i mod 64" "i div 64"] by (simp add: bmp_bit_def)

lemma bitmap_set_one_word:
  assumes "o' + n < 64" and "0 < n" and "q < length m"
  shows "\<exists>m'. bitmap_set m (int (64 * q + o')) (int n) = Some m' \<and> length m' = length m \<and>
    (\<forall>i. bmp_bit m' i \<longleftrightarrow> bmp_bit m i \<or> i \<in> {64 * q + o'..<64 * q + o' + n})"
proof -
  let ?s = "64 * q + o'" and ?w = "(m ! q) OR (push_bit o' (- 1) AND mask (o' + n))"
  have o: "o' < 64" using assms(1) by simp
  have start: "int ?s sdiv 64 = int q" "int ?s smod 64 = int o'" "(?s + n) mod 64 = o' + n"
    using assms(1) by (simp_all add: add.assoc)
  have "bitmap_set_words m (int q) (int n) (64 - int o') (push_bit o' (- 1)) =
      Some (m, int q, int n, push_bit o' (- 1))"
    using assms(1) by (subst bitmap_set_words.simps) auto
  then have eq: "bitmap_set m (int ?s) (int n) = Some (m[q := ?w])"
    using assms(2,3) last_word_mask [of "?s + n", unfolded start(3)]
    unfolding bitmap_set_def BITMAP_FIRST_WORD_MASK_def start by (simp add: arr_simps add.assoc)
  have "bmp_bit (m[q := ?w]) i \<longleftrightarrow> bmp_bit m i \<or> i \<in> {?s..<?s + n}" for i
  proof (rule bmp_bit_eqI)
    fix k r :: nat assume r: "r < 64"
    have "64 * k + r \<in> {?s..<?s + n} \<longleftrightarrow> k = q \<and> o' \<le> r \<and> r < o' + n"
      using block_le_iff [OF r o, of q k] block_less_iff [OF r assms(1), of k q]
      by (auto simp: add.assoc)
    then show "bit (m[q := ?w] ! k) r \<longleftrightarrow> bit (m ! k) r \<or> 64 * k + r \<in> {?s..<?s + n}"
      using assms(3) r by (cases "k = q") (auto simp: bit_simps)
  qed
  with eq show ?thesis by auto
qed

lemma bitmap_set_more_words:
  assumes "o' < 64" and "64 \<le> o' + n" and "64 * q + o' + n \<le> 64 * length m"
  shows "\<exists>m'. bitmap_set m (int (64 * q + o')) (int n) = Some m' \<and> length m' = length m \<and>
    (\<forall>i. bmp_bit m' i \<longleftrightarrow> bmp_bit m i \<or> i \<in> {64 * q + o'..<64 * q + o' + n})"
proof -
  let ?s = "64 * q + o'"
  define n' where "n' = n - (64 - o')"
  define e c where "e = q + 1 + n' div 64" and "c = n' mod 64"
  have q: "q < length m" using assms by simp
  have c: "c < 64" and n': "64 * q + o' + n = 64 * e + c"
    using assms(1,2) by (simp_all add: e_def c_def n'_def)
  have start: "int ?s sdiv 64 = int q" "int ?s smod 64 = int o'" "(?s + n) mod 64 = c"
    using assms(1) c n' by simp_all
  define m1 where "m1 = m[q := (m ! q) OR push_bit o' (- 1)]"
  obtain m2 where m2: "bitmap_set_words m1 (int (q + 1)) (int n') 64 (- 1) =
      Some (m2, int e, int c, - 1)" and len: "length m2 = length m"
    and nth: "\<And>k. m2 ! k = (if q + 1 \<le> k \<and> k < e then - 1 else m1 ! k)"
    using bitmap_set_words_full [of "q + 1" n' m1] assms
    by (auto simp: m1_def n'_def e_def c_def)
  have n'_int: "int n - (64 - int o') = int n'" "0 \<le> int n - (64 - int o')"
    and q1: "int q + 1 = 1 + int q"
    using assms(1,2) by (simp_all add: n'_def)
  have "bitmap_set_words m (int q) (int n) (64 - int o') (push_bit o' (- 1)) =
      bitmap_set_words m1 (int (q + 1)) (int n') 64 (- 1)"
    using q by (subst bitmap_set_words.simps) (simp add: n'_int q1 arr_simps m1_def)
  then have words: "bitmap_set_words m (int q) (int n) (64 - int o') (push_bit o' (- 1)) =
      Some (m2, int e, int c, - 1)" using m2 by simp
  define m3 where "m3 = (if c = 0 then m2 else m2[e := (m2 ! e) OR mask c])"
  have e: "c \<noteq> 0 \<Longrightarrow> e < length m" using n' assms(3) by simp
  have eq: "bitmap_set m (int ?s) (int n) = Some m3"
    using words e last_word_mask [of "?s + n", unfolded start(3)] len
    unfolding bitmap_set_def BITMAP_FIRST_WORD_MASK_def start m3_def
    by (auto simp: arr_simps add.assoc)
  have "bmp_bit m3 i \<longleftrightarrow> bmp_bit m i \<or> i \<in> {?s..<?s + n}" for i
  proof (rule bmp_bit_eqI)
    fix k r :: nat assume r: "r < 64"
    have qe: "q < e" by (simp add: e_def)
    have "64 * k + r \<in> {?s..<?s + n} \<longleftrightarrow> (q < k \<or> q = k \<and> o' \<le> r) \<and> (k < e \<or> k = e \<and> r < c)"
      using block_le_iff [OF r assms(1), of q k] block_less_iff [OF r c, of k e] n' by auto
    then show "bit (m3 ! k) r \<longleftrightarrow> bit (m ! k) r \<or> 64 * k + r \<in> {?s..<?s + n}"
      using r q qe e len
      by (cases k e rule: linorder_cases; cases k q rule: linorder_cases)
         (auto simp: m3_def nth m1_def bit_simps)
  qed
  with eq show ?thesis using len by (auto simp: m3_def)
qed

lemma bitmap_set_correct:
  assumes "s + n \<le> 64 * length m"
  shows "\<exists>m'. bitmap_set m (int s) (int n) = Some m' \<and> length m' = length m \<and>
    (\<forall>i. bmp_bit m' i \<longleftrightarrow> bmp_bit m i \<or> i \<in> {s..<s + n})"
proof (cases "n = 0")
  case True
  have "bitmap_set_words m (int s div 64) 0 (64 - int s mod 64) w = Some (m, int s div 64, 0, w)" for w
    using pos_mod_bound [of 64 "int s"]
    by (subst bitmap_set_words.simps) (simp add: not_le del: pos_mod_bound)
  with True show ?thesis by (simp add: bitmap_set_def BITMAP_FIRST_WORD_MASK_def)
next
  case False
  define q o' where "q = s div 64" and "o' = s mod 64"
  have s: "s = 64 * q + o'" and o: "o' < 64" by (simp_all add: q_def o'_def)
  show ?thesis
  proof (cases "o' + n < 64")
    case True
    then show ?thesis unfolding s
      by (rule bitmap_set_one_word) (use False assms s in auto)
  next
    case False
    then show ?thesis unfolding s
      by (intro bitmap_set_more_words) (use o assms s in auto)
  qed
qed

text \<open>Clearing is setting on the complement, which gives its specification.\<close>

lemma arr_get_map: "arr_get (map f m) p = map_option f (arr_get m p)"
  by (auto simp: arr_get_def)

lemma arr_set_map: "arr_set (map f m) p (f w) = map_option (map f) (arr_set m p w)"
  by (auto simp: arr_set_def map_update)

lemma bitmap_clear_words_dual:
  "bitmap_clear_words m p nr b k =
     map_option (\<lambda>(m, p, nr, k). (map NOT m, p, nr, k)) (bitmap_set_words (map NOT m) p nr b k)"
proof (induction m p nr b k rule: bitmap_clear_words.induct)
  case (1 m p nr b k)
  have *: "arr_set (map NOT m) p (NOT w OR k) = map_option (map NOT) (arr_set m p (w AND NOT k))" for w
    using arr_set_map [of NOT m p "w AND NOT k"] by simp
  show ?case
    using "1.IH"
    by (subst bitmap_clear_words.simps, subst bitmap_set_words.simps)
       (auto simp: arr_get_map * comp_def map_idI split: Option.bind_split)
qed

lemma bitmap_clear_dual:
  "bitmap_clear m start nr = map_option (map NOT) (bitmap_set (map NOT m) start nr)"
proof -
  have inv: "map NOT (map NOT xs) = xs" for xs :: "u64 list" by (simp add: comp_def map_idI)
  have upd: "arr_set (map NOT m) p (NOT w AND (NOT k OR NOT l)) =
      map_option (map NOT) (arr_set m p (w OR k AND l))" for m p and w k l :: u64
    using arr_set_map [of NOT m p "w OR k AND l"] by simp
  show ?thesis
    unfolding bitmap_clear_def bitmap_set_def bitmap_clear_words_dual
    by (auto simp: arr_get_map inv upd split: Option.bind_split)
qed

lemma bmp_bit_map_NOT: "i < 64 * length m \<Longrightarrow> bmp_bit (map NOT m) i \<longleftrightarrow> \<not> bmp_bit m i"
  using div_lt_length [of i m] by (simp add: bmp_bit_def bit_simps)

lemma bitmap_clear_correct:
  assumes "s + n \<le> 64 * length m"
  shows "\<exists>m'. bitmap_clear m (int s) (int n) = Some m' \<and> length m' = length m \<and>
    (\<forall>i < 64 * length m. bmp_bit m' i \<longleftrightarrow> bmp_bit m i \<and> i \<notin> {s..<s + n})"
proof -
  obtain m1 where m1: "bitmap_set (map NOT m) (int s) (int n) = Some m1" "length m1 = length m"
    "\<forall>i. bmp_bit m1 i \<longleftrightarrow> bmp_bit (map NOT m) i \<or> i \<in> {s..<s + n}"
    using bitmap_set_correct [of s n "map NOT m"] assms by auto
  then have "bitmap_clear m (int s) (int n) = Some (map NOT m1)" by (simp add: bitmap_clear_dual)
  moreover have "bmp_bit (map NOT m1) i \<longleftrightarrow> bmp_bit m i \<and> i \<notin> {s..<s + n}" if "i < 64 * length m" for i
    using that m1 by (simp add: bmp_bit_map_NOT)
  ultimately show ?thesis using m1(2) by simp
qed

section \<open>The interface of a bit array\<close>

text \<open>
  What the users of single bits rely on: within the capacity an operation does not fault,
  and it acts on the set of bit numbers.
\<close>

locale bit_store =
  fixes setb :: "int \<Rightarrow> 's \<Rightarrow> 's option"
    and clearb :: "int \<Rightarrow> 's \<Rightarrow> 's option"
    and testb :: "int \<Rightarrow> 's \<Rightarrow> int option"
    and members :: "'s \<Rightarrow> nat set"
    and cap :: "'s \<Rightarrow> nat"
  assumes set_law: "n < cap s \<Longrightarrow>
      \<exists>s'. setb (int n) s = Some s' \<and> cap s' = cap s \<and> members s' = insert n (members s)"
    and clear_law: "n < cap s \<Longrightarrow>
      \<exists>s'. clearb (int n) s = Some s' \<and> cap s' = cap s \<and> members s' = members s - {n}"
    and test_law: "n < cap s \<Longrightarrow> testb (int n) s = Some (if n \<in> members s then -1 else 0)"
begin

lemma test_after_set:
  assumes "n < cap s" and "k < cap s" and "setb (int n) s = Some s'"
  shows "testb (int k) s' = (if k = n then Some (-1) else testb (int k) s)"
  using set_law [OF assms(1)] assms(2,3) by (auto simp: test_law)

lemma test_after_clear:
  assumes "n < cap s" and "k < cap s" and "clearb (int n) s = Some s'"
  shows "testb (int k) s' = (if k = n then Some 0 else testb (int k) s)"
  using clear_law [OF assms(1)] assms(2,3) by (auto simp: test_law)

lemma set_members:
  "n < cap s \<Longrightarrow> setb (int n) s = Some s' \<Longrightarrow> members s' = insert n (members s) \<and> cap s' = cap s"
  using set_law [of n s] by auto

lemma clear_members:
  "n < cap s \<Longrightarrow> clearb (int n) s = Some s' \<Longrightarrow> members s' = members s - {n} \<and> cap s' = cap s"
  using clear_law [of n s] by auto

end

interpretation bmp: bit_store c_set_bit c_clear_bit c_test_bit bmp_abs "\<lambda>m. 64 * length m"
proof unfold_locales
  fix n and m :: "u64 list"
  assume n: "n < 64 * length m"
  show "\<exists>m'. c_set_bit (int n) m = Some m' \<and> 64 * length m' = 64 * length m \<and>
      bmp_abs m' = insert n (bmp_abs m)"
    using bmp_set_bit [OF n] n by (auto simp: bmp_abs_def)
  show "\<exists>m'. c_clear_bit (int n) m = Some m' \<and> 64 * length m' = 64 * length m \<and>
      bmp_abs m' = bmp_abs m - {n}"
    using bmp_clear_bit [OF n] n by (auto simp: bmp_abs_def)
  show "c_test_bit (int n) m = Some (if n \<in> bmp_abs m then -1 else 0)"
    using n by (simp add: c_test_bit_eq bmp_abs_def)
qed

section \<open>Properties\<close>

lemma next_bit_ref_spec:
  assumes "n \<le> 64 * length m" and "off < n"
  shows "next_bit_ref m n off \<le> n \<and>
    (\<forall>i. off \<le> i \<and> i < next_bit_ref m n off \<longrightarrow> i \<notin> bmp_abs m) \<and>
    (next_bit_ref m n off < n \<longrightarrow> off \<le> next_bit_ref m n off \<and> next_bit_ref m n off \<in> bmp_abs m)"
proof (cases "List.find (bmp_bit m) [off..<n]")
  case None
  then have "next_bit_ref m n off = n" by (simp add: next_bit_ref_def)
  with None show ?thesis by (auto simp: find_None_iff bmp_abs_def)
next
  case (Some i)
  then obtain k where k: "i = off + k" "off + k < n" "bmp_bit m (off + k)"
      "\<forall>j < k. \<not> bmp_bit m (off + j)"
    by (auto simp: find_Some_iff)
  then have "\<not> bmp_bit m i'" if "off \<le> i'" "i' < off + k" for i'
    using that by (metis le_add_diff_inverse add_less_cancel_left)
  with Some k assms(1) show ?thesis by (auto simp: next_bit_ref_def bmp_abs_def)
qed

text \<open>C20: \<^verbatim>\<open>find_next_bit\<close> never reads outside the array and returns the first set bit
  at or after \<open>offset\<close> below \<open>size\<close>, or \<open>size\<close> if there is none.\<close>

theorem find_next_bit_first:
  assumes "unat sz \<le> 64 * length m" and "64 * length m + 64 \<le> (2 :: nat) ^ 64"
  shows "\<exists>r. find_next_bit m sz offset = Some r \<and> r \<le> sz \<and>
    (\<forall>i. unat offset \<le> i \<and> i < unat r \<longrightarrow> i \<notin> bmp_abs m) \<and>
    (r < sz \<longrightarrow> offset \<le> r \<and> unat r \<in> bmp_abs m)"
proof (cases "offset < sz")
  case True
  then obtain r where r: "find_next_bit m sz offset = Some r"
      "unat r = next_bit_ref m (unat sz) (unat offset)"
    using find_next_bit_correct [OF assms] by auto
  have "unat offset < unat sz" using True by (simp add: word_less_nat_alt)
  from next_bit_ref_spec [OF assms(1) this] r show ?thesis
    by (auto simp: word_le_nat_alt word_less_nat_alt)
next
  case False
  then have "find_next_bit m sz offset = Some sz" by (simp add: find_next_bit_def not_less)
  with False show ?thesis by (auto simp: word_less_nat_alt)
qed

theorem find_next_bit_first_witness:
  "find_next_bit [4, 1] 128 3 = Some 64 \<and>
   (\<exists>r. find_next_bit [4, 1] 128 3 = Some r \<and> r \<le> 128 \<and>
     (\<forall>i. unat (3 :: u64) \<le> i \<and> i < unat r \<longrightarrow> i \<notin> bmp_abs [4, 1]) \<and>
     (r < 128 \<longrightarrow> 3 \<le> r \<and> unat r \<in> bmp_abs [4, 1]))"
proof
  show "find_next_bit [4, 1] 128 3 = Some 64" by code_simp
  have h: "unat (128 :: u64) \<le> 64 * length [4, 1 :: u64]"
    "64 * length [4, 1 :: u64] + 64 \<le> (2 :: nat) ^ 64" by simp_all
  show "\<exists>r. find_next_bit [4, 1] 128 3 = Some r \<and> r \<le> 128 \<and>
     (\<forall>i. unat (3 :: u64) \<le> i \<and> i < unat r \<longrightarrow> i \<notin> bmp_abs [4, 1]) \<and>
     (r < 128 \<longrightarrow> 3 \<le> r \<and> unat r \<in> bmp_abs [4, 1])"
    by (rule find_next_bit_first [OF h])
qed

text \<open>C21: \<^verbatim>\<open>bitmap_set\<close> on a range inside the array does not fault, keeps the array's
  length and adds exactly the bits of the range.\<close>

theorem bitmap_set_range:
  assumes "s + n \<le> 64 * length m"
  shows "\<exists>m'. bitmap_set m (int s) (int n) = Some m' \<and> length m' = length m \<and>
    bmp_abs m' = bmp_abs m \<union> {s..<s + n}"
  using bitmap_set_correct [OF assms] assms by (auto simp: bmp_abs_def)

theorem bitmap_set_range_witness:
  "\<exists>m'. bitmap_set [0, 0] (int 60) (int 10) = Some m' \<and> length m' = length [0, 0 :: u64] \<and>
    bmp_abs m' = bmp_abs [0, 0] \<union> {60..<60 + 10}"
  by (rule bitmap_set_range) simp

text \<open>\<^verbatim>\<open>bitmap_clear\<close> on a range inside the array does not fault, keeps the array's
  length and removes exactly the bits of the range.\<close>

theorem bitmap_clear_range:
  assumes "s + n \<le> 64 * length m"
  shows "\<exists>m'. bitmap_clear m (int s) (int n) = Some m' \<and> length m' = length m \<and>
    bmp_abs m' = bmp_abs m - {s..<s + n}"
  using bitmap_clear_correct [OF assms] by (auto simp: bmp_abs_def)

theorem bitmap_clear_range_witness:
  "\<exists>m'. bitmap_clear [- 1, - 1] (int 60) (int 10) = Some m' \<and> length m' = length [- 1, - 1 :: u64] \<and>
    bmp_abs m' = bmp_abs [- 1, - 1] - {60..<60 + 10}"
  by (rule bitmap_clear_range) simp

end
