(* ===== verification/PagePipe.thy ===== *)
theory PagePipe
  imports Prelude
begin

text \<open>
  The page pipe (\<^verbatim>\<open>criu/page-pipe.c\<close>, \<^verbatim>\<open>criu/include/page-pipe.h\<close>): the descriptor of
  a task's memory that the dump fills page by page before the pages are spliced out.
  A \<open>page_pipe\<close> owns page pipe buffers (\<open>page_pipe_buf\<close>), each with a window of the
  shared \<open>iovs\<close> array and a share of a kernel pipe.  Buffers are pointers into the store
  \<open>ppbs\<close>, because \<open>bufs\<close>, \<open>free_bufs\<close> and \<open>prev\<close> alias them.  The kernel and the
  allocator are parameters (\<open>kernel\<close>), threaded through the \<open>env\<close>.
\<close>

section \<open>Data\<close>

abbreviation PAGE_SIZE :: nat where "PAGE_SIZE \<equiv> 4096"

text \<open>\<open>(1 << PAGE_ALLOC_COSTLY_ORDER) * PAGE_SIZE / sizeof(struct kernel_pipe_buffer)\<close>,
  the structure taking 40 bytes on a 64 bit machine.\<close>

definition PIPE_MAX_SIZE :: nat where "PIPE_MAX_SIZE = 8 * PAGE_SIZE div 40"
definition NR_PIPES_PER_CHUNK :: nat where "NR_PIPES_PER_CHUNK = 8"
definition PP_HOLES_BATCH :: nat where "PP_HOLES_BATCH = 32"
definition PPB_LAZY :: u32 where "PPB_LAZY = 1"
definition PPB_FORCE_RAW :: u32 where "PPB_FORCE_RAW = 2"
definition PP_CHUNK_MODE :: u32 where "PP_CHUNK_MODE = 1"
definition PP_OWN_IOVS :: u32 where "PP_OWN_IOVS = 4"
definition EAGAIN :: int where "EAGAIN = 11"

record iovec =
  iov_base :: u64
  iov_len :: u64

record page_pipe_buf =
  p_read :: int
  p_write :: int
  pipe_size :: nat
  nr_segs :: nat
  pipe_off :: nat
  pages_in :: nat
  ppb_flags :: u32
  ppb_iov :: nat

type_synonym ppb_ptr = nat

record page_pipe =
  ppbs :: "ppb_ptr \<Rightarrow> page_pipe_buf option"
  next_ppb :: ppb_ptr
  nr_pipes :: nat
  bufs :: "ppb_ptr list"
  free_bufs :: "ppb_ptr list"
  prev :: "ppb_ptr option list"
  nr_iovs :: nat
  free_iov :: nat
  iovs :: "iovec list"
  nr_holes :: nat
  free_hole :: nat
  holes :: "iovec list"
  hole_flags :: "u32 list"
  pp_flags :: u32
  break_iov :: bool

text \<open>The calls that leave the program, and the state they act on.\<close>

record 'w kernel =
  k_malloc :: "'w \<Rightarrow> bool \<times> 'w"
  k_pipe :: "'w \<Rightarrow> (int \<times> int) option \<times> 'w"
  k_set_pipe_sz :: "int \<Rightarrow> nat \<Rightarrow> 'w \<Rightarrow> int \<times> 'w"
  k_get_pipe_sz :: "int \<Rightarrow> 'w \<Rightarrow> int \<times> 'w"
  k_tee :: "int \<Rightarrow> int \<Rightarrow> nat \<Rightarrow> 'w \<Rightarrow> int \<times> 'w"
  k_splice :: "int \<Rightarrow> int \<Rightarrow> nat \<Rightarrow> 'w \<Rightarrow> int \<times> 'w"
  k_open_sink :: "'w \<Rightarrow> int \<times> 'w"
  k_close :: "int \<Rightarrow> 'w \<Rightarrow> 'w"

record 'w env =
  world :: 'w
  opts_lazy_pages :: bool
  cnt_page_pipe_bufs :: nat
  cnt_page_pipes :: nat

section \<open>Operations\<close>

definition iov_grow_page :: "iovec \<Rightarrow> u64 \<Rightarrow> iovec option" where
  "iov_grow_page iov addr =
     (if iov_base iov + iov_len iov = addr then Some (iov\<lparr>iov_len := iov_len iov + 4096\<rparr>) else None)"

definition iov_init :: "u64 \<Rightarrow> iovec" where
  "iov_init addr = \<lparr>iov_base = addr, iov_len = 4096\<rparr>"

definition ppb_resize_to ::
  "'w kernel \<Rightarrow> page_pipe_buf \<Rightarrow> nat \<Rightarrow> 'w env \<Rightarrow> (int \<times> page_pipe_buf \<times> 'w env) option" where
  "ppb_resize_to k ppb new_size e =
     (let (ret, w) = k_set_pipe_sz k (p_read ppb) (new_size * PAGE_SIZE) (world e);
          e = e\<lparr>world := w\<rparr>
      in if ret < 0 then Some (- 1, ppb, e)
         else let ret = nat (ret sdiv int PAGE_SIZE)
              in if ret < pipe_size ppb then None
                 else Some (0, ppb\<lparr>pipe_size := ret\<rparr>, e))"

definition ppb_resize_pipe ::
  "'w kernel \<Rightarrow> page_pipe_buf \<Rightarrow> 'w env \<Rightarrow> (int \<times> page_pipe_buf \<times> 'w env) option" where
  "ppb_resize_pipe k ppb e =
     (let new_size = (2 * pipe_size ppb) mod 2 ^ 32
      in if pages_in ppb + pipe_off ppb < pipe_size ppb then Some (0, ppb, e)
         else if new_size > PIPE_MAX_SIZE \<and> \<not> pipe_size ppb < PIPE_MAX_SIZE then Some (1, ppb, e)
         else do {
           (ret, ppb, e) \<leftarrow>
             ppb_resize_to k ppb (if new_size > PIPE_MAX_SIZE then PIPE_MAX_SIZE else new_size) e;
           Some (if ret < 0 then 1 else 0, ppb, e) })"

definition ppb_type :: "bool \<Rightarrow> u32 \<Rightarrow> u32" where
  "ppb_type lazy_pages flags =
     (let type = 0;
          type = (if flags AND PPB_LAZY \<noteq> 0 \<and> lazy_pages then type OR PPB_LAZY else type);
          type = (if flags AND PPB_FORCE_RAW \<noteq> 0 then type OR PPB_FORCE_RAW else type)
      in type)"

definition pp_prev_ppb :: "page_pipe \<Rightarrow> bool \<Rightarrow> u32 \<Rightarrow> ppb_ptr option option" where
  "pp_prev_ppb pp lazy_pages flags =
     (if pp_flags pp AND PP_CHUNK_MODE \<noteq> 0 then Some None
      else if bufs pp = [] then Some None
      else arr_get (prev pp) (uint (ppb_type lazy_pages flags)))"

definition pp_update_prev_ppb :: "page_pipe \<Rightarrow> ppb_ptr \<Rightarrow> bool \<Rightarrow> u32 \<Rightarrow> page_pipe option" where
  "pp_update_prev_ppb pp ppb lazy_pages flags = do {
     ps \<leftarrow> arr_set (prev pp) (uint (ppb_type lazy_pages flags)) (Some ppb);
     Some (pp\<lparr>prev := ps\<rparr>) }"

text \<open>The block that \<^verbatim>\<open>xmalloc\<close> returns is not initialised: \<open>junk\<close> stands for its contents.\<close>

definition ppb_junk :: page_pipe_buf where
  "ppb_junk = \<lparr>p_read = - 1, p_write = - 1, pipe_size = 0, nr_segs = 0, pipe_off = 0,
     pages_in = 0, ppb_flags = 0, ppb_iov = 0\<rparr>"

text \<open>The two branches of \<^verbatim>\<open>ppb_alloc\<close> that fill a new buffer: sharing the pipe of the
  previous buffer of the type, or making a pipe.\<close>

definition ppb_share :: "page_pipe_buf \<Rightarrow> page_pipe_buf" where
  "ppb_share prv = ppb_junk\<lparr>p_read := p_read prv, p_write := p_write prv,
     pipe_off := pages_in prv + pipe_off prv, pipe_size := pipe_size prv\<rparr>"

definition ppb_new_pipe :: "'w kernel \<Rightarrow> 'w env \<Rightarrow> page_pipe_buf option \<times> 'w env" where
  "ppb_new_pipe k e =
     (case k_pipe k (world e) of
        (None, w) \<Rightarrow> (None, e\<lparr>world := w\<rparr>)
      | (Some (r, wr), w) \<Rightarrow>
          let e = e\<lparr>world := w, cnt_page_pipes := cnt_page_pipes e + 1\<rparr>;
              (ppb_size, w) = k_get_pipe_sz k r (world e)
          in if ppb_size < 0
             then (None, e\<lparr>world := k_close k wr (k_close k r w)\<rparr>)
             else (Some (ppb_junk\<lparr>p_read := r, p_write := wr, pipe_off := 0,
                     pipe_size := nat (ppb_size sdiv int PAGE_SIZE)\<rparr>), e\<lparr>world := w\<rparr>))"

text \<open>The source of a new buffer: the previous buffer's pipe when it has room left,
  else a new pipe.\<close>

definition ppb_source ::
  "'w kernel \<Rightarrow> ppb_ptr option \<Rightarrow> page_pipe \<Rightarrow> 'w env \<Rightarrow> (page_pipe_buf option \<times> page_pipe \<times> 'w env) option" where
  "ppb_source k prv pp e = do {
     (shared, pp, e) \<leftarrow>
       (case prv of
          None \<Rightarrow> Some (None, pp, e)
        | Some a \<Rightarrow> do {
            b \<leftarrow> ppbs pp a;
            (ret, b, e) \<leftarrow> ppb_resize_pipe k b e;
            Some (if ret = 0 then Some b else None, pp\<lparr>ppbs := (ppbs pp)(a \<mapsto> b)\<rparr>, e) });
     Some (case shared of
        Some b \<Rightarrow> (Some (ppb_share b), pp, e)
      | None \<Rightarrow>
          (case ppb_new_pipe k e of
             (None, e) \<Rightarrow> (None, pp, e)
           | (Some b, e) \<Rightarrow> (Some b, pp\<lparr>nr_pipes := nr_pipes pp + 1\<rparr>, e))) }"

definition ppb_alloc ::
  "'w kernel \<Rightarrow> page_pipe \<Rightarrow> u32 \<Rightarrow> 'w env \<Rightarrow> (ppb_ptr option \<times> page_pipe \<times> 'w env) option" where
  "ppb_alloc k pp flags e = do {
     prv \<leftarrow> pp_prev_ppb pp (opts_lazy_pages e) flags;
     let (ok, w) = k_malloc k (world e);
     let e = e\<lparr>world := w\<rparr>;
     if \<not> ok then Some (None, pp, e)
     else do {
       let e = e\<lparr>cnt_page_pipe_bufs := cnt_page_pipe_bufs e + 1\<rparr>;
       (new, pp, e) \<leftarrow> ppb_source k prv pp e;
       (case new of
          None \<Rightarrow> Some (None, pp, e)
        | Some b \<Rightarrow> do {
            let a = next_ppb pp;
            let pp = pp\<lparr>ppbs := (ppbs pp)(a \<mapsto> b), next_ppb := a + 1, bufs := bufs pp @ [a]\<rparr>;
            pp \<leftarrow> pp_update_prev_ppb pp a (opts_lazy_pages e) flags;
            Some (Some a, pp, e) }) } }"

definition ppb_init :: "page_pipe_buf \<Rightarrow> nat \<Rightarrow> nat \<Rightarrow> u32 \<Rightarrow> nat \<Rightarrow> page_pipe_buf" where
  "ppb_init ppb pages segs flags iov =
     ppb\<lparr>pages_in := pages, nr_segs := segs, ppb_flags := flags, ppb_iov := iov\<rparr>"

definition page_pipe_grow ::
  "'w kernel \<Rightarrow> page_pipe \<Rightarrow> u32 \<Rightarrow> 'w env \<Rightarrow> (int \<times> page_pipe \<times> 'w env) option" where
  "page_pipe_grow k pp flags e = do {
     (got, pp, e) \<leftarrow>
       (case free_bufs pp of
          a # rest \<Rightarrow> Some (Inr a, pp\<lparr>free_bufs := rest, bufs := bufs pp @ [a]\<rparr>, e)
        | [] \<Rightarrow>
            if pp_flags pp AND PP_CHUNK_MODE \<noteq> 0 \<and> nr_pipes pp = NR_PIPES_PER_CHUNK
            then Some (Inl (- EAGAIN), pp, e)
            else do {
              (r, pp, e) \<leftarrow> ppb_alloc k pp flags e;
              Some (case r of None \<Rightarrow> Inl (- 1) | Some a \<Rightarrow> Inr a, pp, e) });
     (case got of
        Inl err \<Rightarrow> Some (err, pp, e)
      | Inr a \<Rightarrow> do {
          b \<leftarrow> ppbs pp a;
          Some (0, pp\<lparr>ppbs := (ppbs pp)(a \<mapsto> ppb_init b 0 0 flags (free_iov pp))\<rparr>, e) }) }"

text \<open>The zeroed descriptor of \<^verbatim>\<open>create_page_pipe\<close> before its first \<^verbatim>\<open>page_pipe_grow\<close>.\<close>

definition pp_zalloc :: "nat \<Rightarrow> iovec list \<Rightarrow> u32 \<Rightarrow> page_pipe" where
  "pp_zalloc segs iv flags =
     \<lparr>ppbs = Map.empty, next_ppb = 0, nr_pipes = 0, bufs = [], free_bufs = [],
      prev = replicate 4 None, nr_iovs = segs, free_iov = 0, iovs = iv,
      nr_holes = 0, free_hole = 0, holes = [], hole_flags = [], pp_flags = flags,
      break_iov = False\<rparr>"

text \<open>\<open>fresh\<close> is the array that \<^verbatim>\<open>xmalloc\<close> returns when the caller passes no \<open>iovs\<close>.\<close>

definition create_page_pipe ::
  "'w kernel \<Rightarrow> nat \<Rightarrow> iovec list option \<Rightarrow> iovec list \<Rightarrow> u32 \<Rightarrow> 'w env \<Rightarrow>
   (page_pipe option \<times> 'w env) option" where
  "create_page_pipe k segs iv fresh flags e =
     (let (ok, w) = k_malloc k (world e); e = e\<lparr>world := w\<rparr>
      in if \<not> ok then Some (None, e)
         else
           let (ok, a, flags, e) =
             (case iv of
                Some a \<Rightarrow> (True, a, flags, e)
              | None \<Rightarrow> let (ok, w) = k_malloc k (world e)
                        in (ok, fresh, flags OR PP_OWN_IOVS, e\<lparr>world := w\<rparr>))
           in if \<not> ok then Some (None, e)
              else do {
                (ret, pp, e) \<leftarrow> page_pipe_grow k (pp_zalloc segs a flags) 0 e;
                Some (if ret \<noteq> 0 then None else Some pp, e) })"

text \<open>Destroying a buffer closes its pipe when it starts at offset 0 and frees the block.\<close>

definition ppb_destroy :: "'w kernel \<Rightarrow> ppb_ptr \<Rightarrow> page_pipe \<Rightarrow> 'w env \<Rightarrow> (page_pipe \<times> 'w env) option" where
  "ppb_destroy k a pp e = do {
     b \<leftarrow> ppbs pp a;
     let e = (if pipe_off b = 0
              then e\<lparr>world := k_close k (p_write b) (k_close k (p_read b) (world e))\<rparr> else e);
     Some (pp\<lparr>ppbs := (ppbs pp)(a := None)\<rparr>, e) }"

fun ppb_destroy_list ::
  "'w kernel \<Rightarrow> ppb_ptr list \<Rightarrow> page_pipe \<Rightarrow> 'w env \<Rightarrow> (page_pipe \<times> 'w env) option" where
  "ppb_destroy_list k [] pp e = Some (pp, e)"
| "ppb_destroy_list k (a # as) pp e = do {
     (pp, e) \<leftarrow> ppb_destroy k a pp e;
     ppb_destroy_list k as pp e }"

definition destroy_page_pipe :: "'w kernel \<Rightarrow> page_pipe \<Rightarrow> 'w env \<Rightarrow> (page_pipe \<times> 'w env) option" where
  "destroy_page_pipe k pp e =
     (let pp = pp\<lparr>bufs := free_bufs pp @ bufs pp\<rparr> in ppb_destroy_list k (bufs pp) pp e)"

definition page_pipe_destroy_ppb ::
  "'w kernel \<Rightarrow> ppb_ptr \<Rightarrow> page_pipe \<Rightarrow> 'w env \<Rightarrow> (page_pipe \<times> 'w env) option" where
  "page_pipe_destroy_ppb k a pp e = ppb_destroy k a (pp\<lparr>bufs := remove1 a (bufs pp)\<rparr>) e"

definition page_pipe_reinit :: "'w kernel \<Rightarrow> page_pipe \<Rightarrow> 'w env \<Rightarrow> (page_pipe \<times> 'w env) option" where
  "page_pipe_reinit k pp e =
     (if pp_flags pp AND PP_CHUNK_MODE = 0 then None
      else do {
        let pp = pp\<lparr>free_bufs := rev (bufs pp) @ free_bufs pp, bufs := [], free_hole := 0\<rparr>;
        (ret, pp, e) \<leftarrow> page_pipe_grow k pp 0 e;
        if ret \<noteq> 0 then None else Some (pp, e) })"

definition try_add_page_to ::
  "'w kernel \<Rightarrow> page_pipe \<Rightarrow> ppb_ptr \<Rightarrow> u64 \<Rightarrow> u32 \<Rightarrow> 'w env \<Rightarrow> (int \<times> page_pipe \<times> 'w env) option" where
  "try_add_page_to k pp a addr flags e = do {
     b \<leftarrow> ppbs pp a;
     if ppb_flags b \<noteq> flags then Some (1, pp, e)
     else do {
       (ret, b, e) \<leftarrow> ppb_resize_pipe k b e;
       let pp = pp\<lparr>ppbs := (ppbs pp)(a \<mapsto> b)\<rparr>;
       if ret = 1 then Some (1, pp, e)
       else do {
         grown \<leftarrow>
           (if \<not> break_iov pp \<and> nr_segs b \<noteq> 0
            then do {
              iov \<leftarrow> arr_get (iovs pp) (int (ppb_iov b) + int (nr_segs b) - 1);
              Some (iov_grow_page iov addr) }
            else Some None);
         (pp, b) \<leftarrow>
           (case grown of
              Some iov \<Rightarrow> do {
                iv \<leftarrow> arr_set (iovs pp) (int (ppb_iov b) + int (nr_segs b) - 1) iov;
                Some (pp\<lparr>iovs := iv\<rparr>, b) }
            | None \<Rightarrow> do {
                iv \<leftarrow> arr_set (iovs pp) (int (ppb_iov b) + int (nr_segs b)) (iov_init addr);
                let b = b\<lparr>nr_segs := nr_segs b + 1\<rparr>;
                let pp = pp\<lparr>iovs := iv, free_iov := free_iov pp + 1\<rparr>;
                if free_iov pp > nr_iovs pp then None else Some (pp, b) });
         let b = b\<lparr>pages_in := pages_in b + 1\<rparr>;
         Some (0, pp\<lparr>break_iov := False, ppbs := (ppbs pp)(a \<mapsto> b)\<rparr>, e) } } }"

definition try_add_page ::
  "'w kernel \<Rightarrow> page_pipe \<Rightarrow> u64 \<Rightarrow> u32 \<Rightarrow> 'w env \<Rightarrow> (int \<times> page_pipe \<times> 'w env) option" where
  "try_add_page k pp addr flags e =
     (if bufs pp = [] then None else try_add_page_to k pp (last (bufs pp)) addr flags e)"

definition page_pipe_add_page ::
  "'w kernel \<Rightarrow> page_pipe \<Rightarrow> u64 \<Rightarrow> u32 \<Rightarrow> 'w env \<Rightarrow> (int \<times> page_pipe \<times> 'w env) option" where
  "page_pipe_add_page k pp addr flags e = do {
     (ret, pp, e) \<leftarrow> try_add_page k pp addr flags e;
     if ret \<le> 0 then Some (ret, pp, e)
     else do {
       (ret, pp, e) \<leftarrow> page_pipe_grow k pp flags e;
       if ret < 0 then Some (ret, pp, e)
       else do {
         (ret, pp, e) \<leftarrow> try_add_page k pp addr flags e;
         if ret > 0 then None else Some (ret, pp, e) } } }"

text \<open>\<^verbatim>\<open>xrealloc_safe\<close> of the two hole arrays; the new elements are not initialised.\<close>

definition hole_junk :: iovec where "hole_junk = \<lparr>iov_base = 0, iov_len = 0\<rparr>"

definition holes_grow :: "'w kernel \<Rightarrow> page_pipe \<Rightarrow> 'w env \<Rightarrow> int \<times> page_pipe \<times> 'w env" where
  "holes_grow k pp e =
     (let (ok, w) = k_malloc k (world e); e = e\<lparr>world := w\<rparr>
      in if \<not> ok then (- 1, pp, e)
         else
           let pp = pp\<lparr>holes := take (nr_holes pp) (holes pp) @ replicate PP_HOLES_BATCH hole_junk\<rparr>;
               (ok, w) = k_malloc k (world e); e = e\<lparr>world := w\<rparr>
           in if \<not> ok then (- 1, pp, e)
              else (0, pp\<lparr>hole_flags := take (nr_holes pp) (hole_flags pp) @ replicate PP_HOLES_BATCH 0,
                          nr_holes := nr_holes pp + PP_HOLES_BATCH\<rparr>, e))"

definition page_pipe_add_hole ::
  "'w kernel \<Rightarrow> page_pipe \<Rightarrow> u64 \<Rightarrow> u32 \<Rightarrow> 'w env \<Rightarrow> (int \<times> page_pipe \<times> 'w env) option" where
  "page_pipe_add_hole k pp addr flags e = do {
     let (ret, pp, e) = (if free_hole pp \<ge> nr_holes pp then holes_grow k pp e else (0, pp, e));
     if ret \<noteq> 0 then Some (- 1, pp, e)
     else do {
       grown \<leftarrow>
         (if free_hole pp \<noteq> 0 then do {
            fl \<leftarrow> arr_get (hole_flags pp) (int (free_hole pp) - 1);
            if fl = flags then do {
              h \<leftarrow> arr_get (holes pp) (int (free_hole pp) - 1);
              Some (iov_grow_page h addr) }
            else Some None }
          else Some None);
       (case grown of
          Some h \<Rightarrow> do {
            hs \<leftarrow> arr_set (holes pp) (int (free_hole pp) - 1) h;
            Some (0, pp\<lparr>holes := hs\<rparr>, e) }
        | None \<Rightarrow> do {
            hs \<leftarrow> arr_set (holes pp) (int (free_hole pp)) (iov_init addr);
            let pp = pp\<lparr>holes := hs, free_hole := free_hole pp + 1\<rparr>;
            fs \<leftarrow> arr_set (hole_flags pp) (int (free_hole pp) - 1) flags;
            Some (0, pp\<lparr>hole_flags := fs\<rparr>, e) }) } }"

text \<open>
  \<^verbatim>\<open>get_ppb\<close>: \<open>ppb_find_iov\<close> is the inner loop, which returns the index of the iov that
  holds \<open>addr\<close> and the length of data before it; \<open>find_ppb\<close> is the outer loop.
\<close>

fun ppb_find_iov :: "iovec list \<Rightarrow> nat \<Rightarrow> nat \<Rightarrow> u64 \<Rightarrow> u64 \<Rightarrow> (nat \<times> u64) option option" where
  "ppb_find_iov iv i 0 addr len = Some None"
| "ppb_find_iov iv i (Suc n) addr len = do {
     iov \<leftarrow> arr_get iv (int i);
     if addr < iov_base iov \<or> addr \<ge> iov_base iov + iov_len iov
     then ppb_find_iov iv (i + 1) n addr (len + iov_len iov)
     else Some (Some (i, len + (addr - iov_base iov))) }"

fun find_ppb :: "page_pipe \<Rightarrow> ppb_ptr list \<Rightarrow> u64 \<Rightarrow> (ppb_ptr \<times> nat \<times> u64) option option" where
  "find_ppb pp [] addr = Some None"
| "find_ppb pp (a # as) addr = do {
     b \<leftarrow> ppbs pp a;
     r \<leftarrow> ppb_find_iov (iovs pp) (ppb_iov b) (nr_segs b) addr 0;
     (case r of None \<Rightarrow> find_ppb pp as addr | Some (i, len) \<Rightarrow> Some (Some (a, i, len))) }"

definition get_ppb :: "page_pipe \<Rightarrow> u64 \<Rightarrow> ((ppb_ptr \<times> nat \<times> u64) option \<times> page_pipe) option" where
  "get_ppb pp addr = do {
     r \<leftarrow> find_ppb pp (bufs pp) addr;
     (case r of
        None \<Rightarrow> Some (None, pp)
      | Some (a, i, len) \<Rightarrow> Some (Some (a, i, len), pp\<lparr>bufs := a # remove1 a (bufs pp)\<rparr>)) }"

record pipe_read_dest =
  prd_read :: int
  prd_write :: int
  sink_fd :: int

text \<open>\<open>k_open_sink\<close> is the \<^verbatim>\<open>open("/dev/null", O_WRONLY)\<close>; the pipe is made before, and a later
  failure leaves it open.\<close>

definition pipe_read_dest_init ::
  "'w kernel \<Rightarrow> pipe_read_dest \<Rightarrow> 'w env \<Rightarrow> int \<times> pipe_read_dest \<times> 'w env" where
  "pipe_read_dest_init k prd e =
     (case k_pipe k (world e) of
        (None, w) \<Rightarrow> (- 1, prd, e\<lparr>world := w\<rparr>)
      | (Some (r, wr), w) \<Rightarrow>
          let prd = prd\<lparr>prd_read := r, prd_write := wr\<rparr>;
              (ret, w) = k_set_pipe_sz k r (PIPE_MAX_SIZE * PAGE_SIZE) w
          in if ret < 0 then (- 1, prd, e\<lparr>world := w\<rparr>)
             else let (fd, w) = k_open_sink k w; prd = prd\<lparr>sink_fd := fd\<rparr>
                  in if fd < 0 then (- 1, prd, e\<lparr>world := w\<rparr>)
                     else (0, prd, e\<lparr>world := snd (k_get_pipe_sz k r w)\<rparr>))"

definition page_pipe_read ::
  "'w kernel \<Rightarrow> page_pipe \<Rightarrow> pipe_read_dest \<Rightarrow> u64 \<Rightarrow> u64 \<Rightarrow> u32 \<Rightarrow> 'w env \<Rightarrow>
   (int \<times> u64 \<times> page_pipe \<times> 'w env) option" where
  "page_pipe_read k pp prd addr nr_pages flags e = do {
     (r, pp) \<leftarrow> get_ppb pp addr;
     (case r of
        None \<Rightarrow> Some (0, 0, pp, e)
      | Some (a, i, skip) \<Rightarrow> do {
          b \<leftarrow> ppbs pp a;
          iov \<leftarrow> arr_get (iovs pp) (int i);
          if ppb_flags b AND flags = 0 then Some (0, nr_pages, pp, e)
          else do {
            let len = min (iov_base iov + iov_len iov - addr) (nr_pages * 4096);
            let nr_pages = len div 4096;
            let skip = skip + of_nat (pipe_off b) * 4096;
            let len = len + skip;
            let (ret, w) = k_tee k (p_read b) (prd_write prd) (unat len) (world e);
            let e = e\<lparr>world := w\<rparr>;
            if ret \<noteq> int (unat len) then Some (- 1, nr_pages, pp, e)
            else do {
              let (ret, w) = k_splice k (prd_read prd) (sink_fd prd) (unat skip) (world e);
              let e = e\<lparr>world := w\<rparr>;
              if ret \<noteq> int (unat skip) then Some (- 1, nr_pages, pp, e)
              else Some (0, nr_pages, pp, e) } } }) }"

section \<open>Abstract view and invariant\<close>

definition iov_pages :: "iovec \<Rightarrow> u64 list" where
  "iov_pages iov = map (\<lambda>j. iov_base iov + of_nat (j * PAGE_SIZE)) [0..<unat (iov_len iov) div PAGE_SIZE]"

definition ppb_iovs :: "iovec list \<Rightarrow> page_pipe_buf \<Rightarrow> iovec list" where
  "ppb_iovs iv b = take (nr_segs b) (drop (ppb_iov b) iv)"

text \<open>The pages a buffer describes, each with the buffer's flags.\<close>

definition ppb_pages :: "iovec list \<Rightarrow> page_pipe_buf \<Rightarrow> (u64 \<times> u32) list" where
  "ppb_pages iv b = map (\<lambda>x. (x, ppb_flags b)) (concat (map iov_pages (ppb_iovs iv b)))"

definition bufs_pages ::
  "iovec list \<Rightarrow> (ppb_ptr \<Rightarrow> page_pipe_buf option) \<Rightarrow> ppb_ptr list \<Rightarrow> (u64 \<times> u32) list" where
  "bufs_pages iv h as = concat (map (\<lambda>a. case h a of None \<Rightarrow> [] | Some b \<Rightarrow> ppb_pages iv b) as)"

text \<open>The content of a page pipe: the pages of its buffers in order.\<close>

definition pp_pages :: "page_pipe \<Rightarrow> (u64 \<times> u32) list" where
  "pp_pages pp = bufs_pages (iovs pp) (ppbs pp) (bufs pp)"

definition iov_ok :: "iovec \<Rightarrow> bool" where
  "iov_ok iov \<longleftrightarrow> 0 < unat (iov_len iov) \<and> PAGE_SIZE dvd unat (iov_len iov) \<and>
     unat (iov_base iov) + unat (iov_len iov) < 2 ^ 64"

definition cap_ok :: "page_pipe_buf \<Rightarrow> bool" where
  "cap_ok b \<longleftrightarrow> pages_in b + pipe_off b \<le> pipe_size b \<and> 0 < pipe_size b \<and> pipe_size b < 2 ^ 31"

definition ppb_ok :: "iovec list \<Rightarrow> page_pipe_buf \<Rightarrow> bool" where
  "ppb_ok iv b \<longleftrightarrow> (\<forall>i \<in> set (ppb_iovs iv b). iov_ok i) \<and>
     length (ppb_pages iv b) = pages_in b \<and> cap_ok b"

text \<open>The windows of the buffers follow each other in the \<open>iovs\<close> array.\<close>

fun seg_chain :: "(ppb_ptr \<Rightarrow> page_pipe_buf option) \<Rightarrow> ppb_ptr list \<Rightarrow> nat \<Rightarrow> nat \<Rightarrow> bool" where
  "seg_chain h [] pos fin = (pos = fin)"
| "seg_chain h (a # as) pos fin =
     (case h a of None \<Rightarrow> False | Some b \<Rightarrow> ppb_iov b = pos \<and> seg_chain h as (pos + nr_segs b) fin)"

definition chunk_mode :: "page_pipe \<Rightarrow> bool" where
  "chunk_mode pp \<longleftrightarrow> pp_flags pp AND PP_CHUNK_MODE \<noteq> 0"

definition reusable :: "page_pipe_buf \<Rightarrow> bool" where
  "reusable b \<longleftrightarrow> pipe_off b = 0 \<and> 0 < pipe_size b \<and> pipe_size b < 2 ^ 31"

definition pp_inv :: "page_pipe \<Rightarrow> bool" where
  "pp_inv pp \<longleftrightarrow>
     distinct (bufs pp @ free_bufs pp) \<and>
     (\<forall>a \<in> set (bufs pp @ free_bufs pp). a < next_ppb pp) \<and>
     (\<forall>a \<in> set (bufs pp). \<exists>b. ppbs pp a = Some b \<and> ppb_ok (iovs pp) b) \<and>
     (\<exists>pos. seg_chain (ppbs pp) (bufs pp) pos (free_iov pp)) \<and>
     free_iov pp \<le> nr_iovs pp \<and> nr_iovs pp \<le> length (iovs pp) \<and>
     length (prev pp) = 4 \<and>
     (if chunk_mode pp
      then \<forall>a \<in> set (bufs pp @ free_bufs pp). \<exists>b. ppbs pp a = Some b \<and> reusable b
      else free_bufs pp = [] \<and> (\<forall>a. Some a \<in> set (prev pp) \<longrightarrow> a \<in> set (bufs pp)))"

definition pp_wf :: "page_pipe \<Rightarrow> bool" where
  "pp_wf pp \<longleftrightarrow> bufs pp \<noteq> [] \<and> pp_inv pp"

text \<open>
  What \<^verbatim>\<open>fcntl(2)\<close> documents of the pipe capacity calls: a successful \<^verbatim>\<open>F_SETPIPE_SZ\<close>
  returns the capacity set, which is at least the size asked for; a pipe holds at least
  one page; results are values of type \<^verbatim>\<open>int\<close>.
\<close>

definition kernel_ok :: "'w kernel \<Rightarrow> bool" where
  "kernel_ok k \<longleftrightarrow>
     (\<forall>fd n w. let r = fst (k_set_pipe_sz k fd n w) in r < 0 \<or> int n \<le> r \<and> r < 2 ^ 31) \<and>
     (\<forall>fd w. let r = fst (k_get_pipe_sz k fd w) in r < 0 \<or> int PAGE_SIZE \<le> r \<and> r < 2 ^ 31)"

section \<open>Pages of iovs and buffers\<close>

lemma iov_pages_init [simp]: "iov_pages (iov_init addr) = [addr]"
  by (simp add: iov_pages_def iov_init_def)

lemma iov_ok_init: "unat addr + 4096 < 2 ^ 64 \<Longrightarrow> iov_ok (iov_init addr)"
  by (simp add: iov_ok_def iov_init_def)

lemma iov_grow_page_ok:
  assumes "iov_ok iov" and "iov_grow_page iov addr = Some iov'" and "unat addr + 4096 < 2 ^ 64"
  shows "iov_ok iov'" and "iov_pages iov' = iov_pages iov @ [addr]"
proof -
  from assms(2) have addr: "addr = iov_base iov + iov_len iov"
    and iov': "iov' = iov\<lparr>iov_len := iov_len iov + 4096\<rparr>"
    by (auto simp: iov_grow_page_def split: if_splits)
  from assms(1) have ua: "unat addr = unat (iov_base iov) + unat (iov_len iov)"
    by (simp add: addr iov_ok_def unat_plus_eq)
  have len: "unat (iov_len iov + 4096) = unat (iov_len iov) + 4096"
    using ua assms(3) by (simp add: unat_plus_eq)
  obtain n where n: "unat (iov_len iov) = PAGE_SIZE * n" using assms(1) by (auto simp: iov_ok_def)
  show "iov_ok iov'" using assms(1,3) ua by (simp add: iov_ok_def iov' len)
  have "of_nat (n * PAGE_SIZE) = iov_len iov"
    by (metis n mult.commute of_nat_unat ucast_id)
  then have "iov_base iov + of_nat (n * PAGE_SIZE) = addr" by (simp add: addr)
  moreover have "iov_pages iov' = map (\<lambda>j. iov_base iov + of_nat (j * PAGE_SIZE)) [0..<Suc n]"
    and "iov_pages iov = map (\<lambda>j. iov_base iov + of_nat (j * PAGE_SIZE)) [0..<n]"
    by (simp_all add: iov_pages_def iov' len n del: upt_Suc)
  ultimately show "iov_pages iov' = iov_pages iov @ [addr]" by simp
qed

lemma seg_chain_append:
  "seg_chain h (as @ [a]) pos fin \<longleftrightarrow>
     (\<exists>b. h a = Some b \<and> seg_chain h as pos (ppb_iov b) \<and> fin = ppb_iov b + nr_segs b)"
  by (induction as arbitrary: pos) (auto split: option.splits)

lemma seg_chain_bound:
  "seg_chain h as pos fin \<Longrightarrow> pos \<le> fin \<and> (\<forall>a \<in> set as. \<forall>b. h a = Some b \<longrightarrow> ppb_iov b + nr_segs b \<le> fin)"
  by (induction as arbitrary: pos) (fastforce split: option.splits)+

lemma seg_chain_cong:
  "(\<And>a. a \<in> set as \<Longrightarrow> map_option (\<lambda>b. (ppb_iov b, nr_segs b)) (h' a) =
      map_option (\<lambda>b. (ppb_iov b, nr_segs b)) (h a)) \<Longrightarrow>
   seg_chain h' as pos fin = seg_chain h as pos fin"
proof (induction as arbitrary: pos)
  case (Cons a as)
  have "map_option (\<lambda>b. (ppb_iov b, nr_segs b)) (h' a) = map_option (\<lambda>b. (ppb_iov b, nr_segs b)) (h a)"
    by (rule Cons.prems) simp
  moreover have "seg_chain h' as pos fin = seg_chain h as pos fin" for pos
    by (rule Cons.IH) (rule Cons.prems, simp)
  ultimately show ?case by (cases "h a"; cases "h' a") auto
qed simp

lemma bufs_pages_append: "bufs_pages iv h (as @ bs) = bufs_pages iv h as @ bufs_pages iv h bs"
  by (simp add: bufs_pages_def)

lemma ppb_iovs_cong:
  assumes "take n iv' = take n iv" and "ppb_iov b + nr_segs b \<le> n"
  shows "ppb_iovs iv' b = ppb_iovs iv b"
proof -
  have "ppb_iovs x b = drop (ppb_iov b) (take (ppb_iov b + nr_segs b) (take n x))" for x
    using assms(2) by (simp add: ppb_iovs_def take_drop min_def add.commute)
  then show ?thesis using assms(1) by (simp only:)
qed

lemma ppb_ok_cong:
  "take n iv' = take n iv \<Longrightarrow> ppb_iov b + nr_segs b \<le> n \<Longrightarrow>
   ppb_pages iv' b = ppb_pages iv b \<and> ppb_ok iv' b = ppb_ok iv b"
  using ppb_iovs_cong [of n iv' iv b] by (simp add: ppb_ok_def ppb_pages_def)

lemma bufs_pages_cong:
  assumes "\<And>a. a \<in> set as \<Longrightarrow> h' a = h a"
    and "\<And>a b. a \<in> set as \<Longrightarrow> h a = Some b \<Longrightarrow> ppb_pages iv' b = ppb_pages iv b"
  shows "bufs_pages iv' h' as = bufs_pages iv h as"
  unfolding bufs_pages_def using assms by (intro arg_cong [where f = concat] map_cong) (auto split: option.splits)

section \<open>Resizing\<close>

lemma ppb_resize_to_ok:
  assumes "kernel_ok k" and "pipe_size b \<le> n"
  obtains e' where "ppb_resize_to k b n e = Some (- 1, b, e')" "opts_lazy_pages e' = opts_lazy_pages e"
  | m e' where "ppb_resize_to k b n e = Some (0, b\<lparr>pipe_size := m\<rparr>, e')" "n \<le> m" "m < 2 ^ 31"
      "opts_lazy_pages e' = opts_lazy_pages e"
proof -
  obtain r w where rw: "k_set_pipe_sz k (p_read b) (n * PAGE_SIZE) (world e) = (r, w)" by fastforce
  have r: "r < 0 \<or> int (n * PAGE_SIZE) \<le> r \<and> r < 2 ^ 31"
    using assms(1) rw unfolding kernel_ok_def Let_def by (metis fst_conv)
  show ?thesis
  proof (cases "r < 0")
    case True
    then show ?thesis using that(1) [of "e\<lparr>world := w\<rparr>"] rw by (simp add: ppb_resize_to_def)
  next
    case False
    with r have le: "int (n * PAGE_SIZE) \<le> r" and r31: "r < 2 ^ 31" by auto
    define m where "m = nat (r div 4096)"
    have m: "n \<le> m" "m < 2 ^ 31" using le r31 by (simp_all add: m_def)
    have "ppb_resize_to k b n e = Some (0, b\<lparr>pipe_size := m\<rparr>, e\<lparr>world := w\<rparr>)"
      using False assms(2) m rw by (simp add: ppb_resize_to_def m_def [symmetric])
    with m show ?thesis using that(2) by simp
  qed
qed

lemma ppb_resize_pipe_ok:
  assumes "kernel_ok k" and "cap_ok b"
  obtains r m e' where "ppb_resize_pipe k b e = Some (r, b\<lparr>pipe_size := m\<rparr>, e')"
    "r = 0 \<and> pages_in b + pipe_off b < m \<or> r = 1 \<and> pages_in b + pipe_off b = pipe_size b"
    "pipe_size b \<le> m" "m < 2 ^ 31" "opts_lazy_pages e' = opts_lazy_pages e"
proof -
  have b: "0 < pipe_size b" "pipe_size b < 2 ^ 31" "pages_in b + pipe_off b \<le> pipe_size b"
    using assms(2) by (simp_all add: cap_ok_def)
  then have dbl: "2 * pipe_size b mod 4294967296 = 2 * pipe_size b" by simp
  have self: "b\<lparr>pipe_size := pipe_size b\<rparr> = b" by simp
  show ?thesis
  proof (cases "pages_in b + pipe_off b < pipe_size b \<or>
      2 * pipe_size b > PIPE_MAX_SIZE \<and> \<not> pipe_size b < PIPE_MAX_SIZE")
    case True
    then show ?thesis
      using that [of "if pages_in b + pipe_off b < pipe_size b then 0 else 1" "pipe_size b" e] b
      by (auto simp: ppb_resize_pipe_def dbl Let_def self split: if_splits)
  next
    case False
    define n where "n = (if 2 * pipe_size b > PIPE_MAX_SIZE then PIPE_MAX_SIZE else 2 * pipe_size b)"
    have n: "pipe_size b < n" using False b by (auto simp: n_def)
    have full: "pages_in b + pipe_off b = pipe_size b" using False b by simp
    have eq: "ppb_resize_pipe k b e = do {
        (ret, b, e) \<leftarrow> ppb_resize_to k b n e; Some (if ret < 0 then 1 else 0, b, e) }"
      using False by (auto simp: ppb_resize_pipe_def dbl Let_def n_def)
    from assms(1) less_imp_le [OF n] show ?thesis
    proof (cases rule: ppb_resize_to_ok [where e = e])
      case (1 e')
      then show ?thesis using that [of 1 "pipe_size b" e'] b full by (simp add: eq self)
    next
      case (2 m e')
      then show ?thesis using that [of 0 m e'] b full n by (simp add: eq)
    qed
  qed
qed

lemma cap_ok_resize: "cap_ok b \<Longrightarrow> pipe_size b \<le> m \<Longrightarrow> m < 2 ^ 31 \<Longrightarrow> cap_ok (b\<lparr>pipe_size := m\<rparr>)"
  by (simp add: cap_ok_def)

lemma ppb_iovs_upd [simp]:
  "ppb_iovs iv (b\<lparr>pipe_size := m\<rparr>) = ppb_iovs iv b"
  "ppb_iovs iv (b\<lparr>pages_in := n\<rparr>) = ppb_iovs iv b"
  by (simp_all add: ppb_iovs_def)

lemma ppb_pages_upd [simp]:
  "ppb_pages iv (b\<lparr>pipe_size := m\<rparr>) = ppb_pages iv b"
  "ppb_pages iv (b\<lparr>pages_in := n\<rparr>) = ppb_pages iv b"
  by (simp_all add: ppb_pages_def)

lemma ppb_ok_resize:
  "ppb_ok iv b \<Longrightarrow> pipe_size b \<le> m \<Longrightarrow> m < 2 ^ 31 \<Longrightarrow> ppb_ok iv (b\<lparr>pipe_size := m\<rparr>)"
  by (simp add: ppb_ok_def cap_ok_resize)

section \<open>Changing the last buffer\<close>

lemma pp_wf_lastE:
  assumes "pp_wf pp"
  obtains as a b pos where "bufs pp = as @ [a]" "ppbs pp a = Some b" "a \<notin> set as"
    "ppb_ok (iovs pp) b" "free_iov pp = ppb_iov b + nr_segs b"
    "seg_chain (ppbs pp) as pos (ppb_iov b)"
    "\<And>x c. x \<in> set as \<Longrightarrow> ppbs pp x = Some c \<Longrightarrow> ppb_iov c + nr_segs c \<le> ppb_iov b"
proof -
  from assms obtain as a where as: "bufs pp = as @ [a]"
    unfolding pp_wf_def pp_inv_def by (metis append_butlast_last_id)
  from assms obtain pos where "seg_chain (ppbs pp) (as @ [a]) pos (free_iov pp)"
    by (auto simp: pp_wf_def pp_inv_def as)
  then obtain b where b: "ppbs pp a = Some b" "seg_chain (ppbs pp) as pos (ppb_iov b)"
    "free_iov pp = ppb_iov b + nr_segs b" by (auto simp: seg_chain_append)
  moreover have "ppb_ok (iovs pp) b" using assms b(1) by (auto simp: pp_wf_def pp_inv_def as)
  moreover have "a \<notin> set as" using assms by (auto simp: pp_wf_def pp_inv_def as)
  moreover note seg_chain_bound [OF b(2)]
  ultimately show ?thesis using that [OF as] by blast
qed

text \<open>An update of the last buffer, of the \<open>iovs\<close> from its window on and of \<open>free_iov\<close>.\<close>

definition upd_last ::
  "page_pipe \<Rightarrow> ppb_ptr \<Rightarrow> page_pipe_buf \<Rightarrow> iovec list \<Rightarrow> bool \<Rightarrow> page_pipe" where
  "upd_last pp a b iv br =
     pp\<lparr>ppbs := (ppbs pp)(a \<mapsto> b), iovs := iv, free_iov := ppb_iov b + nr_segs b, break_iov := br\<rparr>"

lemma upd_last_ok:
  assumes wf: "pp_wf pp" and as: "bufs pp = as @ [a]" and b: "ppbs pp a = Some b"
    and b': "ppb_iov b' = ppb_iov b" "ppb_flags b' = ppb_flags b" "pipe_off b' = pipe_off b"
      "pipe_size b \<le> pipe_size b'" "ppb_iov b' + nr_segs b' \<le> nr_iovs pp" "ppb_ok iv b'"
    and iv: "take (ppb_iov b) iv = take (ppb_iov b) (iovs pp)" "length iv = length (iovs pp)"
  shows "pp_wf (upd_last pp a b' iv br)"
    and "pp_pages (upd_last pp a b' iv br) = bufs_pages (iovs pp) (ppbs pp) as @ ppb_pages iv b'"
proof -
  let ?h = "(ppbs pp)(a \<mapsto> b')"
  from wf obtain pos where
    nota: "a \<notin> set as" and chain: "seg_chain (ppbs pp) as pos (ppb_iov b)"
    and bound: "\<And>x c. x \<in> set as \<Longrightarrow> ppbs pp x = Some c \<Longrightarrow> ppb_iov c + nr_segs c \<le> ppb_iov b"
    by (rule pp_wf_lastE) (use as b in auto)
  note cong = ppb_ok_cong [OF iv(1) bound]
  have chain': "seg_chain ?h as pos (ppb_iov b)"
    using chain nota by (subst seg_chain_cong [of as ?h "ppbs pp"]) auto
  show "pp_pages (upd_last pp a b' iv br) = bufs_pages (iovs pp) (ppbs pp) as @ ppb_pages iv b'"
  proof -
    have "bufs_pages iv ?h as = bufs_pages (iovs pp) (ppbs pp) as"
      by (rule bufs_pages_cong) (use cong nota in auto)
    moreover have "bufs_pages iv ?h [a] = ppb_pages iv b'" by (simp add: bufs_pages_def)
    ultimately show ?thesis by (simp add: pp_pages_def upd_last_def as bufs_pages_append)
  qed
  have "\<exists>c. ?h x = Some c \<and> ppb_ok iv c" if "x \<in> set (bufs pp)" for x
  proof (cases "x = a")
    case False
    then have "x \<in> set as" using that as by simp
    moreover from this obtain c where "ppbs pp x = Some c" "ppb_ok (iovs pp) c"
      using wf by (auto simp: pp_wf_def pp_inv_def as)
    ultimately show ?thesis using cong [of x c] False by simp
  qed (use b' in simp)
  moreover have "reusable b \<Longrightarrow> reusable b'"
    using b' by (simp add: reusable_def ppb_ok_def cap_ok_def)
  ultimately show "pp_wf (upd_last pp a b' iv br)"
    using wf b b' iv chain' nota
    unfolding pp_wf_def pp_inv_def upd_last_def chunk_mode_def
    by (auto simp: as seg_chain_append split: if_splits)
qed

lemma pp_pages_last:
  "bufs pp = as @ [a] \<Longrightarrow> ppbs pp a = Some b \<Longrightarrow>
   pp_pages pp = bufs_pages (iovs pp) (ppbs pp) as @ ppb_pages (iovs pp) b"
  by (simp add: pp_pages_def bufs_pages_append) (simp add: bufs_pages_def)

lemma ppb_iovs_snoc:
  assumes "ppb_iov b + nr_segs b < length iv"
  shows "ppb_iovs (iv[ppb_iov b + nr_segs b := x]) (b\<lparr>nr_segs := nr_segs b + 1\<rparr>) = ppb_iovs iv b @ [x]"
  using assms by (simp add: ppb_iovs_def take_Suc_conv_app_nth drop_update_swap take_update_cancel)

lemma ppb_iovs_last:
  assumes "0 < nr_segs b" and "ppb_iov b + nr_segs b \<le> length iv"
  shows "\<exists>xs. ppb_iovs iv b = xs @ [iv ! (ppb_iov b + nr_segs b - 1)] \<and>
     ppb_iovs (iv[ppb_iov b + nr_segs b - 1 := x]) b = xs @ [x]"
proof -
  obtain n where n: "nr_segs b = Suc n" using assms(1) by (cases "nr_segs b") auto
  show ?thesis using assms(2)
    by (simp add: ppb_iovs_def n take_Suc_conv_app_nth drop_update_swap take_update_cancel)
qed

text \<open>The two ways a page enters the last buffer: its last iov grows, or a new iov starts.\<close>

lemma add_grow:
  assumes wf: "pp_wf pp" and as: "bufs pp = as @ [a]" and b: "ppbs pp a = Some b"
    and m: "pipe_size b \<le> m" "m < 2 ^ 31" "pages_in b + pipe_off b < m"
    and seg: "0 < nr_segs b" "i = ppb_iov b + nr_segs b - 1" "free_iov pp = ppb_iov b + nr_segs b"
    and iov: "iov_grow_page (iovs pp ! i) addr = Some iov" and addr: "unat addr + 4096 < 2 ^ 64"
    and pp': "pp' = upd_last pp a (b\<lparr>pipe_size := m, pages_in := pages_in b + 1\<rparr>) ((iovs pp)[i := iov]) False"
  shows "pp_wf pp' \<and> pp_pages pp' = pp_pages pp @ [(addr, ppb_flags b)]"
proof -
  let ?b = "b\<lparr>pipe_size := m, pages_in := pages_in b + 1\<rparr>" and ?iv = "(iovs pp)[i := iov]"
  have ok: "ppb_ok (iovs pp) b" using wf b as by (auto simp: pp_wf_def pp_inv_def)
  have len: "free_iov pp \<le> length (iovs pp)" "free_iov pp \<le> nr_iovs pp"
    using wf by (auto simp: pp_wf_def pp_inv_def)
  obtain xs where xs: "ppb_iovs (iovs pp) b = xs @ [iovs pp ! i]" "ppb_iovs ?iv b = xs @ [iov]"
    using ppb_iovs_last [of b "iovs pp"] seg len by auto
  have "iov_ok (iovs pp ! i)" using ok xs by (simp add: ppb_ok_def)
  from iov_grow_page_ok [OF this iov addr]
  have pg: "ppb_pages ?iv ?b = ppb_pages (iovs pp) b @ [(addr, ppb_flags b)]" and "iov_ok iov"
    by (simp_all add: ppb_pages_def xs)
  then have "ppb_ok ?iv ?b"
    using ok m xs by (auto simp: ppb_ok_def cap_ok_def)
  then show ?thesis
    using upd_last_ok [OF wf as b, of ?b ?iv False] m seg len pg
    by (simp add: pp' pp_pages_last [OF as b])
qed

lemma add_new:
  assumes wf: "pp_wf pp" and as: "bufs pp = as @ [a]" and b: "ppbs pp a = Some b"
    and m: "pipe_size b \<le> m" "m < 2 ^ 31" "pages_in b + pipe_off b < m"
    and fin: "free_iov pp = ppb_iov b + nr_segs b" "free_iov pp < nr_iovs pp"
    and addr: "unat addr + 4096 < 2 ^ 64"
    and pp': "pp' = upd_last pp a (b\<lparr>pipe_size := m, nr_segs := nr_segs b + 1, pages_in := pages_in b + 1\<rparr>)
      ((iovs pp)[ppb_iov b + nr_segs b := iov_init addr]) False"
  shows "pp_wf pp' \<and> pp_pages pp' = pp_pages pp @ [(addr, ppb_flags b)]"
proof -
  let ?b = "b\<lparr>pipe_size := m, nr_segs := nr_segs b + 1, pages_in := pages_in b + 1\<rparr>"
    and ?iv = "(iovs pp)[ppb_iov b + nr_segs b := iov_init addr]"
  have ok: "ppb_ok (iovs pp) b" using wf b as by (auto simp: pp_wf_def pp_inv_def)
  have len: "ppb_iov b + nr_segs b < length (iovs pp)" using wf fin by (auto simp: pp_wf_def pp_inv_def)
  have xs: "ppb_iovs ?iv ?b = ppb_iovs (iovs pp) b @ [iov_init addr]"
    using ppb_iovs_snoc [OF len, of "iov_init addr"] by (simp add: ppb_iovs_def)
  then have pg: "ppb_pages ?iv ?b = ppb_pages (iovs pp) b @ [(addr, ppb_flags b)]"
    by (simp add: ppb_pages_def)
  then have "ppb_ok ?iv ?b"
    using ok m xs iov_ok_init [OF addr] by (auto simp: ppb_ok_def cap_ok_def)
  then show ?thesis
    using upd_last_ok [OF wf as b, of ?b ?iv False] m fin pg
    by (simp add: pp' pp_pages_last [OF as b])
qed

text \<open>Adding a page to the last buffer: the buffer of another type and the full buffer
  refuse it, otherwise the page ends the buffer's pages.\<close>

lemma try_add_page_ok:
  assumes k: "kernel_ok k" and wf: "pp_wf pp" and room: "free_iov pp < nr_iovs pp"
    and addr: "unat addr + 4096 < 2 ^ 64"
  obtains r pp' e' where "try_add_page k pp addr flags e = Some (r, pp', e')"
    "pp_wf pp'" "opts_lazy_pages e' = opts_lazy_pages e" "pp_flags pp' = pp_flags pp"
    "nr_iovs pp' = nr_iovs pp" "bufs pp' = bufs pp"
    "r = 0 \<and> pp_pages pp' = pp_pages pp @ [(addr, flags)] \<and> free_iov pp' \<le> free_iov pp + 1 \<or>
     r = 1 \<and> pp_pages pp' = pp_pages pp \<and> free_iov pp' = free_iov pp"
    "\<And>b. ppbs pp (last (bufs pp)) = Some b \<Longrightarrow> ppb_flags b = flags \<Longrightarrow>
       pages_in b + pipe_off b < pipe_size b \<Longrightarrow> r = 0"
proof -
  from wf obtain as a b pos where as: "bufs pp = as @ [a]" and b: "ppbs pp a = Some b"
    and ok: "ppb_ok (iovs pp) b" and fin: "free_iov pp = ppb_iov b + nr_segs b"
    by (rule pp_wf_lastE)
  have len: "nr_iovs pp \<le> length (iovs pp)" using wf by (simp add: pp_wf_def pp_inv_def)
  have tr: "try_add_page k pp addr flags e = try_add_page_to k pp a addr flags e"
    by (simp add: try_add_page_def as)
  show ?thesis
  proof (cases "ppb_flags b = flags")
    case False
    then show ?thesis using that [of 1 pp e] wf by (simp add: tr try_add_page_to_def b as)
  next
    case flags: True
    have "cap_ok b" using ok by (simp add: ppb_ok_def)
    with k obtain r m e' where res: "ppb_resize_pipe k b e = Some (r, b\<lparr>pipe_size := m\<rparr>, e')"
      and r: "r = 0 \<and> pages_in b + pipe_off b < m \<or> r = 1 \<and> pages_in b + pipe_off b = pipe_size b"
      and m: "pipe_size b \<le> m" "m < 2 ^ 31" and e': "opts_lazy_pages e' = opts_lazy_pages e"
      by (rule ppb_resize_pipe_ok [where e = e])
    let ?b = "b\<lparr>pipe_size := m\<rparr>"
    have okm: "ppb_ok (iovs pp) ?b" using ok m by (rule ppb_ok_resize)
    show ?thesis
    proof (cases "r = 1")
      case True
      let ?pp = "upd_last pp a ?b (iovs pp) (break_iov pp)"
      have pp: "?pp = pp\<lparr>ppbs := (ppbs pp)(a \<mapsto> ?b)\<rparr>" using fin by (simp add: upd_last_def)
      have "pp_wf ?pp" and "pp_pages ?pp = pp_pages pp"
        using upd_last_ok [OF wf as b, of ?b "iovs pp"] okm m room fin
        by (simp_all add: pp_pages_last [OF as b])
      moreover have "try_add_page k pp addr flags e = Some (1, ?pp, e')"
        by (simp add: tr try_add_page_to_def b flags res True pp)
      ultimately show ?thesis using that [of 1 ?pp e'] r True e' fin b
        by (auto simp: as upd_last_def)
    next
      case False
      with r have r0: "r = 0" and free: "pages_in b + pipe_off b < m" by auto
      define i where "i = ppb_iov b + nr_segs b - 1"
      have i: "arr_get (iovs pp) (int (ppb_iov b) + int (nr_segs b) - 1) = Some (iovs pp ! i)"
        "arr_set (iovs pp) (int (ppb_iov b) + int (nr_segs b) - 1) x = Some ((iovs pp)[i := x])"
        if "nr_segs b \<noteq> 0" for x
        using fin room len that
        by (auto simp: i_def arr_get_def arr_set_def nat_diff_distrib' nat_add_distrib)
      have j: "arr_set (iovs pp) (int (ppb_iov b) + int (nr_segs b)) x =
          Some ((iovs pp)[ppb_iov b + nr_segs b := x])" for x
        using fin room len by (simp add: arr_set_def nat_add_distrib)
      show ?thesis
      proof (cases "\<not> break_iov pp \<and> nr_segs b \<noteq> 0 \<and> iov_grow_page (iovs pp ! i) addr \<noteq> None")
        case True
        then obtain iov where iov: "iov_grow_page (iovs pp ! i) addr = Some iov" by auto
        let ?pp = "upd_last pp a (b\<lparr>pipe_size := m, pages_in := pages_in b + 1\<rparr>) ((iovs pp)[i := iov]) False"
        have "try_add_page k pp addr flags e = Some (0, ?pp, e')"
          using True iov fin
          by (simp add: tr try_add_page_to_def b flags res r0 i upd_last_def Let_def)
        moreover have "pp_wf ?pp \<and> pp_pages ?pp = pp_pages pp @ [(addr, flags)]"
          using add_grow [OF wf as b m free _ i_def fin iov addr refl] True flags by simp
        ultimately show ?thesis using that [of 0 ?pp e'] e' fin by (simp add: upd_last_def)
      next
        case False
        let ?pp = "upd_last pp a (b\<lparr>pipe_size := m, nr_segs := nr_segs b + 1, pages_in := pages_in b + 1\<rparr>)
          ((iovs pp)[ppb_iov b + nr_segs b := iov_init addr]) False"
        have "try_add_page k pp addr flags e = Some (0, ?pp, e')"
          using fin room False
          by (cases "\<not> break_iov pp \<and> nr_segs b \<noteq> 0")
             (auto simp: tr try_add_page_to_def b flags res r0 i j upd_last_def Let_def)
        moreover have "pp_wf ?pp \<and> pp_pages ?pp = pp_pages pp @ [(addr, flags)]"
          using add_new [OF wf as b m free fin room addr refl] flags by simp
        ultimately show ?thesis using that [of 0 ?pp e'] e' fin by (simp add: upd_last_def)
      qed
    qed
  qed
qed

section \<open>Growing\<close>

lemma ppb_type_less: "uint (ppb_type l flags) < 4"
  by (auto simp: ppb_type_def PPB_LAZY_def PPB_FORCE_RAW_def Let_def)

lemma ppb_new_pipe_ok:
  assumes "kernel_ok k"
  obtains e' where "ppb_new_pipe k e = (None, e')" "opts_lazy_pages e' = opts_lazy_pages e"
  | b e' where "ppb_new_pipe k e = (Some b, e')" "opts_lazy_pages e' = opts_lazy_pages e" "reusable b"
proof -
  obtain po w where pipe: "k_pipe k (world e) = (po, w)" by fastforce
  show ?thesis
  proof (cases po)
    case None
    then show ?thesis using that(1) pipe by (simp add: ppb_new_pipe_def)
  next
    case (Some rw)
    obtain r wr where rw: "rw = (r, wr)" by fastforce
    obtain sz w' where sz: "k_get_pipe_sz k r w = (sz, w')" by fastforce
    have "sz < 0 \<or> 4096 \<le> sz \<and> sz < 2 ^ 31"
      using assms sz unfolding kernel_ok_def Let_def by (metis fst_conv of_nat_numeral)
    then show ?thesis
    proof (cases "sz < 0")
      case True
      then show ?thesis using that(1) pipe Some rw sz by (simp add: ppb_new_pipe_def)
    next
      case False
      with \<open>sz < 0 \<or> _\<close> have "4096 \<le> sz" "sz < 2 ^ 31" by auto
      then have "0 < nat (sz div 4096)" "nat (sz div 4096) < 2 ^ 31" by simp_all
      then show ?thesis using that(2) pipe Some rw sz False
        by (simp add: ppb_new_pipe_def reusable_def)
    qed
  qed
qed

text \<open>A buffer appended to the list, fresh or from the free list, with an empty window.\<close>

definition append_buf :: "page_pipe \<Rightarrow> ppb_ptr \<Rightarrow> page_pipe_buf \<Rightarrow> page_pipe" where
  "append_buf pp a b = pp\<lparr>ppbs := (ppbs pp)(a \<mapsto> b), bufs := bufs pp @ [a]\<rparr>"

lemma ppb_pages_empty: "nr_segs b = 0 \<Longrightarrow> ppb_pages iv b = []"
  by (simp add: ppb_pages_def ppb_iovs_def)

lemma ppb_ok_empty: "nr_segs b = 0 \<Longrightarrow> pages_in b = 0 \<Longrightarrow> cap_ok b \<Longrightarrow> ppb_ok iv b"
  by (simp add: ppb_ok_def ppb_pages_empty ppb_iovs_def)

lemma pp_pages_append_buf:
  assumes "a \<notin> set (bufs pp)" and "nr_segs b = 0"
  shows "pp_pages (append_buf pp a b) = pp_pages pp"
proof -
  have "bufs_pages (iovs pp) ((ppbs pp)(a \<mapsto> b)) (bufs pp) = pp_pages pp"
    unfolding pp_pages_def by (rule bufs_pages_cong) (use assms in auto)
  then show ?thesis using assms(2)
    by (simp add: pp_pages_def append_buf_def bufs_pages_append)
       (simp add: bufs_pages_def ppb_pages_empty)
qed

lemma seg_chain_append_buf:
  assumes "seg_chain h as pos fin" and "a \<notin> set as" and "ppb_iov b = fin" and "nr_segs b = 0"
  shows "seg_chain (h(a \<mapsto> b)) (as @ [a]) pos fin"
proof -
  have "seg_chain (h(a \<mapsto> b)) as pos fin = seg_chain h as pos fin"
    by (rule seg_chain_cong) (use assms(2) in auto)
  then show ?thesis using assms by (simp add: seg_chain_append)
qed

definition grown_ok :: "page_pipe \<Rightarrow> page_pipe \<Rightarrow> bool" where
  "grown_ok pp pp' \<longleftrightarrow> pp_inv pp' \<and> pp_pages pp' = pp_pages pp \<and> pp_flags pp' = pp_flags pp \<and>
     nr_iovs pp' = nr_iovs pp \<and> free_iov pp' = free_iov pp"

lemma grown_ok_nr_pipes: "grown_ok pp pp1 \<Longrightarrow> grown_ok pp (pp1\<lparr>nr_pipes := n\<rparr>)"
proof -
  have "pp_inv (pp1\<lparr>nr_pipes := n\<rparr>) = pp_inv pp1" by (simp add: pp_inv_def chunk_mode_def)
  moreover have "pp_pages (pp1\<lparr>nr_pipes := n\<rparr>) = pp_pages pp1" by (simp add: pp_pages_def)
  ultimately show "grown_ok pp pp1 \<Longrightarrow> grown_ok pp (pp1\<lparr>nr_pipes := n\<rparr>)" by (simp add: grown_ok_def)
qed

text \<open>\<^verbatim>\<open>ppb_alloc\<close> may resize the previous buffer of the type before it shares its pipe.\<close>

lemma resize_prev_ok:
  assumes inv: "pp_inv pp" and a: "a \<in> set (bufs pp)" "ppbs pp a = Some b" and chunk: "\<not> chunk_mode pp"
    and m: "pipe_size b \<le> m" "m < 2 ^ 31"
  shows "grown_ok pp (pp\<lparr>ppbs := (ppbs pp)(a \<mapsto> b\<lparr>pipe_size := m\<rparr>)\<rparr>)"
proof -
  let ?h = "(ppbs pp)(a \<mapsto> b\<lparr>pipe_size := m\<rparr>)"
  have ok: "ppb_ok (iovs pp) (b\<lparr>pipe_size := m\<rparr>)"
    using inv a m by (auto simp: pp_inv_def intro!: ppb_ok_resize)
  have "bufs_pages (iovs pp) ?h (bufs pp) = bufs_pages (iovs pp) (ppbs pp) (bufs pp)"
    unfolding bufs_pages_def using a(2)
    by (intro arg_cong [where f = concat] map_cong refl) (auto split: option.splits)
  moreover have "seg_chain ?h as pos fin = seg_chain (ppbs pp) as pos fin" for as pos fin
    by (rule seg_chain_cong) (use a(2) in auto)
  ultimately show ?thesis
    using inv ok chunk unfolding grown_ok_def pp_inv_def pp_pages_def chunk_mode_def by auto
qed

lemma attach_ok:
  assumes inv: "pp_inv pp" and a: "a \<notin> set (bufs pp)" "a < n" "next_ppb pp \<le> n"
    and fb: "distinct fb" "a \<notin> set fb" "set fb \<subseteq> set (free_bufs pp)"
    and ps: "length ps = 4"
      "\<not> chunk_mode pp \<Longrightarrow> \<forall>x. Some x \<in> set ps \<longrightarrow> x \<in> insert a (set (bufs pp))"
    and b: "nr_segs b = 0" "pages_in b = 0" "ppb_iov b = free_iov pp" "cap_ok b"
      "chunk_mode pp \<Longrightarrow> reusable b"
    and pp': "pp' = pp\<lparr>ppbs := (ppbs pp)(a \<mapsto> b), next_ppb := n, nr_pipes := np,
      bufs := bufs pp @ [a], free_bufs := fb, prev := ps\<rparr>"
  shows "grown_ok pp pp'"
proof -
  from inv obtain pos where "seg_chain (ppbs pp) (bufs pp) pos (free_iov pp)"
    by (auto simp: pp_inv_def)
  then have chain: "seg_chain ((ppbs pp)(a \<mapsto> b)) (bufs pp @ [a]) pos (free_iov pp)"
    by (rule seg_chain_append_buf) (use a b in auto)
  have "pp_pages pp' = pp_pages pp"
    using pp_pages_append_buf [of a pp b] a(1) b(1)
    by (simp add: pp' append_buf_def pp_pages_def)
  moreover have "ppb_ok (iovs pp) b" using b by (simp add: ppb_ok_empty)
  moreover have "\<forall>x \<in> set (bufs pp) \<union> set fb. x < n"
  proof
    fix x assume "x \<in> set (bufs pp) \<union> set fb"
    then have "x < next_ppb pp" using inv fb(3) by (auto simp: pp_inv_def)
    then show "x < n" using a(3) by simp
  qed
  ultimately show ?thesis
    using inv a fb ps b chain unfolding grown_ok_def pp_inv_def chunk_mode_def pp'
    by (auto split: if_splits)
qed

lemma pp_prev_ppb_ok:
  assumes "pp_inv pp"
  obtains "pp_prev_ppb pp l flags = Some None"
  | a where "pp_prev_ppb pp l flags = Some (Some a)" "\<not> chunk_mode pp" "a \<in> set (bufs pp)"
proof (cases "chunk_mode pp \<or> bufs pp = []")
  case True
  then show ?thesis using that(1) by (auto simp: pp_prev_ppb_def chunk_mode_def)
next
  case False
  let ?i = "nat (uint (ppb_type l flags))"
  have len: "length (prev pp) = 4" using assms by (simp add: pp_inv_def)
  have i: "?i < length (prev pp)" using ppb_type_less [of l flags] len by linarith
  have get: "pp_prev_ppb pp l flags = Some (prev pp ! ?i)"
    using False ppb_type_less [of l flags]
    by (simp add: pp_prev_ppb_def chunk_mode_def arr_get_def len)
  show ?thesis
  proof (cases "prev pp ! ?i")
    case None
    with get that(1) show ?thesis by simp
  next
    case (Some a)
    then have "Some a \<in> set (prev pp)" using nth_mem [OF i] by simp
    with assms False have "a \<in> set (bufs pp)" by (auto simp: pp_inv_def)
    with get Some False that(2) show ?thesis by simp
  qed
qed

lemma pp_update_prev_ok:
  assumes "length (prev pp) = 4"
  obtains ps where "pp_update_prev_ppb pp a l flags = Some (pp\<lparr>prev := ps\<rparr>)" "length ps = 4"
    "\<And>x. Some x \<in> set ps \<Longrightarrow> x = a \<or> Some x \<in> set (prev pp)"
proof -
  let ?ps = "(prev pp)[nat (uint (ppb_type l flags)) := Some a]"
  have "pp_update_prev_ppb pp a l flags = Some (pp\<lparr>prev := ?ps\<rparr>)"
    using ppb_type_less [of l flags] by (simp add: pp_update_prev_ppb_def arr_set_def assms)
  moreover have "x = a \<or> Some x \<in> set (prev pp)" if "Some x \<in> set ?ps" for x
    using that set_update_subset_insert [of "prev pp" _ "Some a"] by blast
  ultimately show ?thesis using that [of ?ps] assms by simp
qed

lemma ppb_new_source_ok:
  assumes "kernel_ok k"
  shows "\<exists>new np e'. (case ppb_new_pipe k e of
       (None, e) \<Rightarrow> (None, pp, e)
     | (Some b, e) \<Rightarrow> (Some b, pp\<lparr>nr_pipes := nr_pipes pp + 1\<rparr>, e)) = (new, pp\<lparr>nr_pipes := np\<rparr>, e') \<and>
     opts_lazy_pages e' = opts_lazy_pages e \<and> (\<forall>b. new = Some b \<longrightarrow> reusable b)"
  using assms
proof (cases rule: ppb_new_pipe_ok [where e = e])
  case (1 e')
  then show ?thesis by (intro exI [of _ None] exI [of _ "nr_pipes pp"]) simp
next
  case (2 b e')
  then show ?thesis by auto
qed

lemma ppb_source_ok:
  assumes k: "kernel_ok k" and inv: "pp_inv pp"
    and prv: "prv = None \<or> (\<exists>a. prv = Some a \<and> \<not> chunk_mode pp \<and> a \<in> set (bufs pp))"
  obtains new pp' e' where "ppb_source k prv pp e = Some (new, pp', e')" "grown_ok pp pp'"
    "bufs pp' = bufs pp" "free_bufs pp' = free_bufs pp" "prev pp' = prev pp" "next_ppb pp' = next_ppb pp"
    "opts_lazy_pages e' = opts_lazy_pages e"
    "\<And>b. new = Some b \<Longrightarrow> pipe_off b < pipe_size b \<and> pipe_size b < 2 ^ 31 \<and> (chunk_mode pp \<longrightarrow> pipe_off b = 0)"
proof -
  note np = grown_ok_nr_pipes
  have self: "grown_ok pp pp" using inv by (simp add: grown_ok_def)
  show ?thesis
  proof (cases prv)
    case None
    obtain new n e' where "(case ppb_new_pipe k e of (None, e) \<Rightarrow> (None, pp, e)
        | (Some b, e) \<Rightarrow> (Some b, pp\<lparr>nr_pipes := nr_pipes pp + 1\<rparr>, e)) = (new, pp\<lparr>nr_pipes := n\<rparr>, e')"
        "opts_lazy_pages e' = opts_lazy_pages e" "\<forall>b. new = Some b \<longrightarrow> reusable b"
      using ppb_new_source_ok [OF k, where e = e and pp = pp] by blast
    with None show ?thesis
      by (intro that [of new "pp\<lparr>nr_pipes := n\<rparr>" e'])
         (auto simp: ppb_source_def np self reusable_def)
  next
    case (Some a)
    with prv have a: "\<not> chunk_mode pp" "a \<in> set (bufs pp)" by auto
    with inv obtain b where b: "ppbs pp a = Some b" "cap_ok b" by (auto simp: pp_inv_def ppb_ok_def)
    from k b(2) obtain r m e1 where res: "ppb_resize_pipe k b e = Some (r, b\<lparr>pipe_size := m\<rparr>, e1)"
      and r: "r = 0 \<and> pages_in b + pipe_off b < m \<or> r = 1 \<and> pages_in b + pipe_off b = pipe_size b"
      and m: "pipe_size b \<le> m" "m < 2 ^ 31" and e1: "opts_lazy_pages e1 = opts_lazy_pages e"
      by (rule ppb_resize_pipe_ok [where e = e])
    let ?pp = "pp\<lparr>ppbs := (ppbs pp)(a \<mapsto> b\<lparr>pipe_size := m\<rparr>)\<rparr>"
    have g: "grown_ok pp ?pp" by (rule resize_prev_ok [OF inv a(2) b(1) a(1) m])
    show ?thesis
    proof (cases "r = 0")
      case True
      then show ?thesis using Some b res e1 g r m a(1)
        by (intro that [of "Some (ppb_share (b\<lparr>pipe_size := m\<rparr>))" ?pp e1])
           (auto simp: ppb_source_def ppb_share_def)
    next
      case False
      obtain new n e' where "(case ppb_new_pipe k e1 of (None, e) \<Rightarrow> (None, ?pp, e)
          | (Some b, e) \<Rightarrow> (Some b, ?pp\<lparr>nr_pipes := nr_pipes ?pp + 1\<rparr>, e)) = (new, ?pp\<lparr>nr_pipes := n\<rparr>, e')"
          "opts_lazy_pages e' = opts_lazy_pages e1" "\<forall>b. new = Some b \<longrightarrow> reusable b"
        using ppb_new_source_ok [OF k, where e = e1 and pp = ?pp] by blast
      with Some b res e1 g False show ?thesis
        by (intro that [of new "?pp\<lparr>nr_pipes := n\<rparr>" e'])
           (auto simp: ppb_source_def np reusable_def)
    qed
  qed
qed

definition last_has_room :: "page_pipe \<Rightarrow> u32 \<Rightarrow> bool" where
  "last_has_room pp flags \<longleftrightarrow> bufs pp \<noteq> [] \<and>
     (\<exists>b. ppbs pp (last (bufs pp)) = Some b \<and> ppb_flags b = flags \<and> pages_in b + pipe_off b < pipe_size b)"

lemma grown_ok_trans: "grown_ok pp pp1 \<Longrightarrow> grown_ok pp1 pp2 \<Longrightarrow> grown_ok pp pp2"
  by (simp add: grown_ok_def)

lemma page_pipe_grow_free:
  assumes inv: "pp_inv pp" and fb: "free_bufs pp = a # rest"
  obtains pp' where "page_pipe_grow k pp flags e = Some (0, pp', e)" "grown_ok pp pp'"
    "last_has_room pp' flags"
proof -
  have chunk: "chunk_mode pp" using inv fb by (auto simp: pp_inv_def split: if_splits)
  then obtain b where b: "ppbs pp a = Some b" "reusable b" using inv fb by (auto simp: pp_inv_def)
  let ?b = "ppb_init b 0 0 flags (free_iov pp)"
  let ?pp = "pp\<lparr>ppbs := (ppbs pp)(a \<mapsto> ?b), bufs := bufs pp @ [a], free_bufs := rest\<rparr>"
  have "grown_ok pp ?pp"
    by (rule attach_ok [OF inv, where a = a and n = "next_ppb pp" and fb = rest and ps = "prev pp"
          and b = ?b and np = "nr_pipes pp"])
       (use inv fb b chunk in \<open>auto simp: pp_inv_def ppb_init_def cap_ok_def reusable_def\<close>)
  moreover have "last_has_room ?pp flags"
    using b by (simp add: last_has_room_def ppb_init_def reusable_def)
  moreover have "page_pipe_grow k pp flags e = Some (0, ?pp, e)"
    using fb b by (simp add: page_pipe_grow_def)
  ultimately show ?thesis using that by blast
qed

lemma page_pipe_grow_alloc:
  assumes k: "kernel_ok k" and inv: "pp_inv pp" and fb: "free_bufs pp = []"
  obtains r pp' e' where "page_pipe_grow k pp flags e = Some (r, pp', e')" "grown_ok pp pp'"
    "opts_lazy_pages e' = opts_lazy_pages e"
    "r = 0 \<and> last_has_room pp' flags \<or> (r = - 1 \<or> r = - EAGAIN) \<and> bufs pp' = bufs pp"
proof -
  have self: "grown_ok pp pp" using inv by (simp add: grown_ok_def)
  obtain ok w where mal: "k_malloc k (world e) = (ok, w)" by fastforce
  let ?e = "e\<lparr>world := w, cnt_page_pipe_bufs := cnt_page_pipe_bufs e + 1\<rparr>"
  obtain prv where prv: "pp_prev_ppb pp (opts_lazy_pages e) flags = Some prv"
      "prv = None \<or> (\<exists>a. prv = Some a \<and> \<not> chunk_mode pp \<and> a \<in> set (bufs pp))"
    using inv by (rule pp_prev_ppb_ok [where l = "opts_lazy_pages e" and flags = flags]) auto
  let ?lim = "pp_flags pp AND PP_CHUNK_MODE \<noteq> 0 \<and> nr_pipes pp = NR_PIPES_PER_CHUNK"
  consider ?lim | "\<not> ?lim" "\<not> ok" | "\<not> ?lim" ok by blast
  then show ?thesis
  proof cases
    case 1
    then show ?thesis using that [of "- EAGAIN" pp e] self fb by (simp add: page_pipe_grow_def)
  next
    case 2
    have "page_pipe_grow k pp flags e = Some (- 1, pp, e\<lparr>world := w\<rparr>)"
      unfolding page_pipe_grow_def fb list.case if_not_P [OF 2(1)]
      using 2(2) mal prv(1) by (simp add: ppb_alloc_def)
    then show ?thesis using that [of "- 1" pp "e\<lparr>world := w\<rparr>"] self by simp
  next
    case False: 3
    from k inv prv(2) obtain new pp1 e1 where src: "ppb_source k prv pp ?e = Some (new, pp1, e1)"
      and g: "grown_ok pp pp1" and same: "bufs pp1 = bufs pp" "free_bufs pp1 = free_bufs pp"
        "prev pp1 = prev pp" "next_ppb pp1 = next_ppb pp"
      and e1: "opts_lazy_pages e1 = opts_lazy_pages ?e"
      and new: "\<And>b. new = Some b \<Longrightarrow> pipe_off b < pipe_size b \<and> pipe_size b < 2 ^ 31 \<and>
          (chunk_mode pp \<longrightarrow> pipe_off b = 0)"
      by (rule ppb_source_ok [where e = ?e]) blast
    have inv1: "pp_inv pp1" and chunk1: "chunk_mode pp1 = chunk_mode pp" and fi: "free_iov pp1 = free_iov pp"
      using g by (simp_all add: grown_ok_def chunk_mode_def)
    show ?thesis
    proof (cases new)
      case None
      have "page_pipe_grow k pp flags e = Some (- 1, pp1, e1)"
        unfolding page_pipe_grow_def fb list.case if_not_P [OF False(1)]
        using False(2) mal prv(1) src None by (simp add: ppb_alloc_def)
      then show ?thesis using that [of "- 1" pp1 e1] g same e1 by simp
    next
      case (Some b)
      let ?a = "next_ppb pp"
      let ?pp2 = "pp1\<lparr>ppbs := (ppbs pp1)(?a \<mapsto> b), next_ppb := ?a + 1, bufs := bufs pp1 @ [?a]\<rparr>"
      have "length (prev ?pp2) = 4" using inv1 by (simp add: pp_inv_def)
      then obtain ps where ps: "pp_update_prev_ppb ?pp2 ?a (opts_lazy_pages e1) flags = Some (?pp2\<lparr>prev := ps\<rparr>)"
        "length ps = 4" "\<And>x. Some x \<in> set ps \<Longrightarrow> x = ?a \<or> Some x \<in> set (prev ?pp2)"
        by (rule pp_update_prev_ok [where a = ?a and l = "opts_lazy_pages e1" and flags = flags]) blast
      let ?b = "ppb_init b 0 0 flags (free_iov pp1)"
      let ?pp3 = "pp1\<lparr>ppbs := (ppbs pp1)(?a \<mapsto> ?b), next_ppb := ?a + 1, nr_pipes := nr_pipes pp1,
          bufs := bufs pp1 @ [?a], free_bufs := free_bufs pp1, prev := ps\<rparr>"
      have "grown_ok pp1 ?pp3"
        by (rule attach_ok [OF inv1, where a = ?a and n = "?a + 1" and fb = "free_bufs pp1" and ps = ps
              and b = ?b and np = "nr_pipes pp1"])
           (use inv1 ps(2,3) new [OF Some] fb same chunk1 in
              \<open>auto simp: pp_inv_def ppb_init_def cap_ok_def reusable_def\<close>)
      with g have "grown_ok pp ?pp3" by (rule grown_ok_trans)
      moreover have "last_has_room ?pp3 flags"
        using new [OF Some] by (simp add: last_has_room_def ppb_init_def)
      moreover have "page_pipe_grow k pp flags e = Some (0, ?pp3, e1)"
        unfolding page_pipe_grow_def fb list.case if_not_P [OF False(1)]
        using False(2) fb mal prv(1) src Some same ps(1) by (simp add: ppb_alloc_def Let_def)
      ultimately show ?thesis using that [of 0 ?pp3 e1] e1 by simp
    qed
  qed
qed

lemma page_pipe_grow_ok:
  assumes k: "kernel_ok k" and inv: "pp_inv pp"
  obtains r pp' e' where "page_pipe_grow k pp flags e = Some (r, pp', e')" "grown_ok pp pp'"
    "opts_lazy_pages e' = opts_lazy_pages e"
    "r = 0 \<and> last_has_room pp' flags \<or> (r = - 1 \<or> r = - EAGAIN) \<and> bufs pp' = bufs pp"
proof (cases "free_bufs pp")
  case Nil
  with k inv show ?thesis by (rule page_pipe_grow_alloc [where flags = flags and e = e]) (rule that)
next
  case (Cons a rest)
  with inv obtain pp' where "page_pipe_grow k pp flags e = Some (0, pp', e)" "grown_ok pp pp'"
    "last_has_room pp' flags" by (rule page_pipe_grow_free)
  then show ?thesis using that [of 0 pp' e] by simp
qed

section \<open>Adding pages\<close>

lemma page_pipe_add_page_ok:
  assumes k: "kernel_ok k" and wf: "pp_wf pp" and room: "free_iov pp < nr_iovs pp"
    and addr: "unat addr + 4096 < 2 ^ 64"
  shows "\<exists>r pp' e'. page_pipe_add_page k pp addr flags e = Some (r, pp', e') \<and>
    pp_wf pp' \<and> opts_lazy_pages e' = opts_lazy_pages e \<and> pp_flags pp' = pp_flags pp \<and>
    nr_iovs pp' = nr_iovs pp \<and> free_iov pp' \<le> free_iov pp + 1 \<and>
    (r = 0 \<and> pp_pages pp' = pp_pages pp @ [(addr, flags)] \<or>
     (r = - 1 \<or> r = - EAGAIN) \<and> pp_pages pp' = pp_pages pp)"
proof -
  from k wf room addr obtain r pp1 e1 where t1: "try_add_page k pp addr flags e = Some (r, pp1, e1)"
    and wf1: "pp_wf pp1" and s1: "opts_lazy_pages e1 = opts_lazy_pages e" "pp_flags pp1 = pp_flags pp"
      "nr_iovs pp1 = nr_iovs pp"
    and r: "r = 0 \<and> pp_pages pp1 = pp_pages pp @ [(addr, flags)] \<and> free_iov pp1 \<le> free_iov pp + 1 \<or>
      r = 1 \<and> pp_pages pp1 = pp_pages pp \<and> free_iov pp1 = free_iov pp"
    by (rule try_add_page_ok [where flags = flags and e = e])
  show ?thesis
  proof (cases "r = 0")
    case True
    with t1 wf1 s1 r show ?thesis by (simp add: page_pipe_add_page_def)
  next
    case False
    with r have r1: "r = 1" "pp_pages pp1 = pp_pages pp" "free_iov pp1 = free_iov pp" by auto
    have "pp_inv pp1" using wf1 by (simp add: pp_wf_def)
    with k obtain q pp2 e2 where g: "page_pipe_grow k pp1 flags e1 = Some (q, pp2, e2)"
      and ok: "grown_ok pp1 pp2" and s2: "opts_lazy_pages e2 = opts_lazy_pages e1"
      and q: "q = 0 \<and> last_has_room pp2 flags \<or> (q = - 1 \<or> q = - EAGAIN) \<and> bufs pp2 = bufs pp1"
      by (rule page_pipe_grow_ok [where flags = flags and e = e1])
    have wf2: "pp_wf pp2" using q ok wf1 by (auto simp: pp_wf_def grown_ok_def last_has_room_def)
    show ?thesis
    proof (cases "q = 0")
      case True
      with q have lr: "last_has_room pp2 flags" by (auto simp: EAGAIN_def)
      have "free_iov pp2 < nr_iovs pp2" using ok room s1 r1 by (simp add: grown_ok_def)
      with k wf2 obtain s pp3 e3 where t3: "try_add_page k pp2 addr flags e2 = Some (s, pp3, e3)"
        and wf3: "pp_wf pp3" and s3: "opts_lazy_pages e3 = opts_lazy_pages e2" "pp_flags pp3 = pp_flags pp2"
          "nr_iovs pp3 = nr_iovs pp2"
        and s: "s = 0 \<and> pp_pages pp3 = pp_pages pp2 @ [(addr, flags)] \<and> free_iov pp3 \<le> free_iov pp2 + 1 \<or>
          s = 1 \<and> pp_pages pp3 = pp_pages pp2 \<and> free_iov pp3 = free_iov pp2"
        and s0: "\<And>b. ppbs pp2 (last (bufs pp2)) = Some b \<Longrightarrow> ppb_flags b = flags \<Longrightarrow>
          pages_in b + pipe_off b < pipe_size b \<Longrightarrow> s = 0"
        using addr by (rule try_add_page_ok [where flags = flags and e = e2]) blast
      have "s = 0" using lr s0 by (auto simp: last_has_room_def)
      with t1 r1 g True t3 wf3 s s1 s2 s3 ok show ?thesis
        by (simp add: page_pipe_add_page_def grown_ok_def)
    next
      case False
      with q have "q = - 1 \<or> q = - EAGAIN" by auto
      with t1 r1 g wf2 s1 s2 ok show ?thesis
        by (auto simp: page_pipe_add_page_def grown_ok_def EAGAIN_def)
    qed
  qed
qed

section \<open>Creating, recycling and destroying\<close>

lemma pp_inv_zalloc: "segs \<le> length iv \<Longrightarrow> pp_inv (pp_zalloc segs iv flags)"
  by (simp add: pp_inv_def pp_zalloc_def chunk_mode_def)

lemma pp_zalloc_simps [simp]:
  "pp_pages (pp_zalloc segs iv flags) = []" "nr_iovs (pp_zalloc segs iv flags) = segs"
  "free_iov (pp_zalloc segs iv flags) = 0"
  by (simp_all add: pp_pages_def bufs_pages_def pp_zalloc_def)

lemma pp_wf_grown: "grown_ok pp pp' \<Longrightarrow> last_has_room pp' flags \<Longrightarrow> pp_wf pp'"
  by (simp add: pp_wf_def grown_ok_def last_has_room_def)

lemma create_page_pipe_ok:
  assumes k: "kernel_ok k" and len: "segs \<le> length (case iv of Some a \<Rightarrow> a | None \<Rightarrow> fresh)"
  shows "\<exists>r e'. create_page_pipe k segs iv fresh flags e = Some (r, e') \<and>
    (\<forall>pp. r = Some pp \<longrightarrow> pp_wf pp \<and> pp_pages pp = [] \<and> nr_iovs pp = segs \<and> free_iov pp = 0)"
proof -
  have grow: "\<exists>r pp' e'. page_pipe_grow k (pp_zalloc segs a fl) 0 e = Some (r, pp', e') \<and>
      (r = 0 \<longrightarrow> pp_wf pp' \<and> pp_pages pp' = [] \<and> nr_iovs pp' = segs \<and> free_iov pp' = 0)"
    if "segs \<le> length a" for a fl and e :: "'a env"
  proof -
    from k pp_inv_zalloc [OF that] obtain r pp' e'
      where g: "page_pipe_grow k (pp_zalloc segs a fl) 0 e = Some (r, pp', e')"
        and ok: "grown_ok (pp_zalloc segs a fl) pp'"
        and r: "r = 0 \<and> last_has_room pp' 0 \<or> (r = - 1 \<or> r = - EAGAIN) \<and> bufs pp' = bufs (pp_zalloc segs a fl)"
      by (rule page_pipe_grow_ok [where flags = 0 and e = e])
    have "r = 0 \<Longrightarrow> pp_wf pp'" using r pp_wf_grown [OF ok] by (auto simp: EAGAIN_def)
    with ok show ?thesis unfolding g by (simp add: grown_ok_def)
  qed
  obtain ok1 w1 where m1: "k_malloc k (world e) = (ok1, w1)" by fastforce
  obtain ok2 w2 where m2: "k_malloc k w1 = (ok2, w2)" by fastforce
  show ?thesis
  proof (cases iv)
    case None
    obtain r pp' e' where "page_pipe_grow k (pp_zalloc segs fresh (flags OR PP_OWN_IOVS)) 0 (e\<lparr>world := w2\<rparr>) =
        Some (r, pp', e') \<and> (r = 0 \<longrightarrow> pp_wf pp' \<and> pp_pages pp' = [] \<and> nr_iovs pp' = segs \<and> free_iov pp' = 0)"
      using grow [of fresh "flags OR PP_OWN_IOVS" "e\<lparr>world := w2\<rparr>"] len None by auto
    then show ?thesis using None m1 m2
      by (cases ok1; cases ok2) (auto simp: create_page_pipe_def Let_def)
  next
    case (Some a)
    obtain r pp' e' where "page_pipe_grow k (pp_zalloc segs a flags) 0 (e\<lparr>world := w1\<rparr>) =
        Some (r, pp', e') \<and> (r = 0 \<longrightarrow> pp_wf pp' \<and> pp_pages pp' = [] \<and> nr_iovs pp' = segs \<and> free_iov pp' = 0)"
      using grow [of a flags "e\<lparr>world := w1\<rparr>"] len Some by auto
    then show ?thesis using Some m1 by (cases ok1) (auto simp: create_page_pipe_def Let_def)
  qed
qed

lemma page_pipe_reinit_ok:
  assumes wf: "pp_wf pp" and chunk: "chunk_mode pp"
  shows "\<exists>pp'. page_pipe_reinit k pp e = Some (pp', e) \<and> pp_wf pp' \<and> pp_pages pp' = [] \<and>
    free_hole pp' = 0 \<and> nr_iovs pp' = nr_iovs pp \<and> free_iov pp' = free_iov pp"
proof -
  let ?pp = "pp\<lparr>free_bufs := rev (bufs pp) @ free_bufs pp, bufs := [], free_hole := 0\<rparr>"
  have inv: "pp_inv ?pp" using wf chunk by (auto simp: pp_wf_def pp_inv_def chunk_mode_def)
  obtain a rest where fb: "free_bufs ?pp = a # rest"
    using wf by (cases "rev (bufs pp)") (auto simp: pp_wf_def)
  have "a \<in> set (free_bufs ?pp)" unfolding fb by simp
  then have "a \<in> set (bufs pp @ free_bufs pp)" by auto
  moreover have "\<forall>a \<in> set (bufs pp @ free_bufs pp). \<exists>b. ppbs pp a = Some b \<and> reusable b"
    using wf chunk by (simp add: pp_wf_def pp_inv_def)
  ultimately obtain b where b: "ppbs pp a = Some b" by blast
  from inv fb obtain pp' where g: "page_pipe_grow k ?pp 0 e = Some (0, pp', e)"
    and ok: "grown_ok ?pp pp'" and room: "last_has_room pp' 0" by (rule page_pipe_grow_free)
  have "free_hole pp' = 0" using g fb b by (auto simp: page_pipe_grow_def)
  moreover have "pp_pages ?pp = []" by (simp add: pp_pages_def bufs_pages_def)
  moreover have "page_pipe_reinit k pp e = Some (pp', e)"
    using chunk g by (simp add: page_pipe_reinit_def chunk_mode_def Let_def)
  moreover note pp_wf_grown [OF ok room]
  ultimately show ?thesis using ok by (simp add: grown_ok_def)
qed

section \<open>Holes\<close>

definition holes_wf :: "page_pipe \<Rightarrow> bool" where
  "holes_wf pp \<longleftrightarrow> free_hole pp \<le> nr_holes pp \<and> nr_holes pp \<le> length (holes pp) \<and>
     nr_holes pp \<le> length (hole_flags pp) \<and> (\<forall>h \<in> set (take (free_hole pp) (holes pp)). iov_ok h)"

text \<open>The pages of the holes in use, each with the flags of its hole.\<close>

definition hole_list :: "page_pipe \<Rightarrow> (iovec \<times> u32) list" where
  "hole_list pp = zip (take (free_hole pp) (holes pp)) (take (free_hole pp) (hole_flags pp))"

definition pages_of_holes :: "(iovec \<times> u32) list \<Rightarrow> (u64 \<times> u32) list" where
  "pages_of_holes hs = concat (map (\<lambda>(h, f). map (\<lambda>x. (x, f)) (iov_pages h)) hs)"

definition hole_pages :: "page_pipe \<Rightarrow> (u64 \<times> u32) list" where
  "hole_pages pp = pages_of_holes (hole_list pp)"

lemma pages_of_holes_snoc:
  "pages_of_holes (hs @ [(h, f)]) = pages_of_holes hs @ map (\<lambda>x. (x, f)) (iov_pages h)"
  by (simp add: pages_of_holes_def)

lemma holes_grow_ok:
  assumes "holes_wf pp" and "holes_grow k pp e = (r, pp', e')"
  shows "holes_wf pp' \<and> hole_pages pp' = hole_pages pp \<and> (r = 0 \<or> r = - 1) \<and>
    free_hole pp' = free_hole pp \<and> (r = 0 \<longrightarrow> free_hole pp' < nr_holes pp')"
  using assms
  by (auto simp: holes_grow_def holes_wf_def hole_pages_def hole_list_def PP_HOLES_BATCH_def min_def Let_def
      split: prod.splits if_splits)

lemma add_hole_extend:
  assumes wf: "holes_wf pp" and n: "free_hole pp = Suc n"
    and g: "iov_grow_page (holes pp ! n) addr = Some h" and f: "hole_flags pp ! n = flags"
    and addr: "unat addr + 4096 < 2 ^ 64"
  shows "holes_wf (pp\<lparr>holes := (holes pp)[n := h]\<rparr>) \<and>
    hole_pages (pp\<lparr>holes := (holes pp)[n := h]\<rparr>) = hole_pages pp @ [(addr, flags)]"
proof -
  have len: "n < length (holes pp)" "n < length (hole_flags pp)" using wf n by (auto simp: holes_wf_def)
  then have tk: "take (Suc n) (holes pp) = take n (holes pp) @ [holes pp ! n]"
    "take (Suc n) (hole_flags pp) = take n (hole_flags pp) @ [hole_flags pp ! n]"
    "take (Suc n) ((holes pp)[n := h]) = take n (holes pp) @ [h]"
    by (simp_all add: take_Suc_conv_app_nth)
  have "iov_ok (holes pp ! n)" using wf n tk by (simp add: holes_wf_def)
  from iov_grow_page_ok [OF this g addr] show ?thesis
    using wf n f len
    by (auto simp: holes_wf_def hole_pages_def hole_list_def tk pages_of_holes_snoc)
qed

lemma add_hole_fresh:
  assumes wf: "holes_wf pp" and n: "free_hole pp < nr_holes pp" and addr: "unat addr + 4096 < 2 ^ 64"
    and pp': "pp' = pp\<lparr>holes := (holes pp)[free_hole pp := iov_init addr], free_hole := free_hole pp + 1,
      hole_flags := (hole_flags pp)[free_hole pp := flags]\<rparr>"
  shows "holes_wf pp' \<and> hole_pages pp' = hole_pages pp @ [(addr, flags)]"
proof -
  let ?n = "free_hole pp"
  have len: "?n < length (holes pp)" "?n < length (hole_flags pp)" using wf n by (auto simp: holes_wf_def)
  then have "take (Suc ?n) ((holes pp)[?n := x]) = take ?n (holes pp) @ [x]"
    "take (Suc ?n) ((hole_flags pp)[?n := f]) = take ?n (hole_flags pp) @ [f]" for x f
    by (simp_all add: take_Suc_conv_app_nth)
  then show ?thesis using wf n len iov_ok_init [OF addr]
    by (auto simp: pp' holes_wf_def hole_pages_def hole_list_def pages_of_holes_snoc)
qed

lemma page_pipe_add_hole_ok:
  assumes wf: "holes_wf pp" and addr: "unat addr + 4096 < 2 ^ 64"
  shows "\<exists>r pp' e'. page_pipe_add_hole k pp addr flags e = Some (r, pp', e') \<and> holes_wf pp' \<and>
    (r = 0 \<and> hole_pages pp' = hole_pages pp @ [(addr, flags)] \<or> r = - 1 \<and> hole_pages pp' = hole_pages pp)"
proof -
  define st where "st = (if free_hole pp \<ge> nr_holes pp then holes_grow k pp e else (0, pp, e))"
  obtain r pp1 e1 where st1: "st = (r, pp1, e1)" by (cases st) auto
  have wf1: "holes_wf pp1" and pg: "hole_pages pp1 = hole_pages pp" and r: "r = 0 \<or> r = - 1"
    and room: "r = 0 \<Longrightarrow> free_hole pp1 < nr_holes pp1"
    using holes_grow_ok [OF wf, of k e r pp1 e1] wf st1 by (auto simp: st_def split: if_splits)
  show ?thesis
  proof (cases "r = 0")
    case False
    then show ?thesis using st1 wf1 pg r by (simp add: page_pipe_add_hole_def st_def [symmetric])
  next
    case True
    note room = room [OF True]
    have len: "nr_holes pp1 \<le> length (holes pp1)" "nr_holes pp1 \<le> length (hole_flags pp1)"
      using wf1 by (simp_all add: holes_wf_def)
    let ?fresh = "pp1\<lparr>holes := (holes pp1)[free_hole pp1 := iov_init addr], free_hole := free_hole pp1 + 1,
      hole_flags := (hole_flags pp1)[free_hole pp1 := flags]\<rparr>"
    show ?thesis
    proof (cases "\<exists>n h. free_hole pp1 = Suc n \<and> hole_flags pp1 ! n = flags \<and>
        iov_grow_page (holes pp1 ! n) addr = Some h")
      case True
      then obtain n h where n: "free_hole pp1 = Suc n" "hole_flags pp1 ! n = flags"
        "iov_grow_page (holes pp1 ! n) addr = Some h" by blast
      then have "page_pipe_add_hole k pp addr flags e = Some (0, pp1\<lparr>holes := (holes pp1)[n := h]\<rparr>, e1)"
        using st1 \<open>r = 0\<close> room len
        by (simp add: page_pipe_add_hole_def st_def [symmetric] arr_get_nat arr_set_nat)
      then show ?thesis using add_hole_extend [OF wf1 n(1,3,2) addr] pg by simp
    next
      case False
      have "page_pipe_add_hole k pp addr flags e = Some (0, ?fresh, e1)"
        using st1 \<open>r = 0\<close> room len False
        by (cases "free_hole pp1")
           (auto simp: page_pipe_add_hole_def st_def [symmetric] arr_get_nat arr_set_def nat_add_distrib Let_def)
      then show ?thesis using add_hole_fresh [OF wf1 room addr refl] pg by simp
    qed
  qed
qed

end
