(* ===== verification/PagePipeProps.thy ===== *)
theory PagePipeProps
  imports PagePipe
begin

text \<open>
  What the page pipe of \<^verbatim>\<open>criu/page-pipe.c\<close> promises its users: the lookup of a page by
  address, and the properties of the operations over whole page pipes.
\<close>

section \<open>Finding a page\<close>

definition aligned :: "u64 \<Rightarrow> bool" where
  "aligned a \<longleftrightarrow> PAGE_SIZE dvd unat a"

lemma iov_pages_index:
  assumes ok: "iov_ok iov" and al: "aligned (iov_base iov)" "aligned addr"
  shows "addr \<in> set (iov_pages iov) \<longleftrightarrow> iov_base iov \<le> addr \<and> addr < iov_base iov + iov_len iov"
    and "iov_base iov \<le> addr \<Longrightarrow> addr < iov_base iov + iov_len iov \<Longrightarrow>
      \<exists>j < length (iov_pages iov). iov_pages iov ! j = addr \<and> unat (addr - iov_base iov) = PAGE_SIZE * j"
proof -
  have sum: "unat (iov_base iov + iov_len iov) = unat (iov_base iov) + unat (iov_len iov)"
    using ok by (simp add: iov_ok_def unat_plus_eq)
  obtain n where n: "unat (iov_len iov) = PAGE_SIZE * n" using ok by (auto simp: iov_ok_def)
  obtain b where b: "unat (iov_base iov) = PAGE_SIZE * b" using al(1) by (auto simp: aligned_def)
  obtain c where c: "unat addr = PAGE_SIZE * c" using al(2) by (auto simp: aligned_def)
  have len: "length (iov_pages iov) = n" by (simp add: iov_pages_def n)
  have nth: "unat (iov_base iov + of_nat (j * PAGE_SIZE)) = PAGE_SIZE * (b + j)" if "j < n" for j
  proof -
    have lt: "unat (iov_base iov) + j * PAGE_SIZE < 2 ^ 64"
      using that ok n by (auto simp: iov_ok_def)
    then have "unat (of_nat (j * PAGE_SIZE) :: u64) = j * PAGE_SIZE" by (intro unat_of_nat_u64) simp
    with lt b show ?thesis by (subst unat_plus_eq) (simp_all del: of_nat_mult)
  qed
  have eq: "iov_base iov + of_nat (j * PAGE_SIZE) = addr \<longleftrightarrow> b + j = c" if "j < n" for j
    unfolding word_unat_eq_iff nth [OF that] c by auto
  have rng: "iov_base iov \<le> addr \<and> addr < iov_base iov + iov_len iov \<longleftrightarrow> b \<le> c \<and> c < b + n"
    unfolding word_le_nat_alt word_less_nat_alt sum b c n by auto
  show "addr \<in> set (iov_pages iov) \<longleftrightarrow> iov_base iov \<le> addr \<and> addr < iov_base iov + iov_len iov"
    unfolding rng
  proof
    assume "addr \<in> set (iov_pages iov)"
    then obtain j where "j < n" "iov_base iov + of_nat (j * PAGE_SIZE) = addr"
      by (auto simp: iov_pages_def n)
    then show "b \<le> c \<and> c < b + n" using eq [of j] by simp
  next
    assume "b \<le> c \<and> c < b + n"
    then have "c - b < n" and "b + (c - b) = c" by auto
    then show "addr \<in> set (iov_pages iov)"
      using eq [of "c - b"] by (force simp: iov_pages_def n)
  qed
  assume le: "iov_base iov \<le> addr" and lt: "addr < iov_base iov + iov_len iov"
  with rng have bc: "b \<le> c" "c - b < n" by auto
  then have "iov_pages iov ! (c - b) = addr" using eq [of "c - b"] by (simp add: iov_pages_def n)
  moreover have "unat (addr - iov_base iov) = PAGE_SIZE * (c - b)"
    using le by (simp add: unat_sub b c diff_mult_distrib2)
  ultimately show "\<exists>j < length (iov_pages iov). iov_pages iov ! j = addr \<and> unat (addr - iov_base iov) = PAGE_SIZE * j"
    using bc len by auto
qed

lemma ppb_find_iov_spec:
  assumes "i + n \<le> length iv" and "\<forall>v \<in> set (take n (drop i iv)). iov_ok v \<and> aligned (iov_base v)"
    and al: "aligned addr"
    and "unat len + PAGE_SIZE * length (concat (map iov_pages (take n (drop i iv)))) < 2 ^ 64"
  shows "\<exists>r. ppb_find_iov iv i n addr len = Some r \<and>
    (case r of
       None \<Rightarrow> addr \<notin> set (concat (map iov_pages (take n (drop i iv))))
     | Some (j, l) \<Rightarrow> i \<le> j \<and> j < i + n \<and> addr \<in> set (iov_pages (iv ! j)) \<and>
         (\<exists>idx < length (concat (map iov_pages (take n (drop i iv)))).
            concat (map iov_pages (take n (drop i iv))) ! idx = addr \<and> unat l = unat len + PAGE_SIZE * idx))"
  using assms(1,2,4)
proof (induction n arbitrary: i len)
  case 0
  then show ?case by simp
next
  case (Suc n)
  have tk: "take (Suc n) (drop i iv) = iv ! i # take n (drop (Suc i) iv)"
    using Suc.prems(1) by (simp add: Cons_nth_drop_Suc [symmetric])
  let ?v = "iv ! i" and ?P = "concat (map iov_pages (take n (drop (Suc i) iv)))"
  have v: "iov_ok ?v" "aligned (iov_base ?v)" using Suc.prems(2) by (simp_all add: tk)
  note mem = iov_pages_index(1) [OF v al] and idx = iov_pages_index(2) [OF v al]
  have get: "arr_get iv (int i) = Some ?v" using Suc.prems(1) by (simp add: arr_get_nat)
  show ?case
  proof (cases "addr \<in> set (iov_pages ?v)")
    case True
    then obtain j where j: "j < length (iov_pages ?v)" "iov_pages ?v ! j = addr"
      "unat (addr - iov_base ?v) = PAGE_SIZE * j" using mem idx by blast
    have "PAGE_SIZE * j \<le> PAGE_SIZE * length (concat (map iov_pages (take (Suc n) (drop i iv))))"
      using j(1) by (simp add: tk)
    then have "unat (len + (addr - iov_base ?v)) = unat len + PAGE_SIZE * j"
      using j(3) Suc.prems(3) by (subst unat_plus_eq) simp_all
    with True mem get j show ?thesis
      by (auto simp: tk not_le not_less nth_append intro!: exI [of _ j])
  next
    case False
    have ln: "unat (iov_len ?v) = PAGE_SIZE * length (iov_pages ?v)"
      using v(1) by (auto simp: iov_pages_def iov_ok_def)
    have len': "unat (len + iov_len ?v) = unat len + PAGE_SIZE * length (iov_pages ?v)"
      using Suc.prems(3) ln by (subst unat_plus_eq) (simp_all add: tk distrib_left)
    obtain r where r: "ppb_find_iov iv (Suc i) n addr (len + iov_len ?v) = Some r"
      and spec: "case r of None \<Rightarrow> addr \<notin> set ?P
        | Some (j, l) \<Rightarrow> Suc i \<le> j \<and> j < Suc i + n \<and> addr \<in> set (iov_pages (iv ! j)) \<and>
           (\<exists>idx < length ?P. ?P ! idx = addr \<and> unat l = unat (len + iov_len ?v) + PAGE_SIZE * idx)"
      using Suc.IH [of "Suc i" "len + iov_len ?v"] Suc.prems len' by (auto simp: tk distrib_left)
    have step: "ppb_find_iov iv i (Suc n) addr len = Some r"
      using False mem get r by auto
    show ?thesis
    proof (cases r)
      case None
      with spec False step show ?thesis by (auto simp: tk)
    next
      case (Some p)
      obtain j l where p: "p = (j, l)" by fastforce
      from spec Some p obtain idx where idx: "idx < length ?P" "?P ! idx = addr"
        "unat l = unat (len + iov_len ?v) + PAGE_SIZE * idx" and j: "Suc i \<le> j" "j < Suc i + n"
        "addr \<in> set (iov_pages (iv ! j))" by auto
      with step Some p show ?thesis
        by (auto simp: tk len' nth_append distrib_left intro!: exI [of _ "length (iov_pages ?v) + idx"])
    qed
  qed
qed

definition pp_aligned :: "page_pipe \<Rightarrow> bool" where
  "pp_aligned pp \<longleftrightarrow> (\<forall>x \<in> fst ` set (pp_pages pp). aligned x)"

lemma iov_base_in_pages: "iov_ok v \<Longrightarrow> iov_base v \<in> set (iov_pages v)"
  by (force simp: iov_pages_def iov_ok_def image_iff dest: dvd_imp_le)

lemma ppb_pages_subset:
  "a \<in> set (bufs pp) \<Longrightarrow> ppbs pp a = Some b \<Longrightarrow> set (ppb_pages (iovs pp) b) \<subseteq> set (pp_pages pp)"
  by (force simp: pp_pages_def bufs_pages_def)

definition ppb_at :: "page_pipe \<Rightarrow> u64 \<Rightarrow> ppb_ptr \<Rightarrow> nat \<Rightarrow> u64 \<Rightarrow> bool" where
  "ppb_at pp addr a i skip \<longleftrightarrow>
     (\<exists>b idx. ppbs pp a = Some b \<and> idx < pages_in b \<and> fst (ppb_pages (iovs pp) b ! idx) = addr \<and>
        unat skip = PAGE_SIZE * idx \<and> ppb_iov b \<le> i \<and> i < ppb_iov b + nr_segs b)"

lemma find_ppb_spec:
  assumes al: "aligned addr"
    and "\<And>a. a \<in> set as \<Longrightarrow> \<exists>b. ppbs pp a = Some b \<and> ppb_ok (iovs pp) b \<and>
      ppb_iov b + nr_segs b \<le> length (iovs pp) \<and> (\<forall>v \<in> set (ppb_iovs (iovs pp) b). aligned (iov_base v))"
  shows "\<exists>r. find_ppb pp as addr = Some r \<and>
    (case r of
       None \<Rightarrow> addr \<notin> fst ` set (bufs_pages (iovs pp) (ppbs pp) as)
     | Some (a, i, skip) \<Rightarrow> a \<in> set as \<and> ppb_at pp addr a i skip)"
  using assms(2)
proof (induction as)
  case Nil
  then show ?case by (simp add: bufs_pages_def)
next
  case (Cons a as)
  then obtain b where b: "ppbs pp a = Some b" "ppb_ok (iovs pp) b"
    "ppb_iov b + nr_segs b \<le> length (iovs pp)"
    "\<forall>v \<in> set (ppb_iovs (iovs pp) b). aligned (iov_base v)" by (metis list.set_intros(1))
  let ?P = "concat (map iov_pages (take (nr_segs b) (drop (ppb_iov b) (iovs pp))))"
  have P: "map fst (ppb_pages (iovs pp) b) = ?P" by (simp add: ppb_pages_def ppb_iovs_def o_def)
  then have lenP: "length ?P = pages_in b" using b(2) by (metis length_map ppb_ok_def)
  have "pages_in b < 2 ^ 31" using b(2) by (auto simp: ppb_ok_def cap_ok_def)
  then have "unat (0 :: u64) + PAGE_SIZE * length ?P < 2 ^ 64" unfolding lenP by simp
  moreover have "\<forall>v \<in> set (take (nr_segs b) (drop (ppb_iov b) (iovs pp))). iov_ok v \<and> aligned (iov_base v)"
    using b(2,4) by (simp add: ppb_ok_def ppb_iovs_def)
  ultimately have "\<exists>r. ppb_find_iov (iovs pp) (ppb_iov b) (nr_segs b) addr 0 = Some r \<and>
    (case r of None \<Rightarrow> addr \<notin> set ?P
      | Some (j, l) \<Rightarrow> ppb_iov b \<le> j \<and> j < ppb_iov b + nr_segs b \<and> addr \<in> set (iov_pages (iovs pp ! j)) \<and>
         (\<exists>idx < length ?P. ?P ! idx = addr \<and> unat l = unat (0 :: u64) + PAGE_SIZE * idx))"
    by (intro ppb_find_iov_spec b(3) al)
  then obtain r where r: "ppb_find_iov (iovs pp) (ppb_iov b) (nr_segs b) addr 0 = Some r"
    and spec: "case r of None \<Rightarrow> addr \<notin> set ?P
      | Some (j, l) \<Rightarrow> ppb_iov b \<le> j \<and> j < ppb_iov b + nr_segs b \<and> addr \<in> set (iov_pages (iovs pp ! j)) \<and>
         (\<exists>idx < length ?P. ?P ! idx = addr \<and> unat l = unat (0 :: u64) + PAGE_SIZE * idx)"
    by blast
  show ?case
  proof (cases r)
    case None
    have "addr \<notin> set (map fst (ppb_pages (iovs pp) b))" unfolding P using None spec by simp
    then have "addr \<notin> fst ` set (ppb_pages (iovs pp) b)" by simp
    moreover obtain r' where "find_ppb pp as addr = Some r'" "case r' of
        None \<Rightarrow> addr \<notin> fst ` set (bufs_pages (iovs pp) (ppbs pp) as)
      | Some (a, i, skip) \<Rightarrow> a \<in> set as \<and> ppb_at pp addr a i skip"
      using Cons.IH [OF Cons.prems] by fastforce
    moreover have "find_ppb pp (a # as) addr = find_ppb pp as addr" using b(1) r None by simp
    moreover have "bufs_pages (iovs pp) (ppbs pp) (a # as) =
        ppb_pages (iovs pp) b @ bufs_pages (iovs pp) (ppbs pp) as"
      using b(1) by (simp add: bufs_pages_def)
    ultimately show ?thesis by (cases r') auto
  next
    case (Some p)
    obtain j l where p: "p = (j, l)" by fastforce
    from spec Some p obtain idx where idx: "idx < length ?P" "?P ! idx = addr" "unat l = PAGE_SIZE * idx"
      "ppb_iov b \<le> j" "j < ppb_iov b + nr_segs b" unfolding unat_0 by fastforce
    have "map fst (ppb_pages (iovs pp) b) ! idx = addr" unfolding P by (rule idx(2))
    moreover have "idx < length (ppb_pages (iovs pp) b)" using idx(1) lenP b(2) by (simp add: ppb_ok_def)
    ultimately have "fst (ppb_pages (iovs pp) b ! idx) = addr" by simp
    then have "ppb_at pp addr a j l" unfolding ppb_at_def using b(1) idx lenP by metis
    moreover have "find_ppb pp (a # as) addr = Some (Some (a, j, l))" using b(1) r Some p by simp
    ultimately show ?thesis by simp
  qed
qed

lemma get_ppb_spec:
  assumes wf: "pp_wf pp" and al: "pp_aligned pp" "aligned addr"
  shows "\<exists>r pp'. get_ppb pp addr = Some (r, pp') \<and> set (bufs pp') = set (bufs pp) \<and>
    (case r of
       None \<Rightarrow> addr \<notin> fst ` set (pp_pages pp) \<and> pp' = pp
     | Some (a, i, skip) \<Rightarrow> a \<in> set (bufs pp) \<and> ppb_at pp addr a i skip)"
proof -
  have len: "free_iov pp \<le> length (iovs pp)" using wf by (auto simp: pp_wf_def pp_inv_def)
  obtain pos where chain: "seg_chain (ppbs pp) (bufs pp) pos (free_iov pp)"
    using wf by (auto simp: pp_wf_def pp_inv_def)
  have "\<exists>b. ppbs pp a = Some b \<and> ppb_ok (iovs pp) b \<and> ppb_iov b + nr_segs b \<le> length (iovs pp) \<and>
      (\<forall>v \<in> set (ppb_iovs (iovs pp) b). aligned (iov_base v))" if a: "a \<in> set (bufs pp)" for a
  proof -
    obtain b where b: "ppbs pp a = Some b" "ppb_ok (iovs pp) b"
      using wf a by (auto simp: pp_wf_def pp_inv_def)
    have le: "ppb_iov b + nr_segs b \<le> free_iov pp" using seg_chain_bound [OF chain] a b(1) by blast
    have "aligned (iov_base v)" if v: "v \<in> set (ppb_iovs (iovs pp) b)" for v
    proof -
      have "iov_base v \<in> set (iov_pages v)" using v b(2) by (intro iov_base_in_pages) (simp add: ppb_ok_def)
      with v have "(iov_base v, ppb_flags b) \<in> set (ppb_pages (iovs pp) b)" by (auto simp: ppb_pages_def)
      with ppb_pages_subset [OF a b(1)] al(1) show ?thesis by (force simp: pp_aligned_def)
    qed
    with b le len show ?thesis by auto
  qed
  from find_ppb_spec [OF al(2) this] obtain r where r: "find_ppb pp (bufs pp) addr = Some r"
    and spec: "case r of None \<Rightarrow> addr \<notin> fst ` set (pp_pages pp)
      | Some (a, i, skip) \<Rightarrow> a \<in> set (bufs pp) \<and> ppb_at pp addr a i skip"
    unfolding pp_pages_def by blast
  have "distinct (bufs pp)" using wf by (auto simp: pp_wf_def pp_inv_def)
  with r spec show ?thesis
    by (cases r) (auto simp: get_ppb_def)
qed

section \<open>A kernel for the witnesses\<close>

text \<open>Every call succeeds; the world is the next free descriptor and the log of closed ones.\<close>

definition demo_kernel :: "(nat \<times> int list) kernel" where
  "demo_kernel = \<lparr>
     k_malloc = (\<lambda>w. (True, w)),
     k_pipe = (\<lambda>(n, l). (Some (int n, int n + 1), (n + 2, l))),
     k_set_pipe_sz = (\<lambda>fd n w. (if n < 2 ^ 31 then int n else - 1, w)),
     k_get_pipe_sz = (\<lambda>fd w. (65536, w)),
     k_tee = (\<lambda>src dst n w. (int n, w)),
     k_splice = (\<lambda>src dst n w. (int n, w)),
     k_open_sink = (\<lambda>(n, l). (int n, (n + 1, l))),
     k_close = (\<lambda>fd (n, l). (n, l @ [fd]))\<rparr>"

definition demo_env :: "(nat \<times> int list) env" where
  "demo_env = \<lparr>world = (0, []), opts_lazy_pages = False, cnt_page_pipe_bufs = 0, cnt_page_pipes = 0\<rparr>"

definition demo_pp :: "u32 \<Rightarrow> page_pipe" where
  "demo_pp flags = (pp_zalloc 4 (replicate 4 hole_junk) flags)\<lparr>
     ppbs := [0 \<mapsto> \<lparr>p_read = 0, p_write = 1, pipe_size = 16, nr_segs = 1, pipe_off = 0,
       pages_in = 1, ppb_flags = 0, ppb_iov = 0\<rparr>],
     next_ppb := 1, nr_pipes := 1, bufs := [0], prev := [Some 0, None, None, None],
     iovs := \<lparr>iov_base = 0x1000, iov_len = 0x1000\<rparr> # replicate 3 hole_junk, free_iov := 1\<rparr>"

lemma kernel_ok_demo: "kernel_ok demo_kernel"
  by (simp add: kernel_ok_def demo_kernel_def Let_def)

lemma pp_pages_demo: "pp_pages (demo_pp flags) = [(0x1000, 0)]"
  by (simp add: pp_pages_def bufs_pages_def ppb_pages_def ppb_iovs_def demo_pp_def iov_pages_def)

lemma pp_wf_demo: "pp_wf (demo_pp flags)"
  by (auto simp: pp_wf_def pp_inv_def demo_pp_def pp_zalloc_def ppb_ok_def ppb_iovs_def ppb_pages_def
      iov_pages_def iov_ok_def cap_ok_def reusable_def chunk_mode_def)

lemma pp_aligned_demo: "pp_aligned (demo_pp flags)"
  by (simp add: pp_aligned_def pp_pages_demo aligned_def)

section \<open>Properties\<close>

text \<open>C16: adding a page to a well formed page pipe that has an iov left never aborts and never
  writes outside the \<open>iovs\<close> array.  It keeps the invariant, and either appends exactly the page
  with its flags at the end of the content and returns 0, or returns -1 or -EAGAIN with the
  content unchanged, whatever the kernel and the allocator answer.\<close>

theorem page_pipe_add_page_correct:
  assumes "kernel_ok k" and "pp_wf pp" and "free_iov pp < nr_iovs pp" and "unat addr + 4096 < 2 ^ 64"
  shows "\<exists>r pp' e'. page_pipe_add_page k pp addr flags e = Some (r, pp', e') \<and> pp_wf pp' \<and>
    nr_iovs pp' = nr_iovs pp \<and> free_iov pp' \<le> free_iov pp + 1 \<and>
    (r = 0 \<and> pp_pages pp' = pp_pages pp @ [(addr, flags)] \<or>
     (r = - 1 \<or> r = - EAGAIN) \<and> pp_pages pp' = pp_pages pp)"
  using page_pipe_add_page_ok [OF assms] by blast

theorem page_pipe_add_page_correct_witness:
  "\<exists>r pp' e'. page_pipe_add_page demo_kernel (demo_pp 0) 0x3000 1 demo_env = Some (r, pp', e') \<and> pp_wf pp' \<and>
    nr_iovs pp' = nr_iovs (demo_pp 0) \<and> free_iov pp' \<le> free_iov (demo_pp 0) + 1 \<and>
    (r = 0 \<and> pp_pages pp' = pp_pages (demo_pp 0) @ [(0x3000, 1)] \<or>
     (r = - 1 \<or> r = - EAGAIN) \<and> pp_pages pp' = pp_pages (demo_pp 0))"
  by (rule page_pipe_add_page_correct [OF kernel_ok_demo pp_wf_demo]) (simp_all add: demo_pp_def pp_zalloc_def)

text \<open>Creating a page pipe never aborts; a page pipe it returns is well formed, empty, and has
  all the \<open>segs\<close> iovs the caller asked for free.\<close>

theorem create_page_pipe_correct:
  assumes "kernel_ok k" and "segs \<le> length (case iv of Some a \<Rightarrow> a | None \<Rightarrow> fresh)"
  shows "\<exists>r e'. create_page_pipe k segs iv fresh flags e = Some (r, e') \<and>
    (\<forall>pp. r = Some pp \<longrightarrow> pp_wf pp \<and> pp_pages pp = [] \<and> nr_iovs pp = segs \<and> free_iov pp = 0)"
  using create_page_pipe_ok [OF assms] by blast

theorem create_page_pipe_correct_witness:
  "\<exists>r e'. create_page_pipe demo_kernel 2 None [hole_junk, hole_junk] 1 demo_env = Some (r, e') \<and>
    (\<forall>pp. r = Some pp \<longrightarrow> pp_wf pp \<and> pp_pages pp = [] \<and> nr_iovs pp = 2 \<and> free_iov pp = 0)"
  by (rule create_page_pipe_correct [OF kernel_ok_demo]) simp

text \<open>reinitialising a well formed page pipe in chunk mode never fails and makes no system
  call; it drops every page and every hole and keeps the invariant.\<close>

theorem page_pipe_reinit_correct:
  assumes "pp_wf pp" and "chunk_mode pp"
  shows "\<exists>pp'. page_pipe_reinit k pp e = Some (pp', e) \<and> pp_wf pp' \<and> pp_pages pp' = [] \<and>
    free_hole pp' = 0 \<and> nr_iovs pp' = nr_iovs pp \<and> free_iov pp' = free_iov pp"
  using page_pipe_reinit_ok [OF assms] by blast

theorem page_pipe_reinit_correct_witness:
  "\<exists>pp'. page_pipe_reinit demo_kernel (demo_pp 1) demo_env = Some (pp', demo_env) \<and> pp_wf pp' \<and>
    pp_pages pp' = [] \<and> free_hole pp' = 0 \<and> nr_iovs pp' = nr_iovs (demo_pp 1) \<and>
    free_iov pp' = free_iov (demo_pp 1)"
  by (rule page_pipe_reinit_correct [OF pp_wf_demo])
    (simp add: demo_pp_def pp_zalloc_def chunk_mode_def PP_CHUNK_MODE_def)



text \<open>C17: looking up a page aligned address in a page pipe of page aligned pages is sound and
  complete: it answers no buffer exactly when no page has the address, and otherwise a buffer
  and the offset in bytes of that page among the pages of the buffer.\<close>

theorem get_ppb_correct:
  assumes "pp_wf pp" and "pp_aligned pp" and "aligned addr"
  shows "\<exists>r pp'. get_ppb pp addr = Some (r, pp') \<and> set (bufs pp') = set (bufs pp) \<and>
    (case r of
       None \<Rightarrow> addr \<notin> fst ` set (pp_pages pp) \<and> pp' = pp
     | Some (a, i, skip) \<Rightarrow> a \<in> set (bufs pp) \<and> ppb_at pp addr a i skip)"
  using get_ppb_spec [OF assms] .

theorem get_ppb_correct_witness:
  "\<exists>r pp'. get_ppb (demo_pp 0) 0x1000 = Some (r, pp') \<and> set (bufs pp') = set (bufs (demo_pp 0)) \<and>
    (case r of
       None \<Rightarrow> 0x1000 \<notin> fst ` set (pp_pages (demo_pp 0)) \<and> pp' = demo_pp 0
     | Some (a, i, skip) \<Rightarrow> a \<in> set (bufs (demo_pp 0)) \<and> ppb_at (demo_pp 0) 0x1000 a i skip)"
  by (rule get_ppb_correct [OF pp_wf_demo pp_aligned_demo]) (simp add: aligned_def)

text \<open>C29: a page that \<^verbatim>\<open>page_pipe_add_page\<close> accepted is found again by \<^verbatim>\<open>get_ppb\<close>.\<close>

theorem add_page_then_get_ppb:
  assumes k: "kernel_ok k" and wf: "pp_wf pp" and room: "free_iov pp < nr_iovs pp"
    and addr: "unat addr + 4096 < 2 ^ 64" and al: "pp_aligned pp" "aligned addr"
    and add: "page_pipe_add_page k pp addr flags e = Some (0, pp', e')"
  shows "\<exists>a i skip pp''. get_ppb pp' addr = Some (Some (a, i, skip), pp'') \<and> ppb_at pp' addr a i skip"
proof -
  have wf': "pp_wf pp'" and pg: "pp_pages pp' = pp_pages pp @ [(addr, flags)]"
    using page_pipe_add_page_ok [OF k wf room addr, of flags e] add by (auto simp: EAGAIN_def)
  have "pp_aligned pp'" using al by (auto simp: pp_aligned_def pg)
  from get_ppb_spec [OF wf' this al(2)] pg show ?thesis by (auto split: option.splits)
qed

theorem add_page_then_get_ppb_witness:
  "\<exists>pp' e' a i skip pp''. page_pipe_add_page demo_kernel (demo_pp 0) 0x3000 0 demo_env = Some (0, pp', e') \<and>
    get_ppb pp' 0x3000 = Some (Some (a, i, skip), pp'') \<and> ppb_at pp' 0x3000 a i skip"
proof -
  have "map_option fst (page_pipe_add_page demo_kernel (demo_pp 0) 0x3000 0 demo_env) = Some 0"
    by (simp add: page_pipe_add_page_def try_add_page_def try_add_page_to_def demo_pp_def pp_zalloc_def
        ppb_resize_pipe_def arr_get_def arr_set_def iov_grow_page_def Let_def)
  then obtain pp' e' where "page_pipe_add_page demo_kernel (demo_pp 0) 0x3000 0 demo_env = Some (0, pp', e')"
    by auto
  moreover have "\<exists>a i skip pp''. get_ppb pp' 0x3000 = Some (Some (a, i, skip), pp'') \<and> ppb_at pp' 0x3000 a i skip"
    by (rule add_page_then_get_ppb [OF kernel_ok_demo pp_wf_demo _ _ pp_aligned_demo _ calculation])
      (simp_all add: demo_pp_def pp_zalloc_def aligned_def)
  ultimately show ?thesis by blast
qed




end
