(* ===== verification/LazyIov.thy ===== *)
theory LazyIov
  imports Prelude
begin

text \<open>
  The lists of lazy iovs of \<^verbatim>\<open>criu/uffd.c\<close>: which run-time addresses of a task are still to be
  filled from which addresses of its image.  An intrusive list is the list of its elements; each
  element is on one list only, so a position stands for the pointer to it.  \<^verbatim>\<open>xzalloc\<close> is the
  parameter \<open>m\<close>, which may fail.
\<close>

section \<open>Data\<close>

record lazy_iov =
  li_start :: u64
  li_end :: u64
  img_start :: u64

type_synonym 'w alloc = "'w \<Rightarrow> bool \<times> 'w"

section \<open>Operations\<close>

fun find_iov :: "lazy_iov list \<Rightarrow> u64 \<Rightarrow> nat option" where
  "find_iov [] addr = None"
| "find_iov (iov # rest) addr =
     (if addr \<ge> li_start iov \<and> addr < li_end iov then Some 0 else map_option Suc (find_iov rest addr))"

text \<open>\<^verbatim>\<open>split_iov\<close> on the iov itself: the shortened iov and the new one, which follows it.\<close>

definition split_pair :: "lazy_iov \<Rightarrow> u64 \<Rightarrow> lazy_iov \<times> lazy_iov" where
  "split_pair iov addr =
     (iov\<lparr>li_end := addr\<rparr>,
      \<lparr>li_start = addr, li_end = li_end iov, img_start = img_start iov + addr - li_start iov\<rparr>)"

definition split_iov ::
  "'w alloc \<Rightarrow> lazy_iov list \<Rightarrow> nat \<Rightarrow> u64 \<Rightarrow> 'w \<Rightarrow> (int \<times> lazy_iov list \<times> 'w) option" where
  "split_iov m iovs i addr w =
     (if i < length iovs then
        let (ok, w) = m w
        in if \<not> ok then Some (- 1, iovs, w)
           else let (a, b) = split_pair (iovs ! i) addr
                in Some (0, take i iovs @ [a, b] @ drop (Suc i) iovs, w)
      else None)"

text \<open>\<^verbatim>\<open>iov_list_insert\<close>: the loop looks for the place; the first result says whether the iov was
  moved, for an iov that starts where the last one does stays on its own list.\<close>

fun iov_insert_walk :: "lazy_iov \<Rightarrow> lazy_iov list \<Rightarrow> bool \<times> lazy_iov list" where
  "iov_insert_walk new [] = (False, [])"
| "iov_insert_walk new (iov # rest) =
     (if li_start new < li_start iov then (True, new # iov # rest)
      else if rest = [] \<and> li_start new > li_start iov then (True, [iov, new])
      else let (moved, rest) = iov_insert_walk new rest in (moved, iov # rest))"

definition iov_list_insert :: "lazy_iov \<Rightarrow> lazy_iov list \<Rightarrow> bool \<times> lazy_iov list" where
  "iov_list_insert new dst = (if dst = [] then (True, [new]) else iov_insert_walk new dst)"

fun merge_iov_lists :: "lazy_iov list \<Rightarrow> lazy_iov list \<Rightarrow> lazy_iov list \<times> lazy_iov list" where
  "merge_iov_lists [] dst = ([], dst)"
| "merge_iov_lists (iov # src) dst =
     (let (moved, dst) = iov_list_insert iov dst;
          (src, dst) = merge_iov_lists src dst
      in (if moved then src else iov # src, dst))"

fun copy_iov_list :: "'w alloc \<Rightarrow> lazy_iov list \<Rightarrow> lazy_iov list \<Rightarrow> 'w \<Rightarrow> int \<times> lazy_iov list \<times> 'w" where
  "copy_iov_list m [] dst w = (0, dst, w)"
| "copy_iov_list m (iov # src) dst w =
     (let (ok, w) = m w
      in if \<not> ok then (- 1, dst, w)
         else copy_iov_list m src
           (dst @ [\<lparr>li_start = li_start iov, li_end = li_end iov, img_start = img_start iov\<rparr>]) w)"

text \<open>\<^verbatim>\<open>__drop_iovs\<close>.  \<open>len\<close> is a C \<^verbatim>\<open>int\<close>: it is sign extended where it meets an address, and
  the differences of addresses subtracted from it are truncated to 32 bits.\<close>

fun drop_iovs_loop ::
  "'w alloc \<Rightarrow> lazy_iov list \<Rightarrow> u64 \<Rightarrow> u32 \<Rightarrow> 'w \<Rightarrow> int \<times> lazy_iov list \<times> 'w" where
  "drop_iovs_loop m [] addr len w = (0, [], w)"
| "drop_iovs_loop m (iov # rest) addr len w =
     (let start = li_start iov; end = li_end iov
      in if sint len \<le> 0 \<or> addr + scast len < start then (0, iov # rest, w)
         else if addr \<ge> end then
           let (r, rest, w) = drop_iovs_loop m rest addr len w in (r, iov # rest, w)
         else
           let (addr, len) =
             (if addr < start then (start, ucast (scast len - (start - addr))) else (addr, len))
           in if addr + scast len < end then
                if addr = start then
                  (0, iov\<lparr>li_start := li_start iov + scast len, img_start := img_start iov + scast len\<rparr> # rest, w)
                else
                  let (ok, w) = m w
                  in if \<not> ok then (- 1, iov # rest, w)
                     else let (a, b) = split_pair iov (addr + scast len)
                          in (0, a\<lparr>li_end := addr\<rparr> # b # rest, w)
              else
                let (r, rest, w) = drop_iovs_loop m rest end (ucast (scast len - (end - addr))) w
                in (r, if addr = start then rest else iov\<lparr>li_end := addr\<rparr> # rest, w))"

text \<open>\<^verbatim>\<open>extract_range\<close> returns the position of the iov that covers exactly the range.\<close>

definition extract_range ::
  "'w alloc \<Rightarrow> lazy_iov list \<Rightarrow> nat \<Rightarrow> u64 \<Rightarrow> u64 \<Rightarrow> 'w \<Rightarrow> (nat option \<times> lazy_iov list \<times> 'w) option" where
  "extract_range m iovs i start end w = do {
     iov \<leftarrow> arr_get iovs (int i);
     (ret, iovs, w) \<leftarrow> (if end < li_end iov then split_iov m iovs i end w else Some (0, iovs, w));
     if ret \<noteq> 0 then Some (None, iovs, w)
     else if start = li_start iov then Some (Some i, iovs, w)
     else do {
       (ret, iovs, w) \<leftarrow> split_iov m iovs i start w;
       Some (if ret \<noteq> 0 then None else Some (i + 1), iovs, w) } }"

text \<open>The loop of \<^verbatim>\<open>__remap_iovs\<close>: the result is the return code, the iovs that stay and
  the iovs moved to \<open>remaps\<close>, in order.  After a split the loop goes on with the new iov.\<close>

function remap_iovs_loop ::
  "'w alloc \<Rightarrow> lazy_iov list \<Rightarrow> u64 \<Rightarrow> u64 \<Rightarrow> u64 \<Rightarrow> 'w \<Rightarrow> int \<times> lazy_iov list \<times> lazy_iov list \<times> 'w" where
  "remap_iovs_loop m [] from off len w = (0, [], [], w)"
| "remap_iovs_loop m (iov # rest) from off len w =
     (if from \<ge> li_end iov then
        let (r, keep, remaps, w) = remap_iovs_loop m rest from off len w in (r, iov # keep, remaps, w)
      else if len \<le> 0 \<or> from + len \<le> li_start iov then (0, iov # rest, [], w)
      else
        let (len, from) =
          (if from < li_start iov then (len - (li_start iov - from), li_start iov) else (len, from))
        in if from > li_start iov then
             let (ok, w) = m w
             in if \<not> ok then (- 1, iov # rest, [], w)
                else let (a, b) = split_pair iov from;
                         (r, keep, remaps, w) = remap_iovs_loop m (b # rest) from off len w
                     in (r, a # keep, remaps, w)
           else if from + len < li_end iov then
             let (ok, w) = m w
             in if \<not> ok then (- 1, iov # rest, [], w)
                else let (a, b) = split_pair iov (from + len);
                         (r, keep, remaps, w) =
                           remap_iovs_loop m (b # rest) (li_end a) off (len - (li_end a - li_start a)) w
                     in (r, keep, a\<lparr>li_start := li_start a + off, li_end := li_end a + off\<rparr> # remaps, w)
           else
             let (r, keep, remaps, w) =
               remap_iovs_loop m rest (li_end iov) off (len - (li_end iov - li_start iov)) w
             in (r, keep, iov\<lparr>li_start := li_start iov + off, li_end := li_end iov + off\<rparr> # remaps, w))"
  by pat_completeness auto
termination
proof (relation "measure (\<lambda>(m, iovs, from, off, len, w).
    if len = 0 then length iovs
    else 2 * length iovs + (case iovs of iov # _ \<Rightarrow> if from > li_start iov then 1 else 0 | [] \<Rightarrow> 0) + 2)",
    goal_cases)
qed (auto simp: split_pair_def split: if_splits list.splits)

text \<open>The iovs moved to the local list \<open>remaps\<close> are lost when the loop fails, as is an iov that the
  merge does not place.\<close>

definition remap_iovs_list ::
  "'w alloc \<Rightarrow> lazy_iov list \<Rightarrow> u64 \<Rightarrow> u64 \<Rightarrow> u64 \<Rightarrow> 'w \<Rightarrow> int \<times> lazy_iov list \<times> 'w" where
  "remap_iovs_list m iovs from to len w =
     (let (r, keep, remaps, w) = remap_iovs_loop m iovs from (to - from) len w
      in if r \<noteq> 0 then (- 1, keep, w) else (0, snd (merge_iov_lists remaps keep), w))"

definition alloc_ok :: "'w alloc \<Rightarrow> bool" where
  "alloc_ok m \<longleftrightarrow> (\<forall>w. fst (m w))"

lemma alloc_okD: "alloc_ok m \<Longrightarrow> m w = (ok, w') \<Longrightarrow> ok"
  unfolding alloc_ok_def by (metis fst_conv)

lemma alloc_ok_step: "alloc_ok m \<Longrightarrow> \<exists>w'. m w = (True, w')"
  unfolding alloc_ok_def by (metis prod.collapse)

section \<open>Abstract view\<close>

text \<open>The image address to fetch for a run-time address, if it is still to be filled.\<close>

definition covers :: "lazy_iov \<Rightarrow> u64 \<Rightarrow> bool" where
  "covers iov a \<longleftrightarrow> li_start iov \<le> a \<and> a < li_end iov"

fun iov_at :: "lazy_iov list \<Rightarrow> u64 \<Rightarrow> u64 option" where
  "iov_at [] a = None"
| "iov_at (iov # rest) a = (if covers iov a then Some (img_start iov + (a - li_start iov)) else iov_at rest a)"

text \<open>The lists are sorted by address and their iovs neither empty nor overlapping.\<close>

fun iovs_ok :: "lazy_iov list \<Rightarrow> bool" where
  "iovs_ok [] = True"
| "iovs_ok (iov # rest) =
     (li_start iov < li_end iov \<and> (\<forall>j \<in> set rest. li_end iov \<le> li_start j) \<and> iovs_ok rest)"

lemma iovs_okD: "iovs_ok iovs \<Longrightarrow> j \<in> set iovs \<Longrightarrow> li_start j < li_end j"
  by (induction iovs) auto

lemma iov_at_None: "(\<And>j. j \<in> set iovs \<Longrightarrow> \<not> covers j a) \<Longrightarrow> iov_at iovs a = None"
  by (induction iovs) auto

lemma iov_at_append: "iov_at (xs @ ys) a = (case iov_at xs a of None \<Rightarrow> iov_at ys a | Some v \<Rightarrow> Some v)"
  by (induction xs) auto

lemma iov_at_Some: "iov_at iovs a = Some v \<Longrightarrow> \<exists>j \<in> set iovs. covers j a \<and> v = img_start j + (a - li_start j)"
  by (induction iovs) (auto split: if_splits)

lemma iov_at_below:
  assumes "\<And>j. j \<in> set iovs \<Longrightarrow> b \<le> li_start j" and "a < b"
  shows "iov_at iovs a = None"
proof (rule iov_at_None)
  fix j assume "j \<in> set iovs"
  with assms(1) [of j] assms(2) show "\<not> covers j a" by (auto simp: covers_def)
qed

section \<open>Finding and splitting\<close>

lemma find_iov_correct:
  "case find_iov iovs a of
     None \<Rightarrow> iov_at iovs a = None
   | Some i \<Rightarrow> i < length iovs \<and> covers (iovs ! i) a \<and>
       iov_at iovs a = Some (img_start (iovs ! i) + (a - li_start (iovs ! i)))"
  by (induction iovs) (auto simp: covers_def split: option.splits)

lemma split_pair_at:
  assumes "li_start iov \<le> x" and "x \<le> li_end iov"
  shows "iov_at (fst (split_pair iov x) # snd (split_pair iov x) # rest) a = iov_at (iov # rest) a"
  using assms by (auto simp: split_pair_def covers_def algebra_simps)

section \<open>Dropping a range\<close>

lemma iov_at_ge:
  "(\<And>j. j \<in> set iovs \<Longrightarrow> li_end i \<le> li_start j) \<Longrightarrow> a < li_end i \<Longrightarrow> iov_at iovs a = None"
  by (rule iov_at_below)

definition drop_spec :: "lazy_iov list \<Rightarrow> u64 \<Rightarrow> nat \<Rightarrow> lazy_iov list \<Rightarrow> bool" where
  "drop_spec iovs addr n iovs' \<longleftrightarrow> iovs_ok iovs' \<and>
     (\<forall>a. iov_at iovs' a = (if addr \<le> a \<and> unat a < unat addr + n then None else iov_at iovs a)) \<and>
     (\<forall>b. (\<forall>i \<in> set iovs. b \<le> li_start i) \<longrightarrow> (\<forall>j \<in> set iovs'. b \<le> li_start j))"

lemma nat_sub_int: "0 < x \<Longrightarrow> k \<le> nat x \<Longrightarrow> nat (x - int k) = nat x - k \<and> 0 \<le> x - int k"
  by auto

text \<open>The range moved up to the start of the iov.\<close>

lemma drop_clamp:
  fixes len len' :: u32 and addr addr' start end' :: u64
  assumes "0 < sint len" and "\<not> addr + scast len < start" and "start < end'" and "\<not> end' \<le> addr"
    and "unat addr + nat (sint len) < 2 ^ 64"
    and "(addr', len') = (if addr < start then (start, ucast (scast len - (start - addr))) else (addr, len))"
  shows "start \<le> addr'" and "addr' < end'" and "0 \<le> sint len'"
    and "unat (scast len' :: u64) = nat (sint len')"
    and "unat addr' + nat (sint len') = unat addr + nat (sint len)"
    and "addr \<le> addr'" and "addr' = start \<or> addr' = addr"
proof -
  have sum: "unat (addr + scast len) = unat addr + nat (sint len)"
    using assms(5) sext_pos [OF assms(1)] by (simp add: unat_plus_eq)
  have ge: "unat start \<le> unat addr + nat (sint len)"
    using assms(2) sum by (simp add: word_less_nat_alt)
  have d: "unat (start - addr) = unat start - unat addr" if "addr < start"
    using that by (intro unat_sub) simp
  have small: "unat (start - addr) \<le> nat (sint len)" if "addr < start"
    using d [OF that] ge by simp
  have small_int: "int (unat (start - addr)) \<le> sint len" if "addr < start"
    using small [OF that] assms(1) le_nat_iff [of "sint len"] by simp
  note t = trunc_len [OF assms(1) small]
  have n: "nat (sint len') = nat (sint len) - (unat start - unat addr)" if "addr < start"
    using assms(6) that t(1) [OF that] d [OF that] small [OF that] by simp
  show "start \<le> addr'" "addr' < end'" "addr \<le> addr'" "addr' = start \<or> addr' = addr"
    using assms(3,4,6) by (auto split: if_splits)
  show "0 \<le> sint len'"
    using assms(1,6) t(1) small small_int by (auto split: if_splits)
  show "unat (scast len' :: u64) = nat (sint len')"
  proof (cases "addr < start")
    case True
    then have "(scast len' :: u64) = scast len - (start - addr)" using assms(6) t(2) by simp
    moreover have "start - addr \<le> scast len"
      using small [OF True] sext_pos [OF assms(1)] by (simp add: word_le_nat_alt)
    ultimately show ?thesis
      using n [OF True] d [OF True] sext_pos [OF assms(1)] by (simp add: unat_sub)
  qed (use assms(6) sext_pos [OF assms(1)] in simp)
  show "unat addr' + nat (sint len') = unat addr + nat (sint len)"
  proof (cases "addr < start")
    case True
    then show ?thesis using n [OF True] ge assms(6) by (simp add: word_less_nat_alt)
  qed (use assms(6) in simp)
qed

lemma drop_spec_here:
  assumes ok: "iovs_ok (iov # rest)" and addr: "li_start iov \<le> addr'" "addr' < li_end iov"
    and n: "unat addr' + n = unat addr + n0" "unat addr' + n < unat (li_end iov)" "unat (l :: u64) = n"
    and at: "addr \<le> addr'" "addr' = li_start iov \<or> addr' = addr"
  shows "addr' = li_start iov \<Longrightarrow>
      drop_spec (iov # rest) addr n0 (iov\<lparr>li_start := li_start iov + l, img_start := img_start iov + l\<rparr> # rest)"
    and "addr' \<noteq> li_start iov \<Longrightarrow>
      drop_spec (iov # rest) addr n0
        ((fst (split_pair iov (addr' + l)))\<lparr>li_end := addr'\<rparr> # snd (split_pair iov (addr' + l)) # rest)"
proof -
  have e: "unat (li_end iov) < 2 ^ 64" by (rule unat_lt_u64)
  have s: "unat (addr' + l) = unat addr' + n" using n e by (simp add: unat_plus_eq)
  have rest: "iov_at rest a = None" if "a < li_end iov" for a
    using ok that by (intro iov_at_below [of rest "li_end iov"]) auto
  note w = word_le_nat_alt word_less_nat_alt
  show "drop_spec (iov # rest) addr n0 (iov\<lparr>li_start := li_start iov + l, img_start := img_start iov + l\<rparr> # rest)"
    if "addr' = li_start iov"
    using ok addr n at s that rest
    by (auto simp: drop_spec_def covers_def w algebra_simps)
  show "drop_spec (iov # rest) addr n0
        ((fst (split_pair iov (addr' + l)))\<lparr>li_end := addr'\<rparr> # snd (split_pair iov (addr' + l)) # rest)"
    if "addr' \<noteq> li_start iov"
    using ok addr n at s that rest order.not_eq_order_implies_strict [OF that [symmetric] addr(1)]
    by (auto simp: drop_spec_def covers_def split_pair_def w algebra_simps)
qed

lemma drop_spec_past:
  assumes ok: "iovs_ok (iov # rest)" and addr: "li_start iov \<le> addr'" "addr' < li_end iov"
    and n: "unat addr' + n = unat addr + n0" "unat (li_end iov) \<le> unat addr' + n"
    and at: "addr \<le> addr'" "addr' = li_start iov \<or> addr' = addr"
    and rest': "drop_spec rest (li_end iov) (unat addr' + n - unat (li_end iov)) rest'"
  shows "drop_spec (iov # rest) addr n0 (if addr' = li_start iov then rest' else iov\<lparr>li_end := addr'\<rparr> # rest')"
proof -
  have rest: "iov_at rest a = None" if "a < li_end iov" for a
    using ok that by (intro iov_at_below [of rest "li_end iov"]) auto
  note w = word_le_nat_alt word_less_nat_alt
  have r': "iov_at rest' a = (if li_end iov \<le> a \<and> unat a < unat addr' + n then None else iov_at rest a)" for a
    using rest' n by (auto simp: drop_spec_def)
  have low: "li_end iov \<le> li_start j" if "j \<in> set rest'" for j
    using rest' ok that by (auto simp: drop_spec_def)
  have ok': "iovs_ok rest'" using rest' by (simp add: drop_spec_def)
  show ?thesis
  proof (cases "addr' = li_start iov")
    case True
    have "iov_at rest' a = (if addr \<le> a \<and> unat a < unat addr + n0 then None else iov_at (iov # rest) a)" for a
      using True r' [of a] rest [of a] n at addr by (auto simp: covers_def w)
    moreover have "b \<le> li_start j" if "b \<le> li_start iov" "j \<in> set rest'" for b j
      using that low [of j] addr by (auto simp: w)
    ultimately show ?thesis using True ok' by (simp add: drop_spec_def)
  next
    case False
    then have lt: "li_start iov < addr'" using addr(1) by simp
    have "iov_at (iov\<lparr>li_end := addr'\<rparr> # rest') a =
        (if addr \<le> a \<and> unat a < unat addr + n0 then None else iov_at (iov # rest) a)" for a
      using False lt r' [of a] rest [of a] n at addr by (auto simp: covers_def w)
    moreover have "b \<le> li_start j" if "b \<le> li_start iov" "j \<in> set rest'" for b j
      using that low [of j] addr by (auto simp: w)
    moreover have "addr' \<le> li_start j" if "j \<in> set rest'" for j
      using that low [of j] addr by (auto simp: w)
    ultimately show ?thesis using False ok' lt by (simp add: drop_spec_def)
  qed
qed

lemma drop_spec_id:
  "iovs_ok iovs \<Longrightarrow> (\<And>a. addr \<le> a \<Longrightarrow> unat a < unat addr + n \<Longrightarrow> iov_at iovs a = None) \<Longrightarrow> drop_spec iovs addr n iovs"
  by (auto simp: drop_spec_def)

lemma drop_spec_skip:
  assumes "iovs_ok (iov # rest)" and "li_end iov \<le> addr" and "drop_spec rest addr n rest'"
  shows "drop_spec (iov # rest) addr n (iov # rest')"
  using assms by (auto simp: drop_spec_def covers_def)

lemma drop_iovs_loop_correct:
  assumes "iovs_ok iovs" and "0 \<le> sint len" and "unat addr + nat (sint len) < 2 ^ 64"
  shows "\<exists>r iovs' w'. drop_iovs_loop m iovs addr len w = (r, iovs', w') \<and>
    (r = 0 \<and> drop_spec iovs addr (nat (sint len)) iovs' \<or> r = - 1 \<and> \<not> alloc_ok m)"
  using assms
proof (induction iovs arbitrary: addr len w)
  case Nil
  then show ?case by (simp add: drop_spec_def)
next
  case (Cons iov rest)
  let ?n = "nat (sint len)"
  have ok: "iovs_ok rest" "li_start iov < li_end iov" using Cons.prems(1) by auto
  have L: "unat (scast len :: u64) = ?n" if "0 < sint len" by (rule sext_pos [OF that])
  consider (brk) "sint len \<le> 0 \<or> addr + scast len < li_start iov"
    | (skip) "0 < sint len" "\<not> addr + scast len < li_start iov" "li_end iov \<le> addr"
    | (hit) "0 < sint len" "\<not> addr + scast len < li_start iov" "\<not> li_end iov \<le> addr" by linarith
  then show ?case
  proof cases
    case brk
    have "iov_at (iov # rest) a = None" if "addr \<le> a" "unat a < unat addr + ?n" for a
    proof (rule iov_at_below)
      have "0 < sint len" using that Cons.prems(2) by (cases "sint len = 0") (auto simp: word_le_nat_alt)
      then show "a < li_start iov"
        using brk that Cons.prems(3) L by (auto simp: word_less_nat_alt unat_plus_eq)
      show "li_start iov \<le> li_start j" if "j \<in> set (iov # rest)" for j
        using that Cons.prems(1) by (auto intro: less_imp_le order.strict_trans2)
    qed
    with brk drop_spec_id [OF Cons.prems(1)] show ?thesis by auto
  next
    case skip
    obtain r rest' w' where "drop_iovs_loop m rest addr len w = (r, rest', w')"
      "r = 0 \<and> drop_spec rest addr ?n rest' \<or> r = - 1 \<and> \<not> alloc_ok m"
      using Cons.IH [OF ok(1) Cons.prems(2,3)] by blast
    with skip drop_spec_skip [OF Cons.prems(1)] show ?thesis by auto
  next
    case hit
    obtain addr' len' where al: "(addr', len') = (if addr < li_start iov
        then (li_start iov, ucast (scast len - (li_start iov - addr))) else (addr, len))"
      by (metis surj_pair)
    note c = drop_clamp [OF hit(1,2) ok(2) hit(3) Cons.prems(3) al]
    let ?n' = "nat (sint len')"
    have sum: "unat (addr' + scast len') = unat addr' + ?n'"
      using c(4,5) Cons.prems(3) by (simp add: unat_plus_eq)
    have step: "drop_iovs_loop m (iov # rest) addr len w =
      (if addr' + scast len' < li_end iov then
         if addr' = li_start iov then
           (0, iov\<lparr>li_start := li_start iov + scast len', img_start := img_start iov + scast len'\<rparr> # rest, w)
         else
           let (ok, w) = m w
           in if \<not> ok then (- 1, iov # rest, w)
              else (0, (fst (split_pair iov (addr' + scast len')))\<lparr>li_end := addr'\<rparr> #
                      snd (split_pair iov (addr' + scast len')) # rest, w)
       else
         let (r, rest', w) = drop_iovs_loop m rest (li_end iov) (ucast (scast len' - (li_end iov - addr'))) w
         in (r, if addr' = li_start iov then rest' else iov\<lparr>li_end := addr'\<rparr> # rest', w))"
      unfolding drop_iovs_loop.simps(2) Let_def al [symmetric] using hit by (simp add: split_beta)
    show ?thesis
    proof (cases "addr' + scast len' < li_end iov")
      case True
      then have lt: "unat addr' + ?n' < unat (li_end iov)" using sum by (simp add: word_less_nat_alt)
      note here = drop_spec_here [OF Cons.prems(1) c(1,2,5) lt c(4) c(6,7)]
      show ?thesis unfolding step using True here by (cases "m w") (auto dest: alloc_okD)
    next
      case False
      let ?len = "ucast (scast len' - (li_end iov - addr')) :: u32"
      have ge: "unat (li_end iov) \<le> unat addr' + ?n'" using False sum by (simp add: word_less_nat_alt)
      have d: "unat (li_end iov - addr') = unat (li_end iov) - unat addr'"
        using c(2) by (intro unat_sub) simp
      have pos: "0 < sint len'" using ge c(2) by (cases "0 < sint len'") (auto simp: word_less_nat_alt)
      have le: "unat (li_end iov - addr') \<le> ?n'" using ge d by simp
      have len2: "nat (sint ?len) = unat addr' + ?n' - unat (li_end iov)" "0 \<le> sint ?len"
        using nat_sub_int [of "sint len'" "unat (li_end iov) - unat addr'"] pos le c(2)
        by (simp_all only: trunc_len(1) [OF pos le] d) (simp_all add: word_less_nat_alt)
      have fit: "unat (li_end iov) + nat (sint ?len) < 2 ^ 64"
        unfolding len2(1) using ge c(5) Cons.prems(3) by simp
      obtain r rest' w' where "drop_iovs_loop m rest (li_end iov) ?len w = (r, rest', w')"
        "r = 0 \<and> drop_spec rest (li_end iov) (nat (sint ?len)) rest' \<or> r = - 1 \<and> \<not> alloc_ok m"
        using Cons.IH [OF ok(1) len2(2) fit] by blast
      then show ?thesis
        unfolding step using False drop_spec_past [OF Cons.prems(1) c(1,2,5) ge c(6,7)]
        by (auto simp: len2(1))
    qed
  qed
qed

section \<open>Moving a range\<close>

definition shift_iov :: "u64 \<Rightarrow> lazy_iov \<Rightarrow> lazy_iov" where
  "shift_iov off iov = iov\<lparr>li_start := li_start iov + off, li_end := li_end iov + off\<rparr>"

text \<open>The loop leaves what dropping the range would leave, and takes out exactly the range.\<close>

definition take_spec :: "lazy_iov list \<Rightarrow> u64 \<Rightarrow> nat \<Rightarrow> lazy_iov list \<Rightarrow> bool" where
  "take_spec iovs from n xs \<longleftrightarrow> iovs_ok xs \<and>
     (\<forall>a. iov_at xs a = (if from \<le> a \<and> unat a < unat from + n then iov_at iovs a else None)) \<and>
     (\<forall>x \<in> set xs. from \<le> li_start x \<and> unat (li_end x) \<le> unat from + n)"

lemma take_spec_none:
  "(\<And>a. from \<le> a \<Longrightarrow> unat a < unat from + n \<Longrightarrow> iov_at iovs a = None) \<Longrightarrow> take_spec iovs from n []"
  by (auto simp: take_spec_def)

lemma take_spec_skip:
  "li_end iov \<le> from \<Longrightarrow> take_spec rest from n xs \<Longrightarrow> take_spec (iov # rest) from n xs"
  by (auto simp: take_spec_def covers_def)

lemma split_pair_simps [simp]:
  "li_start (fst (split_pair iov x)) = li_start iov" "li_end (fst (split_pair iov x)) = x"
  "img_start (fst (split_pair iov x)) = img_start iov"
  "li_start (snd (split_pair iov x)) = x" "li_end (snd (split_pair iov x)) = li_end iov"
  "img_start (snd (split_pair iov x)) = img_start iov + x - li_start iov"
  by (simp_all add: split_pair_def)

text \<open>One iov that the range reaches, from its start or from the start of the range on.\<close>

definition iov_from :: "lazy_iov \<Rightarrow> u64 \<Rightarrow> lazy_iov" where
  "iov_from iov from = (if li_start iov < from then snd (split_pair iov from) else iov)"

lemma iov_from_simps:
  "li_start iov \<le> from \<Longrightarrow> li_start (iov_from iov from) = from"
  "li_end (iov_from iov from) = li_end iov"
  "li_start iov \<le> from \<Longrightarrow> img_start (iov_from iov from) = img_start iov + (from - li_start iov)"
  by (auto simp: iov_from_def)

lemma take_spec_here:
  assumes ok: "iovs_ok (iov # rest)" and fr: "li_start iov \<le> from'" "from' < li_end iov"
    and n: "unat from' + n = unat from + n0" "unat from' + n < unat (li_end iov)" "unat (l :: u64) = n" "0 < n"
    and at: "from \<le> from'" "from' = li_start iov \<or> from' = from"
  shows "take_spec (iov # rest) from n0 [fst (split_pair (iov_from iov from') (from' + l))]"
proof -
  have s: "unat (from' + l) = unat from' + n" using n unat_lt_u64 [of "li_end iov"] by (simp add: unat_plus_eq)
  have rest: "iov_at rest a = None" if "a < li_end iov" for a
    using ok that by (intro iov_at_below [of rest "li_end iov"]) auto
  show ?thesis
    using ok fr n at s rest
    by (auto simp: take_spec_def covers_def iov_from_simps word_le_nat_alt word_less_nat_alt algebra_simps)
qed

lemma take_spec_past:
  assumes ok: "iovs_ok (iov # rest)" and fr: "li_start iov \<le> from'" "from' < li_end iov"
    and n: "unat from' + n = unat from + n0" "unat (li_end iov) \<le> unat from' + n"
    and at: "from \<le> from'" "from' = li_start iov \<or> from' = from"
    and xs: "take_spec rest (li_end iov) (unat from' + n - unat (li_end iov)) xs"
  shows "take_spec (iov # rest) from n0 (iov_from iov from' # xs)"
proof -
  note w = word_le_nat_alt word_less_nat_alt
  have rest: "iov_at rest a = None" if "a < li_end iov" for a
    using ok that by (intro iov_at_below [of rest "li_end iov"]) auto
  have xs': "iov_at xs a = (if li_end iov \<le> a \<and> unat a < unat from' + n then iov_at rest a else None)" for a
    using xs n by (auto simp: take_spec_def)
  have "iov_at (iov_from iov from' # xs) a =
      (if from \<le> a \<and> unat a < unat from + n0 then iov_at (iov # rest) a else None)" for a
    using xs' [of a] rest [of a] n at fr
    by (auto simp: covers_def iov_from_simps w algebra_simps)
  moreover have "iovs_ok (iov_from iov from' # xs)"
    using xs fr by (auto simp: take_spec_def iov_from_simps)
  moreover have "from \<le> li_start x \<and> unat (li_end x) \<le> unat from + n0" if "x \<in> set (iov_from iov from' # xs)" for x
    using that xs fr n at by (auto simp: take_spec_def iov_from_simps w)
  ultimately show ?thesis by (simp add: take_spec_def)
qed

text \<open>The loop at an iov that starts at the range, and at one that the range reaches.\<close>

declare remap_iovs_loop.simps(2) [simp del]

lemma remap_loop_at:
  assumes "li_start b = from" and "0 < len" and "from < li_end b" and "unat from + unat len < 2 ^ 64"
  shows "remap_iovs_loop m (b # rest) from off len w =
    (if from + len < li_end b then
       let (ok, w) = m w
       in if \<not> ok then (- 1, b # rest, [], w)
          else (0, snd (split_pair b (from + len)) # rest, [shift_iov off (fst (split_pair b (from + len)))], w)
     else
       let (r, keep, remaps, w) = remap_iovs_loop m rest (li_end b) off (len - (li_end b - from)) w
       in (r, keep, shift_iov off b # remaps, w))"
proof -
  have nle: "\<not> from + len \<le> from"
    using assms(2,4) by (simp add: word_le_nat_alt word_less_nat_alt unat_plus_eq)
  have fin: "remap_iovs_loop m (snd (split_pair b (from + len)) # rest) (from + len) off 0 w =
      (0, snd (split_pair b (from + len)) # rest, [], w)" if "from + len < li_end b" for w
    using that by (auto simp: remap_iovs_loop.simps(2) dest: leD)
  have c: "\<not> li_end b \<le> from" "len \<noteq> 0" "\<not> from < li_start b" "\<not> li_start b < from"
    using assms(1-3) by auto
  show ?thesis
    unfolding remap_iovs_loop.simps(2) [of m b rest "from"] Let_def
    using assms(1) nle c fin by (simp add: split_beta shift_iov_def)
qed

lemma remap_clamp:
  assumes "0 < (len :: u64)" and "\<not> from + len \<le> start" and "start < end'" and "\<not> end' \<le> from"
    and "unat from + unat len < 2 ^ 64"
    and "(len', from') = (if from < start then (len - (start - from), start) else (len, from))"
  shows "start \<le> from'" and "from' < end'" and "0 < len'"
    and "unat from' + unat len' = unat from + unat len"
    and "from \<le> from'" and "from' = start \<or> from' = from"
proof -
  note w = word_le_nat_alt word_less_nat_alt
  have lt: "unat start < unat from + unat len" using assms(2,5) by (simp add: w unat_plus_eq)
  show "start \<le> from'" "from' < end'" "from \<le> from'" "from' = start \<or> from' = from"
    using assms(3,4,6) by (auto split: if_splits)
  have d: "unat (start - from) = unat start - unat from" if "from < start"
    using that by (intro unat_sub) simp
  have l: "unat (len - (start - from)) = unat len - (unat start - unat from)" if "from < start"
    using that d lt by (subst unat_sub) (simp_all add: w)
  show "0 < len'" using assms(1,6) l lt by (auto simp: w split: if_splits)
  show "unat from' + unat len' = unat from + unat len"
    using assms(6) l lt by (auto simp: w split: if_splits)
qed

lemma remap_loop_hit:
  assumes "0 < len" and "\<not> from + len \<le> li_start iov" and "li_start iov < li_end iov" and "\<not> li_end iov \<le> from"
    and "unat from + unat len < 2 ^ 64"
    and al: "(len', from') = (if from < li_start iov then (len - (li_start iov - from), li_start iov) else (len, from))"
  shows "remap_iovs_loop m (iov # rest) from off len w =
    (if li_start iov < from' then
       let (ok, w) = m w
       in if \<not> ok then (- 1, iov # rest, [], w)
          else let (r, keep, remaps, w) = remap_iovs_loop m (snd (split_pair iov from') # rest) from' off len' w
               in (r, fst (split_pair iov from') # keep, remaps, w)
     else remap_iovs_loop m (iov # rest) from' off len' w)"
proof (cases "li_start iov < from'")
  case True
  then have "from' = from" "len' = len" "\<not> from < li_start iov" using al by (auto split: if_splits)
  moreover have "len \<noteq> 0" using assms(1) by auto
  ultimately show ?thesis
    using True assms(2,4) by (simp add: remap_iovs_loop.simps(2) [of m iov rest "from"] Let_def split_beta)
next
  case False
  note c = remap_clamp [OF assms]
  have eq: "from' = li_start iov" using False c(1) by simp
  have le: "\<not> li_end iov \<le> from'" "\<not> from' + len' \<le> li_start iov" "len \<noteq> 0" "len' \<noteq> 0"
    using assms(1) c(2,3,4) assms(5) eq by (auto simp: word_le_nat_alt word_less_nat_alt unat_plus_eq)
  show ?thesis
    unfolding remap_iovs_loop.simps(2) [of m iov rest "from"] remap_iovs_loop.simps(2) [of m iov rest "from'"]
      Let_def al [symmetric]
    using False assms(1,2,4) le eq by simp
qed

lemma remap_loop_hitE:
  assumes "0 < len" and "\<not> from + len \<le> li_start iov" and "li_start iov < li_end iov" and "\<not> li_end iov \<le> from"
    and "unat from + unat len < 2 ^ 64"
    and "(len', from') = (if from < li_start iov then (len - (li_start iov - from), li_start iov) else (len, from))"
  obtains w' where "remap_iovs_loop m (iov # rest) from off len w = (- 1, iov # rest, [], w')" "\<not> alloc_ok m"
  | w1 r keep remaps w2
    where "remap_iovs_loop m (iov_from iov from' # rest) from' off len' w1 = (r, keep, remaps, w2)"
      and "remap_iovs_loop m (iov # rest) from off len w =
        (r, (if li_start iov < from' then [fst (split_pair iov from')] else []) @ keep, remaps, w2)"
proof (cases "li_start iov < from'")
  case False
  obtain r keep remaps w2 where l: "remap_iovs_loop m (iov # rest) from' off len' w = (r, keep, remaps, w2)"
    by (metis prod_cases4)
  with False remap_loop_hit [OF assms, of m rest off w] that(2) [of w r keep remaps w2] show ?thesis
    by (simp add: iov_from_def)
next
  case True
  note eq = remap_loop_hit [OF assms, of m rest off w, unfolded if_P [OF True]]
  obtain okm w1 where m: "m w = (okm, w1)" by fastforce
  obtain r keep remaps w2 where l: "remap_iovs_loop m (iov_from iov from' # rest) from' off len' w1 = (r, keep, remaps, w2)"
    by (metis prod_cases4)
  show ?thesis
  proof (cases okm)
    case False
    then show ?thesis using that(1) eq m alloc_okD [of m w] by (auto simp: Let_def)
  next
    case okm: True
    then have "remap_iovs_loop m (iov # rest) from off len w =
        (r, (if li_start iov < from' then [fst (split_pair iov from')] else []) @ keep, remaps, w2)"
      using eq m l True by (simp add: Let_def iov_from_def)
    with l show ?thesis by (rule that(2))
  qed
qed

lemma keep_here:
  "snd (split_pair iov (li_start iov + l)) = iov\<lparr>li_start := li_start iov + l, img_start := img_start iov + l\<rparr>"
  "fst (split_pair iov from') = (fst (split_pair iov x))\<lparr>li_end := from'\<rparr>"
  "snd (split_pair (snd (split_pair iov from')) x) = snd (split_pair iov x)"
  by (simp_all add: split_pair_def algebra_simps)

lemma remap_iovs_loop_correct:
  assumes "iovs_ok iovs" and "unat from + unat len < 2 ^ 64"
  shows "\<exists>r keep remaps w'. remap_iovs_loop m iovs from off len w = (r, keep, remaps, w') \<and>
    (r = 0 \<and> drop_spec iovs from (unat len) keep \<and>
       (\<exists>xs. remaps = map (shift_iov off) xs \<and> take_spec iovs from (unat len) xs) \<or> r = - 1 \<and> \<not> alloc_ok m)"
  using assms
proof (induction iovs arbitrary: "from" len w)
  case Nil
  then show ?case by (simp add: drop_spec_def take_spec_def)
next
  case (Cons iov rest)
  let ?n = "unat len"
  have ok: "iovs_ok rest" "li_start iov < li_end iov" using Cons.prems(1) by auto
  consider (skip) "li_end iov \<le> from"
    | (brk) "\<not> li_end iov \<le> from" "len \<le> 0 \<or> from + len \<le> li_start iov"
    | (hit) "\<not> li_end iov \<le> from" "0 < len" "\<not> from + len \<le> li_start iov" by (metis not_le)
  then show ?case
  proof cases
    case skip
    obtain r keep remaps w' where "remap_iovs_loop m rest from off len w = (r, keep, remaps, w')"
      "r = 0 \<and> drop_spec rest from ?n keep \<and> (\<exists>xs. remaps = map (shift_iov off) xs \<and> take_spec rest from ?n xs) \<or> r = - 1 \<and> \<not> alloc_ok m"
      using Cons.IH [OF ok(1) Cons.prems(2), of w] by blast
    with skip drop_spec_skip [OF Cons.prems(1) skip] take_spec_skip [OF skip] show ?thesis
      by (auto simp: remap_iovs_loop.simps(2))
  next
    case brk
    have "iov_at (iov # rest) a = None" if "from \<le> a" "unat a < unat from + ?n" for a
    proof (rule iov_at_below)
      show "a < li_start iov"
        using brk that Cons.prems(2) by (auto simp: word_less_nat_alt word_le_nat_alt unat_plus_eq)
      show "li_start iov \<le> li_start j" if "j \<in> set (iov # rest)" for j
        using that Cons.prems(1) by (auto intro: less_imp_le order.strict_trans2)
    qed
    with brk drop_spec_id [OF Cons.prems(1)] take_spec_none show ?thesis
      by (auto simp: remap_iovs_loop.simps(2))
  next
    case hit
    obtain len' from' where al: "(len', from') = (if from < li_start iov
        then (len - (li_start iov - from), li_start iov) else (len, from))"
      by (metis surj_pair)
    note c = remap_clamp [OF hit(2,3) ok(2) hit(1) Cons.prems(2) al]
    have nw: "unat from' + unat len' < 2 ^ 64" using c(4) Cons.prems(2) by simp
    have b: "li_start (iov_from iov from') = from'" "li_end (iov_from iov from') = li_end iov"
      by (rule iov_from_simps(1) [OF c(1)], rule iov_from_simps(2))
    have sum: "unat (from' + len') = unat from' + unat len'" using nw by (simp add: unat_plus_eq)
    show ?thesis
    proof (rule remap_loop_hitE [OF hit(2,3) ok(2) hit(1) Cons.prems(2) al, where m = m and rest = rest and off = off and w = w])
      fix w1 r keep remaps w2
      assume 2: "remap_iovs_loop m (iov_from iov from' # rest) from' off len' w1 = (r, keep, remaps, w2)"
        "remap_iovs_loop m (iov # rest) from off len w =
          (r, (if li_start iov < from' then [fst (split_pair iov from')] else []) @ keep, remaps, w2)"
      show ?thesis
      proof (cases "from' + len' < li_end iov")
        case True
        then have lt: "unat from' + unat len' < unat (li_end iov)" using sum by (simp add: word_less_nat_alt)
        note d = drop_spec_here [OF Cons.prems(1) c(1,2,4) lt refl c(5,6)]
        let ?x = "fst (split_pair (iov_from iov from') (from' + len'))"
        have "take_spec (iov # rest) from ?n [?x]"
          using c(3) by (intro take_spec_here [OF Cons.prems(1) c(1,2,4) lt refl _ c(5,6)]) (simp add: word_less_nat_alt)
        then have t: "\<exists>xs. [shift_iov off ?x] = map (shift_iov off) xs \<and> take_spec (iov # rest) from ?n xs"
          by (intro exI [of _ "[?x]"]) simp
        have "drop_spec (iov # rest) from ?n
          ((if li_start iov < from' then [fst (split_pair iov from')] else []) @
           snd (split_pair (iov_from iov from') (from' + len')) # rest)"
        proof (cases "li_start iov < from'")
          case True
          then have "from' \<noteq> li_start iov" by simp
          from d(2) [OF this] True show ?thesis
            unfolding keep_here(2) [of iov from' "from' + len'"] by (simp add: iov_from_def keep_here(3))
        next
          case False
          then have "from' = li_start iov" using c(1) by simp
          from d(1) [OF this] this show ?thesis by (simp add: iov_from_def keep_here(1))
        qed
        moreover have "r = - 1 \<and> \<not> alloc_ok m \<or> r = 0 \<and> keep = snd (split_pair (iov_from iov from') (from' + len')) # rest \<and>
            remaps = [shift_iov off ?x]"
          using 2(1) True remap_loop_at [OF b(1) c(3) _ nw, of m rest off w1] c(2)
          by (cases "m w1") (auto simp: b(2) split: if_splits dest: alloc_okD)
        ultimately show ?thesis using 2(2) t by metis
      next
        case False
        let ?len = "len' - (li_end iov - from')"
        have ge: "unat (li_end iov) \<le> unat from' + unat len'" using False sum by (simp add: word_less_nat_alt)
        have dd: "unat (li_end iov - from') = unat (li_end iov) - unat from'"
          using c(2) by (intro unat_sub) simp
        have "li_end iov - from' \<le> len'" using ge dd by (simp add: word_le_nat_alt)
        then have len2: "unat ?len = unat from' + unat len' - unat (li_end iov)"
          using c(2) ge by (simp add: unat_sub dd word_less_nat_alt)
        have fit: "unat (li_end iov) + unat ?len < 2 ^ 64" unfolding len2 using ge nw by simp
        obtain r' keep' remaps' w' where l: "remap_iovs_loop m rest (li_end iov) off ?len w1 = (r', keep', remaps', w')"
          "r' = 0 \<and> drop_spec rest (li_end iov) (unat ?len) keep' \<and>
            (\<exists>xs. remaps' = map (shift_iov off) xs \<and> take_spec rest (li_end iov) (unat ?len) xs) \<or> r' = - 1 \<and> \<not> alloc_ok m"
          using Cons.IH [OF ok(1) fit, of w1] by blast
        have res: "r = r'" "keep = keep'" "remaps = shift_iov off (iov_from iov from') # remaps'"
          using 2(1) l(1) remap_loop_at [OF b(1) c(3) _ nw, of m rest off w1] False c(2)
          by (simp_all add: b(2))
        have keep: "(if li_start iov < from' then [fst (split_pair iov from')] else []) @ keep' =
            (if from' = li_start iov then keep' else iov\<lparr>li_end := from'\<rparr> # keep')"
          using c(1) by (auto simp: split_pair_def)
        from l(2) show ?thesis
        proof
          assume "r' = - 1 \<and> \<not> alloc_ok m"
          then show ?thesis using 2(2) res by simp
        next
          assume l2: "r' = 0 \<and> drop_spec rest (li_end iov) (unat ?len) keep' \<and>
            (\<exists>xs. remaps' = map (shift_iov off) xs \<and> take_spec rest (li_end iov) (unat ?len) xs)"
          then obtain xs where xs: "remaps' = map (shift_iov off) xs" "take_spec rest (li_end iov) (unat ?len) xs"
            by blast
          have "drop_spec (iov # rest) from ?n ((if li_start iov < from' then [fst (split_pair iov from')] else []) @ keep')"
            unfolding keep using l2 by (intro drop_spec_past [OF Cons.prems(1) c(1,2,4) ge c(5,6)]) (simp add: len2)
          moreover have "take_spec (iov # rest) from ?n (iov_from iov from' # xs)"
            using xs(2) by (intro take_spec_past [OF Cons.prems(1) c(1,2,4) ge c(5,6)]) (simp add: len2)
          moreover have "remaps = map (shift_iov off) (iov_from iov from' # xs)" using res xs(1) by simp
          ultimately show ?thesis using 2(2) res l2 by blast
        qed
      qed
    qed auto
  qed
qed

section \<open>Inserting and merging\<close>

definition apart :: "lazy_iov \<Rightarrow> lazy_iov \<Rightarrow> bool" where
  "apart i j \<longleftrightarrow> li_end i \<le> li_start j \<or> li_end j \<le> li_start i"

lemma iov_at_covered: "j \<in> set iovs \<Longrightarrow> covers j a \<Longrightarrow> iov_at iovs a \<noteq> None"
  by (induction iovs) auto

lemma apartI:
  assumes "li_start i < li_end i" and "li_start j < li_end j" and "\<And>a. covers i a \<Longrightarrow> \<not> covers j a"
  shows "apart i j"
  using assms(1,2) assms(3) [of "li_start i"] assms(3) [of "li_start j"]
  unfolding covers_def apart_def by (metis linorder_le_cases not_le order_refl)

lemma apart_covers: "apart i j \<Longrightarrow> covers i a \<Longrightarrow> \<not> covers j a"
  by (auto simp: apart_def covers_def)

lemma iov_insert_walk_correct:
  assumes "iovs_ok dst" and "li_start new < li_end new" and "\<And>j. j \<in> set dst \<Longrightarrow> apart new j" and "dst \<noteq> []"
  shows "\<exists>dst'. iov_insert_walk new dst = (True, dst') \<and> iovs_ok dst' \<and> set dst' = insert new (set dst) \<and>
    (\<forall>a. iov_at dst' a = iov_at (new # dst) a)"
  using assms
proof (induction dst)
  case (Cons iov rest)
  have ok: "iovs_ok rest" "li_start iov < li_end iov" "\<And>j. j \<in> set rest \<Longrightarrow> li_end iov \<le> li_start j"
    using Cons.prems(1) by auto
  have ap: "apart new iov" and ap': "\<And>j. j \<in> set rest \<Longrightarrow> apart new j" using Cons.prems(3) by auto
  show ?case
  proof (cases "li_start new < li_start iov")
    case True
    then have "li_end new \<le> li_start iov" using ap ok(2) by (auto simp: apart_def)
    moreover from this have "li_end new \<le> li_start j" if "j \<in> set rest" for j
      using ok(2) ok(3) [OF that] by (meson less_imp_le order.trans)
    ultimately show ?thesis using True Cons.prems by auto
  next
    case False
    then have fin: "li_end iov \<le> li_start new"
      using ap Cons.prems(2) by (auto simp: apart_def)
    then have gt: "li_start new > li_start iov" using ok(2) by simp
    have swap: "iov_at (iov # new # xs) a = iov_at (new # iov # xs) a" for xs a
      using apart_covers [OF ap] by auto
    show ?thesis
    proof (cases "rest = []")
      case True
      then show ?thesis using False gt fin ok Cons.prems(2) swap [of "[]"] by (auto simp del: iov_at.simps)
    next
      case rest: False
      obtain dst' where "iov_insert_walk new rest = (True, dst')" "iovs_ok dst'" "set dst' = insert new (set rest)"
        and at: "\<And>a. iov_at dst' a = iov_at (new # rest) a"
        using Cons.IH [OF ok(1) Cons.prems(2) ap' rest] by blast
      moreover have "iov_at (iov # dst') a = iov_at (new # iov # rest) a" for a
        unfolding swap [symmetric] by (simp only: iov_at.simps at)
      ultimately show ?thesis using False rest fin ok by (auto simp del: iov_at.simps)
    qed
  qed
qed simp

lemma iov_list_insert_correct:
  assumes "iovs_ok dst" and "li_start new < li_end new" and "\<And>j. j \<in> set dst \<Longrightarrow> apart new j"
  shows "\<exists>dst'. iov_list_insert new dst = (True, dst') \<and> iovs_ok dst' \<and> set dst' = insert new (set dst) \<and>
    (\<forall>a. iov_at dst' a = iov_at (new # dst) a)"
  using iov_insert_walk_correct [OF assms] assms(2) by (cases "dst = []") (auto simp: iov_list_insert_def)

text \<open>Requests are not sorted, but no two iovs of a task overlap.\<close>

fun iovs_apart :: "lazy_iov list \<Rightarrow> bool" where
  "iovs_apart [] = True"
| "iovs_apart (i # is) = (li_start i < li_end i \<and> (\<forall>j \<in> set is. apart i j) \<and> iovs_apart is)"

lemma iovs_ok_apart: "iovs_ok iovs \<Longrightarrow> iovs_apart iovs"
  by (induction iovs) (auto simp: apart_def)

lemma apart_sym: "apart i j \<Longrightarrow> apart j i"
  by (auto simp: apart_def)

lemma merge_iov_lists_correct:
  assumes "iovs_ok dst" and "iovs_apart src" and "\<And>i j. i \<in> set src \<Longrightarrow> j \<in> set dst \<Longrightarrow> apart i j"
  shows "\<exists>dst'. merge_iov_lists src dst = ([], dst') \<and> iovs_ok dst' \<and> set dst' = set src \<union> set dst \<and>
    (\<forall>a. iov_at dst' a = (case iov_at src a of None \<Rightarrow> iov_at dst a | Some v \<Rightarrow> Some v))"
  using assms
proof (induction src arbitrary: dst)
  case (Cons i src)
  have "\<exists>d. iov_list_insert i dst = (True, d) \<and> iovs_ok d \<and> set d = insert i (set dst) \<and>
      (\<forall>a. iov_at d a = iov_at (i # dst) a)"
    using Cons.prems by (intro iov_list_insert_correct) auto
  then obtain d where d: "iov_list_insert i dst = (True, d)" "iovs_ok d" "set d = insert i (set dst)"
    and at: "\<And>a. iov_at d a = iov_at (i # dst) a" by blast
  have "apart x j" if "x \<in> set src" "j \<in> set d" for x j
    using that Cons.prems(2,3) d(3) by (auto intro: apart_sym)
  with Cons.IH [OF d(2)] Cons.prems(2) obtain d' where d': "merge_iov_lists src d = ([], d')" "iovs_ok d'"
    "set d' = set src \<union> set d" and at': "\<And>a. iov_at d' a = (case iov_at src a of None \<Rightarrow> iov_at d a | Some v \<Rightarrow> Some v)"
    by auto
  have "iov_at d' a = (case iov_at (i # src) a of None \<Rightarrow> iov_at dst a | Some v \<Rightarrow> Some v)" for a
  proof (cases "covers i a")
    case True
    then have "iov_at src a = None"
      using Cons.prems(2) by (intro iov_at_None) (auto dest: apart_covers)
    with True show ?thesis by (simp add: at' at)
  qed (simp add: at' at split: option.split)
  then show ?case using d d' by (simp add: insert_commute Un_assoc [symmetric])
qed simp

lemma shift_unat:
  assumes "from \<le> v" and "unat v \<le> unat from + n" and "unat to + n < 2 ^ 64"
  shows "unat (v + (to - from) :: u64) = unat to + (unat v - unat from)"
proof -
  have eq: "v + (to - from) = to + (v - from)" by (simp add: algebra_simps)
  have "unat (v - from) = unat v - unat from" using assms(1) by (rule unat_sub)
  then show ?thesis unfolding eq using assms(2,3) by (subst unat_plus_eq) simp_all
qed

lemma iov_at_shift: "iov_at (map (shift_iov off) xs) (a + off) = iov_at xs a"
  if "\<And>x. x \<in> set xs \<Longrightarrow> covers (shift_iov off x) (a + off) = covers x a"
  using that by (induction xs) (auto simp: shift_iov_def)

lemma shifted:
  assumes xs: "take_spec iovs from n xs" and fr: "unat from + n < 2 ^ 64" and to: "unat to + n < 2 ^ 64"
  shows "iovs_ok (map (shift_iov (to - from)) xs)"
    and "iov_at (map (shift_iov (to - from)) xs) a =
      (if to \<le> a \<and> unat a < unat to + n then iov_at iovs (a - to + from) else None)"
proof -
  let ?sh = "shift_iov (to - from)"
  note w = word_le_nat_alt word_less_nat_alt
  have rng: "from \<le> li_start x" "li_start x < li_end x" "unat (li_end x) \<le> unat from + n" if "x \<in> set xs" for x
    using xs that iovs_okD by (auto simp: take_spec_def)
  have st: "unat (li_start (?sh x)) = unat to + (unat (li_start x) - unat from)"
    and en: "unat (li_end (?sh x)) = unat to + (unat (li_end x) - unat from)" if "x \<in> set xs" for x
    using shift_unat [of "from" "li_start x" n to] shift_unat [of "from" "li_end x" n to] rng [OF that] to
    by (simp_all add: shift_iov_def w)
  have "iovs_ok ys \<Longrightarrow> set ys \<subseteq> set xs \<Longrightarrow> iovs_ok (map ?sh ys)" for ys
  proof (induction ys)
    case (Cons y ys)
    have "li_end (?sh y) \<le> li_start (?sh j)" if "j \<in> set ys" for j
    proof -
      have "y \<in> set xs" "j \<in> set xs" "li_end y \<le> li_start j" using Cons.prems that by auto
      then show ?thesis using en [of y] st [of j] rng [of y] rng [of j] by (simp add: w)
    qed
    moreover have "li_start (?sh y) < li_end (?sh y)"
      using Cons.prems st [of y] en [of y] rng [of y] by (auto simp: w)
    ultimately show ?case using Cons by auto
  qed simp
  then show "iovs_ok (map ?sh xs)" using xs by (simp add: take_spec_def)
  have out: "iov_at (map ?sh xs) a = None" if "\<not> (to \<le> a \<and> unat a < unat to + n)"
  proof (rule iov_at_None)
    fix j assume "j \<in> set (map ?sh xs)"
    then obtain x where "x \<in> set xs" "j = ?sh x" by auto
    with st [of x] en [of x] rng [of x] that show "\<not> covers j a" by (auto simp: covers_def w)
  qed
  have ins: "iov_at (map ?sh xs) a = iov_at iovs (a - to + from)" if a: "to \<le> a" "unat a < unat to + n"
  proof -
    let ?b = "a - to + from"
    have ab: "?b + (to - from) = a" by simp
    have d: "unat (a - to) = unat a - unat to" using a(1) by (rule unat_sub)
    have b: "unat ?b = unat a - unat to + unat from"
      using a d fr by (subst unat_plus_eq) simp_all
    have "iov_at (map ?sh xs) (?b + (to - from)) = iov_at xs ?b"
    proof (rule iov_at_shift)
      show "covers (?sh x) (?b + (to - from)) = covers x ?b" if "x \<in> set xs" for x
        unfolding ab using that st [of x] en [of x] rng [of x] b a by (auto simp: covers_def w)
    qed
    moreover have "iov_at xs ?b = iov_at iovs ?b" using xs b a by (auto simp: take_spec_def w)
    ultimately show ?thesis unfolding ab by simp
  qed
  show "iov_at (map ?sh xs) a = (if to \<le> a \<and> unat a < unat to + n then iov_at iovs (a - to + from) else None)"
    using ins out by auto
qed

lemma remap_iovs_list_correct:
  assumes ok: "iovs_ok iovs" and fr: "unat from + unat len < 2 ^ 64" and to: "unat to + unat len < 2 ^ 64"
    and free: "\<And>a. to \<le> a \<Longrightarrow> unat a < unat to + unat len \<Longrightarrow> iov_at iovs a = None"
  shows "\<exists>r iovs' w'. remap_iovs_list m iovs from to len w = (r, iovs', w') \<and>
    (r = 0 \<and> iovs_ok iovs' \<and>
       (\<forall>a. iov_at iovs' a =
          (if to \<le> a \<and> unat a < unat to + unat len then iov_at iovs (a - to + from)
           else if from \<le> a \<and> unat a < unat from + unat len then None
           else iov_at iovs a)) \<or> r = - 1 \<and> \<not> alloc_ok m)"
proof -
  let ?off = "to - from" and ?n = "unat len"
  obtain r keep remaps w' where l: "remap_iovs_loop m iovs from ?off len w = (r, keep, remaps, w')"
    "r = 0 \<and> drop_spec iovs from ?n keep \<and> (\<exists>xs. remaps = map (shift_iov ?off) xs \<and> take_spec iovs from ?n xs) \<or> r = - 1 \<and> \<not> alloc_ok m"
    using remap_iovs_loop_correct [OF ok fr, of m ?off w] by blast
  show ?thesis
  proof (cases "r = 0")
    case False
    then show ?thesis using l by (simp add: remap_iovs_list_def)
  next
    case True
    then obtain xs where keep: "drop_spec iovs from ?n keep" and remaps: "remaps = map (shift_iov ?off) xs"
      and xs: "take_spec iovs from ?n xs" using l(2) by auto
    note sh = shifted [OF xs fr to]
    have kok: "iovs_ok keep" and kat: "iov_at keep a = (if from \<le> a \<and> unat a < unat from + ?n then None else iov_at iovs a)" for a
      using keep by (simp_all add: drop_spec_def)
    have "apart i j" if "i \<in> set remaps" "j \<in> set keep" for i j
    proof (rule apartI)
      show "li_start i < li_end i" using iovs_okD [OF sh(1)] that(1) remaps by simp
      show "li_start j < li_end j" using iovs_okD [OF kok that(2)] .
      show "\<not> covers j a" if "covers i a" for a
        using iov_at_covered [OF \<open>i \<in> set remaps\<close> that] iov_at_covered [OF \<open>j \<in> set keep\<close>, of a] free [of a]
        by (auto simp: remaps sh(2) kat split: if_splits)
    qed
    with iovs_ok_apart [OF sh(1)] remaps obtain iovs' where m: "merge_iov_lists remaps keep = ([], iovs')" "iovs_ok iovs'"
      "\<And>a. iov_at iovs' a = (case iov_at remaps a of None \<Rightarrow> iov_at keep a | Some v \<Rightarrow> Some v)"
      using merge_iov_lists_correct [OF kok, of remaps] by auto
    have "iov_at iovs' a = (if to \<le> a \<and> unat a < unat to + ?n then iov_at iovs (a - to + from)
           else if from \<le> a \<and> unat a < unat from + ?n then None else iov_at iovs a)" for a
      using free [of a] by (auto simp: m(3) remaps sh(2) kat split: option.split)
    then show ?thesis using True l(1) m by (auto simp: remap_iovs_list_def)
  qed
qed

section \<open>Cutting a range out of one iov\<close>

lemma iovs_ok_append:
  "iovs_ok (xs @ ys) \<longleftrightarrow> iovs_ok xs \<and> iovs_ok ys \<and> (\<forall>x \<in> set xs. \<forall>y \<in> set ys. li_end x \<le> li_start y)"
  by (induction xs) auto

lemma split_iov_at:
  "split_iov m (xs @ iov # ys) (length xs) addr w =
     (let (ok, w) = m w
      in if ok then Some (0, xs @ fst (split_pair iov addr) # snd (split_pair iov addr) # ys, w)
         else Some (- 1, xs @ iov # ys, w))"
  by (simp add: split_iov_def Let_def split_beta)

text \<open>The parts of an iov before, in and after a range of it.\<close>

definition iov_before :: "lazy_iov \<Rightarrow> u64 \<Rightarrow> lazy_iov list" where
  "iov_before iov start = (if start = li_start iov then [] else [iov\<lparr>li_end := start\<rparr>])"

definition iov_in :: "lazy_iov \<Rightarrow> u64 \<Rightarrow> u64 \<Rightarrow> lazy_iov" where
  "iov_in iov start end = \<lparr>li_start = start, li_end = end, img_start = img_start iov + (start - li_start iov)\<rparr>"

definition iov_after :: "lazy_iov \<Rightarrow> u64 \<Rightarrow> lazy_iov list" where
  "iov_after iov end = (if end < li_end iov then [snd (split_pair iov end)] else [])"

lemma extract_range_cases:
  assumes "li_start iov \<le> start" and "start < end" and "end \<le> li_end iov"
  shows "\<exists>r iovs' w'. extract_range m (xs @ iov # ys) (length xs) start end w = Some (r, iovs', w') \<and>
    (r = None \<and> \<not> alloc_ok m \<or> (\<exists>bs. bs = iov_before iov start \<and> r = Some (length (xs @ bs)) \<and>
       iovs' = (xs @ bs) @ iov_in iov start end # (iov_after iov end @ ys)))"
proof -
  have get: "arr_get (xs @ iov # ys) (int (length xs)) = Some iov" by (simp add: arr_get_nat)
  have whole: "iov_in iov (li_start iov) (li_end iov) = iov" by (simp add: iov_in_def)
  have len: "end = li_end iov" if "\<not> end < li_end iov" using that assms(3) by simp
  show ?thesis
  proof (cases "m w")
    case (Pair ok1 w1)
    show ?thesis
      using assms len get whole Pair
      by (cases "m w1"; cases "end < li_end iov"; cases "start = li_start iov")
         (auto simp: extract_range_def split_iov_at iov_before_def iov_after_def iov_in_def split_pair_def Let_def
           split: if_splits dest: alloc_okD)
  qed
qed

lemma iov_parts_at:
  assumes "li_start iov \<le> start" and "start < end" and "end \<le> li_end iov"
  shows "iov_at (iov_before iov start @ iov_in iov start end # iov_after iov end @ ys) a = iov_at (iov # ys) a"
    and "iov_at (iov_before iov start @ iov_after iov end @ ys) a =
      (if start \<le> a \<and> a < end then iov_at ys a else iov_at (iov # ys) a)"
  using assms
  by (auto simp: iov_before_def iov_after_def iov_in_def covers_def split_pair_def algebra_simps)

lemma iov_parts_ok:
  assumes "li_start iov \<le> start" and "start < end" and "end \<le> li_end iov" and "iovs_ok (iov # ys)"
  shows "iovs_ok (iov_before iov start @ iov_after iov end @ ys)"
    and "j \<in> set (iov_before iov start @ iov_after iov end @ ys) \<Longrightarrow> \<exists>i \<in> set (iov # ys). li_start i \<le> li_start j"
  using assms
  by (auto simp: iov_before_def iov_after_def split_pair_def split: if_splits)

lemma extract_range_correct:
  assumes ok: "iovs_ok iovs" and i: "i < length iovs"
    and rng: "li_start (iovs ! i) \<le> start" "start < end" "end \<le> li_end (iovs ! i)"
  shows "\<exists>r iovs' w'. extract_range m iovs i start end w = Some (r, iovs', w') \<and>
    (r = None \<and> \<not> alloc_ok m \<or> (\<exists>j. r = Some j \<and> j < length iovs' \<and> iovs' ! j = iov_in (iovs ! i) start end \<and>
       iovs_ok (take j iovs' @ drop (Suc j) iovs') \<and>
       (\<forall>a. iov_at (take j iovs' @ drop (Suc j) iovs') a =
          (if start \<le> a \<and> a < end then None else iov_at iovs a))))"
proof -
  define xs iov ys where "xs = take i iovs" and "iov = iovs ! i" and "ys = drop (Suc i) iovs"
  have dec: "iovs = xs @ iov # ys" and lx: "length xs = i"
    using i by (simp_all add: xs_def iov_def ys_def id_take_nth_drop)
  note rng' = rng [folded iov_def]
  have ok': "iovs_ok xs" "iovs_ok (iov # ys)" "\<And>x y. x \<in> set xs \<Longrightarrow> y \<in> set (iov # ys) \<Longrightarrow> li_end x \<le> li_start y"
    using ok unfolding dec iovs_ok_append by auto
  let ?ws = "iov_before iov start @ iov_after iov end @ ys"
  have "iovs_ok (xs @ ?ws)"
    unfolding iovs_ok_append [of xs] using ok' iov_parts_ok [OF rng' ok'(2)] by (meson order_trans)
  moreover have "iov_at (xs @ ?ws) a = (if start \<le> a \<and> a < end then None else iov_at iovs a)" for a
  proof (cases "start \<le> a \<and> a < end")
    case True
    have "iov_at xs a = None"
    proof (rule iov_at_None)
      fix x assume "x \<in> set xs"
      then show "\<not> covers x a" using ok'(3) [of x iov] rng' True by (auto simp: covers_def)
    qed
    moreover have "iov_at ys a = None"
      using ok'(2) rng' True by (intro iov_at_below [of ys "li_end iov"]) auto
    ultimately show ?thesis using True iov_parts_at(2) [OF rng', of ys a] by (simp add: iov_at_append)
  next
    case False
    then show ?thesis
      unfolding dec iov_at_append [of xs] iov_parts_at(2) [OF rng'] by (simp only: if_not_P if_False)
  qed
  moreover obtain r iovs' w' where e: "extract_range m iovs i start end w = Some (r, iovs', w')"
    and r: "r = None \<and> \<not> alloc_ok m \<or> (\<exists>bs. bs = iov_before iov start \<and> r = Some (length (xs @ bs)) \<and>
       iovs' = (xs @ bs) @ iov_in iov start end # (iov_after iov end @ ys))"
    using extract_range_cases [OF rng', of m xs ys w] unfolding lx dec [symmetric] by blast
  ultimately show ?thesis
    using r by (intro exI [of _ r] exI [of _ iovs'] exI [of _ w']) (auto simp: e iov_def [symmetric])
qed

end
