(* ===== verification/Uffd.thy ===== *)
theory Uffd
  imports LazyIov
begin

text \<open>
  The lazy pages daemon of \<^verbatim>\<open>criu/uffd.c\<close>: it fills the memory of restored tasks on page faults
  and in the background.  The \<open>daemon\<close> holds the \<^verbatim>\<open>struct lazy_pages_info\<close> blocks by address, the
  global lists of them and the outside world.  The kernel, the allocator and the page reader
  (the function pointers of \<^verbatim>\<open>struct page_read\<close>) are the parameter \<open>ukernel\<close>.
\<close>

section \<open>Data\<close>

definition DEFAULT_XFER_LEN :: u64 where "DEFAULT_XFER_LEN = 64 * 1024"
definition MAX_XFER_LEN :: u64 where "MAX_XFER_LEN = 4 * 1024 * 1024"
definition LAZY_PAGES_RESTORE_FINISHED :: u32 where "LAZY_PAGES_RESTORE_FINISHED = 0x52535446"
definition ENOENT :: int where "ENOENT = 2"
definition ESRCH :: int where "ESRCH = 3"
definition EBADF :: int where "EBADF = 9"
definition UEAGAIN :: int where "UEAGAIN = 11"
definition ENOMEM :: int where "ENOMEM = 12"
definition EEXIST :: int where "EEXIST = 17"
definition ENOSPC :: int where "ENOSPC = 28"

type_synonym lpi_ptr = nat

record lazy_pages_info =
  lpi_pid :: int
  exited :: bool
  lpi_iovs :: "lazy_iov list"
  lpi_reqs :: "lazy_iov list"
  parent :: "lpi_ptr option"
  ref_cnt :: int
  lpi_pr_open :: bool
  xfer_len :: u64
  total_pages :: u64
  copied_pages :: u64
  lpfd_fd :: int
  buf_size :: u64

datatype uffd_msg =
    Pagefault u64
  | Remove u64 u64
  | Unmap u64 u64
  | Remap u64 u64 u64
  | Fork int
  | OtherEvent

text \<open>The outcome of \<^verbatim>\<open>read\<close> on the userfault descriptor: an error with its \<^verbatim>\<open>errno\<close>, the end, a
  short read, or a message.\<close>

datatype uffd_read = ReadErr int | ReadEof | ReadShort | ReadMsg uffd_msg

text \<open>\<open>uk_copy\<close>, \<open>uk_zeropage\<close> and \<open>uk_unregister\<close> are the ioctls, with the return value, \<^verbatim>\<open>errno\<close>
  and the count the kernel stores.  \<open>pr_read_pages\<close> also gives the completions (image address and
  number of pages) that the reader delivers to \<^verbatim>\<open>io_complete\<close> before it returns.\<close>

record 'w ukernel =
  uk_alloc :: "'w alloc"
  uk_memalign :: "u64 \<Rightarrow> 'w \<Rightarrow> bool \<times> 'w"
  uk_copy :: "int \<Rightarrow> u64 \<Rightarrow> u64 \<Rightarrow> 'w \<Rightarrow> (int \<times> int \<times> int) \<times> 'w"
  uk_zeropage :: "int \<Rightarrow> u64 \<Rightarrow> u64 \<Rightarrow> 'w \<Rightarrow> (int \<times> int \<times> int) \<times> 'w"
  uk_unregister :: "int \<Rightarrow> u64 \<Rightarrow> u64 \<Rightarrow> 'w \<Rightarrow> (int \<times> int) \<times> 'w"
  uk_epoll_add :: "int \<Rightarrow> 'w \<Rightarrow> int \<times> 'w"
  uk_epoll_del :: "int \<Rightarrow> 'w \<Rightarrow> int \<times> 'w"
  uk_close :: "int \<Rightarrow> 'w \<Rightarrow> 'w"
  uk_read_msg :: "int \<Rightarrow> 'w \<Rightarrow> uffd_read \<times> 'w"
  pr_reset :: "'w \<Rightarrow> 'w"
  pr_seek :: "u64 \<Rightarrow> 'w \<Rightarrow> int \<times> 'w"
  pr_read_pages :: "u64 \<Rightarrow> u64 \<Rightarrow> 'w \<Rightarrow> (int \<times> (u64 \<times> u64) list) \<times> 'w"
  pr_close :: "'w \<Rightarrow> 'w"

record 'w daemon =
  lpi_at :: "lpi_ptr \<Rightarrow> lazy_pages_info option"
  next_lpi :: lpi_ptr
  lpis :: "lpi_ptr list"
  pending_lpis :: "lpi_ptr list"
  restore_finished :: bool
  dw :: 'w

section \<open>Operations\<close>

definition lpi_zero :: lazy_pages_info where
  "lpi_zero = \<lparr>lpi_pid = 0, exited = False, lpi_iovs = [], lpi_reqs = [], parent = None, ref_cnt = 0,
     lpi_pr_open = False, xfer_len = 0, total_pages = 0, copied_pages = 0, lpfd_fd = 0, buf_size = 0\<rparr>"

definition lpi_init :: "'w ukernel \<Rightarrow> 'w daemon \<Rightarrow> lpi_ptr option \<times> 'w daemon" where
  "lpi_init k d =
     (let (ok, w) = uk_alloc k (dw d); d = d\<lparr>dw := w\<rparr>
      in if \<not> ok then (None, d)
         else let p = next_lpi d
              in (Some p, d\<lparr>lpi_at := (lpi_at d)(p \<mapsto> lpi_zero\<lparr>xfer_len := DEFAULT_XFER_LEN, ref_cnt := 1\<rparr>),
                            next_lpi := p + 1\<rparr>))"

definition lpi_put_at :: "'w daemon \<Rightarrow> lpi_ptr \<Rightarrow> lazy_pages_info \<Rightarrow> 'w daemon" where
  "lpi_put_at d p lpi = d\<lparr>lpi_at := (lpi_at d)(p \<mapsto> lpi)\<rparr>"

definition free_iovs :: "lazy_pages_info \<Rightarrow> lazy_pages_info" where
  "free_iovs lpi = lpi\<lparr>lpi_iovs := [], lpi_reqs := []\<rparr>"

text \<open>\<open>lpi_pr_open\<close> says whether the page reader has its \<^verbatim>\<open>close\<close> function set.
  \<^verbatim>\<open>lpi_fini\<close> and \<^verbatim>\<open>lpi_put\<close> call each other up the chain of parents; \<open>n\<close> bounds its length.\<close>

fun lpi_fini :: "nat \<Rightarrow> 'w ukernel \<Rightarrow> 'w daemon \<Rightarrow> lpi_ptr \<Rightarrow> 'w daemon option" where
  "lpi_fini 0 k d p = None"
| "lpi_fini (Suc n) k d p = do {
     lpi \<leftarrow> lpi_at d p;
     let d = (if lpfd_fd lpi > 0 then d\<lparr>dw := uk_close k (lpfd_fd lpi) (dw d)\<rparr> else d);
     d \<leftarrow> (case parent lpi of
             Some q \<Rightarrow> do {
               plpi \<leftarrow> lpi_at d q;
               let plpi = plpi\<lparr>ref_cnt := ref_cnt plpi - 1\<rparr>;
               let d = lpi_put_at d q plpi;
               if ref_cnt plpi = 0 then lpi_fini n k d q else Some d }
           | None \<Rightarrow> Some (if lpi_pr_open lpi then d\<lparr>dw := pr_close k (dw d)\<rparr> else d));
     Some (d\<lparr>lpi_at := (lpi_at d)(p := None)\<rparr>) }"

definition lpi_put :: "nat \<Rightarrow> 'w ukernel \<Rightarrow> 'w daemon \<Rightarrow> lpi_ptr \<Rightarrow> 'w daemon option" where
  "lpi_put n k d p = do {
     lpi \<leftarrow> lpi_at d p;
     let lpi = lpi\<lparr>ref_cnt := ref_cnt lpi - 1\<rparr>;
     let d = lpi_put_at d p lpi;
     if ref_cnt lpi = 0 then lpi_fini n k d p else Some d }"

definition lpi_get :: "'w daemon \<Rightarrow> lpi_ptr \<Rightarrow> 'w daemon option" where
  "lpi_get d p = do {
     lpi \<leftarrow> lpi_at d p;
     Some (lpi_put_at d p (lpi\<lparr>ref_cnt := ref_cnt lpi + 1\<rparr>)) }"

definition copy_iovs ::
  "'w ukernel \<Rightarrow> lazy_pages_info \<Rightarrow> lazy_pages_info \<Rightarrow> 'w \<Rightarrow> int \<times> lazy_pages_info \<times> 'w" where
  "copy_iovs k src dst w =
     (let (ret, is, w) = copy_iov_list (uk_alloc k) (lpi_iovs src) (lpi_iovs dst) w;
          dst = dst\<lparr>lpi_iovs := is\<rparr>
      in if ret \<noteq> 0 then (- 1, free_iovs dst, w)
         else
           let (ret, rs, w) = copy_iov_list (uk_alloc k) (lpi_reqs src) (lpi_reqs dst) w;
               dst = dst\<lparr>lpi_reqs := rs\<rparr>
           in if ret \<noteq> 0 then (- 1, free_iovs dst, w)
              else
                let (rs, is) = merge_iov_lists (lpi_reqs dst) (lpi_iovs dst);
                    dst = dst\<lparr>lpi_iovs := is, lpi_reqs := rs, buf_size := buf_size src\<rparr>;
                    (ok, w) = uk_memalign k (buf_size dst) w
                in if \<not> ok then (- 1, free_iovs dst, w) else (0, dst, w))"

definition drop_iovs ::
  "'w ukernel \<Rightarrow> 'w daemon \<Rightarrow> lpi_ptr \<Rightarrow> u64 \<Rightarrow> u32 \<Rightarrow> (int \<times> 'w daemon) option" where
  "drop_iovs k d p addr len = do {
     lpi \<leftarrow> lpi_at d p;
     let (ret, is, w) = drop_iovs_loop (uk_alloc k) (lpi_iovs lpi) addr len (dw d);
     let lpi = lpi\<lparr>lpi_iovs := is\<rparr>;
     let d = (lpi_put_at d p lpi)\<lparr>dw := w\<rparr>;
     if ret \<noteq> 0 then Some (- 1, d)
     else do {
       let (ret, rs, w) = drop_iovs_loop (uk_alloc k) (lpi_reqs lpi) addr len w;
       let d = (lpi_put_at d p (lpi\<lparr>lpi_reqs := rs\<rparr>))\<lparr>dw := w\<rparr>;
       Some (if ret \<noteq> 0 then - 1 else 0, d) } }"

definition remap_iovs ::
  "'w ukernel \<Rightarrow> 'w daemon \<Rightarrow> lpi_ptr \<Rightarrow> u64 \<Rightarrow> u64 \<Rightarrow> u64 \<Rightarrow> (int \<times> 'w daemon) option" where
  "remap_iovs k d p from to len = do {
     lpi \<leftarrow> lpi_at d p;
     let (ret, is, w) = remap_iovs_list (uk_alloc k) (lpi_iovs lpi) from to len (dw d);
     let lpi = lpi\<lparr>lpi_iovs := is\<rparr>;
     let d = (lpi_put_at d p lpi)\<lparr>dw := w\<rparr>;
     if ret \<noteq> 0 then Some (- 1, d)
     else do {
       let (ret, rs, w) = remap_iovs_list (uk_alloc k) (lpi_reqs lpi) from to len w;
       let d = (lpi_put_at d p (lpi\<lparr>lpi_reqs := rs\<rparr>))\<lparr>dw := w\<rparr>;
       Some (if ret \<noteq> 0 then - 1 else 0, d) } }"

text \<open>\<^verbatim>\<open>collect_iovs\<close>.  A pagemap entry is its address, its number of pages and whether it is lazy;
  a VMA is its start and its end.  \<open>collect_vmas\<close> is the inner loop over the VMAs, which goes on
  where the previous entry stopped; \<open>mx\<close> is the C \<^verbatim>\<open>int\<close> \<open>max_iov_len\<close>.\<close>

record pagemap_entry =
  pe_vaddr :: u64
  pe_nr_pages :: u64
  pe_lazy :: bool

type_synonym vma_range = "u64 \<times> u64"

fun collect_vmas ::
  "'w alloc \<Rightarrow> u64 \<Rightarrow> u64 \<Rightarrow> vma_range list \<Rightarrow> lazy_iov list \<Rightarrow> u32 \<Rightarrow> 'w \<Rightarrow>
   bool \<times> vma_range list \<times> lazy_iov list \<times> u32 \<times> 'w" where
  "collect_vmas m start end [] iovs mx w = (True, [], iovs, mx, w)"
| "collect_vmas m start end (vma # vmas) iovs mx w =
     (if start \<ge> snd vma then collect_vmas m start end vmas iovs mx w
      else
        let (ok, w) = m w
        in if \<not> ok then (False, vma # vmas, iovs, mx, w)
           else
             let len = min end (snd vma) - start;
                 iovs = iovs @ [\<lparr>li_start = start, li_end = start + len, img_start = start\<rparr>];
                 mx = (if len > scast mx then ucast len else mx)
             in if end \<le> snd vma then (True, vma # vmas, iovs, mx, w)
                else collect_vmas m (snd vma) end vmas iovs mx w)"

fun collect_entries ::
  "'w alloc \<Rightarrow> pagemap_entry list \<Rightarrow> vma_range list \<Rightarrow> lazy_iov list \<Rightarrow> u32 \<Rightarrow> u64 \<Rightarrow> 'w \<Rightarrow>
   bool \<times> lazy_iov list \<times> u32 \<times> u64 \<times> 'w" where
  "collect_entries m [] vmas iovs mx nr w = (True, iovs, mx, nr, w)"
| "collect_entries m (pe # pes) vmas iovs mx nr w =
     (if \<not> pe_lazy pe then collect_entries m pes vmas iovs mx nr w
      else
        let (ok, vmas, iovs, mx, w) =
          collect_vmas m (pe_vaddr pe) (pe_vaddr pe + pe_nr_pages pe * 4096) vmas iovs mx w
        in if \<not> ok then (False, iovs, mx, nr + pe_nr_pages pe, w)
           else collect_entries m pes vmas iovs mx (nr + pe_nr_pages pe) w)"

definition collect_iovs ::
  "'w ukernel \<Rightarrow> lazy_pages_info \<Rightarrow> pagemap_entry list \<Rightarrow> vma_range list option \<Rightarrow> 'w \<Rightarrow>
   int \<times> lazy_pages_info \<times> 'w" where
  "collect_iovs k lpi pes mm w =
     (case mm of
        None \<Rightarrow> (- 1, lpi, w)
      | Some vmas \<Rightarrow>
          let (ok, is, mx, nr, w) = collect_entries (uk_alloc k) pes vmas (lpi_iovs lpi) 0 0 w;
              lpi = lpi\<lparr>lpi_iovs := is\<rparr>
          in if \<not> ok then (- 1, free_iovs lpi, w)
             else
               let lpi = lpi\<lparr>buf_size := scast mx\<rparr>;
                   (ok, w) = uk_memalign k (buf_size lpi) w
               in if \<not> ok then (- 1, free_iovs lpi, w)
                  else (sint (ucast nr :: u32), lpi, w))"

definition handle_exit :: "'w ukernel \<Rightarrow> 'w daemon \<Rightarrow> lpi_ptr \<Rightarrow> (int \<times> 'w daemon) option" where
  "handle_exit k d p = do {
     lpi \<leftarrow> lpi_at d p;
     let (ret, w) = uk_epoll_del k (lpfd_fd lpi) (dw d);
     let d = d\<lparr>dw := w\<rparr>;
     if ret \<noteq> 0 then Some (- 1, d)
     else do {
       let d = d\<lparr>dw := uk_close k (lpfd_fd lpi) (dw d)\<rparr>;
       let lpi = (free_iovs lpi)\<lparr>lpfd_fd := - lpfd_fd lpi, exited := True\<rparr>;
       Some (0, (lpi_put_at d p lpi)
         \<lparr>lpis := remove1 p (lpis d) @ [p], pending_lpis := remove1 p (pending_lpis d)\<rparr>) } }"

text \<open>The \<^verbatim>\<open>long\<close> count is passed on as an \<^verbatim>\<open>int\<close>.\<close>

definition uffd_recoverable_error :: "int \<Rightarrow> int \<Rightarrow> bool" where
  "uffd_recoverable_error errno rc =
     (let mcopy_rc = sint (word_of_int rc :: u32)
      in if errno = UEAGAIN \<or> errno = ENOENT \<or> errno = EEXIST then True
         else if mcopy_rc = - ENOENT \<or> mcopy_rc = - EEXIST then True
         else False)"

definition uffd_check_op_error ::
  "'w ukernel \<Rightarrow> 'w daemon \<Rightarrow> lpi_ptr \<Rightarrow> int \<Rightarrow> u64 \<Rightarrow> int \<Rightarrow> (int \<times> u64 \<times> 'w daemon) option" where
  "uffd_check_op_error k d p errno nr_pages mcopy_rc =
     (if errno = ENOSPC \<or> errno = ESRCH then do {
        (_, d) \<leftarrow> handle_exit k d p;
        Some (0, nr_pages, d) }
      else if \<not> uffd_recoverable_error errno mcopy_rc then Some (- 1, nr_pages, d)
      else Some (0, if mcopy_rc \<le> 0 then 0 else of_int (mcopy_rc div 4096), d))"

definition uffd_copy ::
  "'w ukernel \<Rightarrow> 'w daemon \<Rightarrow> lpi_ptr \<Rightarrow> u64 \<Rightarrow> u64 \<Rightarrow> (int \<times> u64 \<times> 'w daemon) option" where
  "uffd_copy k d p address nr_pages = do {
     lpi \<leftarrow> lpi_at d p;
     let ((ret, errno, copied), w) = uk_copy k (lpfd_fd lpi) address (nr_pages * 4096) (dw d);
     let d = d\<lparr>dw := w\<rparr>;
     (err, nr_pages, d) \<leftarrow>
       (if ret \<noteq> 0 then uffd_check_op_error k d p errno nr_pages copied else Some (0, nr_pages, d));
     if err \<noteq> 0 then Some (- 1, nr_pages, d)
     else do {
       lpi \<leftarrow> lpi_at d p;
       Some (0, nr_pages, lpi_put_at d p (lpi\<lparr>copied_pages := copied_pages lpi + nr_pages\<rparr>)) } }"

fun find_req :: "lazy_iov list \<Rightarrow> u64 \<Rightarrow> nat option" where
  "find_req [] img_addr = None"
| "find_req (req # rest) img_addr =
     (if img_start req = img_addr then Some 0 else map_option Suc (find_req rest img_addr))"

definition uffd_io_complete ::
  "'w ukernel \<Rightarrow> 'w daemon \<Rightarrow> lpi_ptr \<Rightarrow> u64 \<Rightarrow> u64 \<Rightarrow> (int \<times> 'w daemon) option" where
  "uffd_io_complete k d p img_addr nr = do {
     lpi \<leftarrow> lpi_at d p;
     if exited lpi then Some (0, d)
     else (case find_req (lpi_reqs lpi) img_addr of
        None \<Rightarrow> Some (0, d)
      | Some i \<Rightarrow>
          let req = lpi_reqs lpi ! i; addr = li_start req
          in if addr = 0 then Some (0, d)
             else do {
               let nr = min nr ((li_end req - li_start req) div 4096);
               (ret, nr, d) \<leftarrow> uffd_copy k d p addr nr;
               if ret < 0 then Some (ret, d)
               else do {
                 lpi \<leftarrow> lpi_at d p;
                 if exited lpi then Some (0, d)
                 else do {
                   let (moved, is) = iov_list_insert req (lpi_iovs lpi);
                   let rs = (if moved then take i (lpi_reqs lpi) @ drop (Suc i) (lpi_reqs lpi) else lpi_reqs lpi);
                   let d = lpi_put_at d p (lpi\<lparr>lpi_iovs := is, lpi_reqs := rs\<rparr>);
                   drop_iovs k d p addr (ucast (nr * 4096)) } } }) }"

definition uffd_zero ::
  "'w ukernel \<Rightarrow> 'w daemon \<Rightarrow> lpi_ptr \<Rightarrow> u64 \<Rightarrow> u64 \<Rightarrow> (int \<times> 'w daemon) option" where
  "uffd_zero k d p address nr_pages = do {
     lpi \<leftarrow> lpi_at d p;
     let ((ret, errno, zeroed), w) = uk_zeropage k (lpfd_fd lpi) address (4096 * nr_pages) (dw d);
     let d = d\<lparr>dw := w\<rparr>;
     (err, _, d) \<leftarrow>
       (if ret \<noteq> 0 then uffd_check_op_error k d p errno nr_pages zeroed else Some (0, nr_pages, d));
     Some (if err \<noteq> 0 then - 1 else 0, d) }"

definition uffd_seek_pages :: "'w ukernel \<Rightarrow> 'w daemon \<Rightarrow> u64 \<Rightarrow> int \<times> 'w daemon" where
  "uffd_seek_pages k d address =
     (let (ret, w) = pr_seek k address (pr_reset k (dw d))
      in (if ret = 0 then - 1 else 0, d\<lparr>dw := w\<rparr>))"

fun io_completions ::
  "'w ukernel \<Rightarrow> lpi_ptr \<Rightarrow> (u64 \<times> u64) list \<Rightarrow> 'w daemon \<Rightarrow> 'w daemon option" where
  "io_completions k p [] d = Some d"
| "io_completions k p ((img_addr, nr) # cs) d = do {
     (_, d) \<leftarrow> uffd_io_complete k d p img_addr nr;
     io_completions k p cs d }"

definition uffd_handle_pages ::
  "'w ukernel \<Rightarrow> 'w daemon \<Rightarrow> lpi_ptr \<Rightarrow> u64 \<Rightarrow> u64 \<Rightarrow> (int \<times> 'w daemon) option" where
  "uffd_handle_pages k d p address nr = do {
     let (ret, d) = uffd_seek_pages k d address;
     if ret \<noteq> 0 then Some (ret, d)
     else do {
       let ((ret, cs), w) = pr_read_pages k address nr (dw d);
       d \<leftarrow> io_completions k p cs (d\<lparr>dw := w\<rparr>);
       Some (if ret \<le> 0 then ret else 0, d) } }"

definition update_xfer_len :: "lazy_pages_info \<Rightarrow> bool \<Rightarrow> lazy_pages_info" where
  "update_xfer_len lpi pf =
     (let lpi = (if pf then lpi\<lparr>xfer_len := DEFAULT_XFER_LEN\<rparr>
                 else lpi\<lparr>xfer_len := xfer_len lpi + DEFAULT_XFER_LEN\<rparr>)
      in if xfer_len lpi > MAX_XFER_LEN then lpi\<lparr>xfer_len := MAX_XFER_LEN\<rparr> else lpi)"

text \<open>The part that \<^verbatim>\<open>xfer_pages\<close> and \<^verbatim>\<open>handle_page_fault\<close> share: cut the range out of the iov at
  \<open>i\<close>, queue it as the first request, update the transfer length and ask for the pages.  The
  result of \<open>queue_range\<close> is the request, if the cut succeeded.\<close>

definition queue_range ::
  "'w ukernel \<Rightarrow> 'w daemon \<Rightarrow> lpi_ptr \<Rightarrow> nat \<Rightarrow> u64 \<Rightarrow> u64 \<Rightarrow> bool \<Rightarrow>
   (lazy_iov option \<times> 'w daemon) option" where
  "queue_range k d p i start end pf = do {
     lpi \<leftarrow> lpi_at d p;
     (r, is, w) \<leftarrow> extract_range (uk_alloc k) (lpi_iovs lpi) i start end (dw d);
     let d = (lpi_put_at d p (lpi\<lparr>lpi_iovs := is\<rparr>))\<lparr>dw := w\<rparr>;
     (case r of
        None \<Rightarrow> Some (None, d)
      | Some j \<Rightarrow> do {
          iov \<leftarrow> arr_get is (int j);
          let lpi = lpi\<lparr>lpi_iovs := take j is @ drop (Suc j) is, lpi_reqs := iov # lpi_reqs lpi\<rparr>;
          Some (Some iov, lpi_put_at d p (update_xfer_len lpi pf)) }) }"

definition xfer_pages :: "'w ukernel \<Rightarrow> 'w daemon \<Rightarrow> lpi_ptr \<Rightarrow> (int \<times> 'w daemon) option" where
  "xfer_pages k d p = do {
     lpi \<leftarrow> lpi_at d p;
     iov \<leftarrow> arr_get (lpi_iovs lpi) 0;
     let len = min (li_end iov - li_start iov) (xfer_len lpi);
     (r, d) \<leftarrow> queue_range k d p 0 (li_start iov) (li_start iov + len) False;
     (case r of
        None \<Rightarrow> Some (- 1, d)
      | Some iov \<Rightarrow> do {
          (err, d) \<leftarrow> uffd_handle_pages k d p (img_start iov) ((li_end iov - li_start iov) div 4096);
          Some (if err < 0 then - 1 else 0, d) }) }"

text \<open>The length of the range goes to \<^verbatim>\<open>drop_iovs\<close> as an \<^verbatim>\<open>int\<close>.\<close>

definition handle_remove ::
  "'w ukernel \<Rightarrow> 'w daemon \<Rightarrow> lpi_ptr \<Rightarrow> bool \<Rightarrow> u64 \<Rightarrow> u64 \<Rightarrow> (int \<times> 'w daemon) option" where
  "handle_remove k d p remove start end = do {
     lpi \<leftarrow> lpi_at d p;
     let len = end - start;
     let ((ret, errno), w) = (if remove then uk_unregister k (lpfd_fd lpi) start len (dw d) else ((0, 0), dw d));
     let d = d\<lparr>dw := w\<rparr>;
     if ret \<noteq> 0 then
       if errno = ENOMEM then do { (_, d) \<leftarrow> handle_exit k d p; Some (0, d) }
       else Some (- 1, d)
     else drop_iovs k d p start (ucast len) }"

definition handle_remap ::
  "'w ukernel \<Rightarrow> 'w daemon \<Rightarrow> lpi_ptr \<Rightarrow> u64 \<Rightarrow> u64 \<Rightarrow> u64 \<Rightarrow> (int \<times> 'w daemon) option" where
  "handle_remap k d p from to len = remap_iovs k d p from to len"

text \<open>\<open>fuel\<close> bounds the chain of parents, which has at most two members.\<close>

definition handle_fork ::
  "nat \<Rightarrow> 'w ukernel \<Rightarrow> 'w daemon \<Rightarrow> lpi_ptr \<Rightarrow> int \<Rightarrow> (int \<times> 'w daemon) option" where
  "handle_fork fuel k d pp uffd = do {
     let (r, d) = lpi_init k d;
     (case r of
        None \<Rightarrow> Some (- 1, d)
      | Some p \<Rightarrow> do {
          parent_lpi \<leftarrow> lpi_at d pp;
          lpi \<leftarrow> lpi_at d p;
          let (ret, lpi, w) = copy_iovs k parent_lpi lpi (dw d);
          let d = (lpi_put_at d p lpi)\<lparr>dw := w\<rparr>;
          if ret \<noteq> 0 then do { d \<leftarrow> lpi_fini fuel k d p; Some (- 1, d) }
          else do {
            let q = (case parent parent_lpi of Some q \<Rightarrow> q | None \<Rightarrow> pp);
            qlpi \<leftarrow> lpi_at d q;
            let lpi = lpi\<lparr>lpi_pid := lpi_pid parent_lpi, lpfd_fd := uffd, parent := Some q,
              copied_pages := copied_pages qlpi, total_pages := total_pages qlpi,
              lpi_pr_open := lpi_pr_open qlpi\<rparr>;
            let d = (lpi_put_at d p lpi)\<lparr>pending_lpis := pending_lpis d @ [p]\<rparr>;
            d \<leftarrow> lpi_get d q;
            Some (1, d) } }) }"

fun complete_forks_loop ::
  "'w ukernel \<Rightarrow> lpi_ptr list \<Rightarrow> 'w daemon \<Rightarrow> (int \<times> 'w daemon) option" where
  "complete_forks_loop k [] d = Some (0, d)"
| "complete_forks_loop k (p # ps) d = do {
     lpi \<leftarrow> lpi_at d p;
     let (ret, w) = uk_epoll_add k (lpfd_fd lpi) (dw d);
     let d = d\<lparr>dw := w\<rparr>;
     if ret \<noteq> 0 then Some (- 1, d)
     else complete_forks_loop k ps
       (d\<lparr>pending_lpis := remove1 p (pending_lpis d), lpis := lpis d @ [p]\<rparr>) }"

text \<open>The array of events is reallocated to \<open>nr_fds\<close> elements.\<close>

definition complete_forks ::
  "'w ukernel \<Rightarrow> 'w daemon \<Rightarrow> nat \<Rightarrow> (int \<times> nat \<times> 'w daemon) option" where
  "complete_forks k d nr_fds =
     (if pending_lpis d = [] then Some (1, nr_fds, d)
      else do {
        let nr_fds = nr_fds + length (pending_lpis d);
        let (ok, w) = uk_alloc k (dw d);
        let d = d\<lparr>dw := w\<rparr>;
        if \<not> ok then Some (- 1, nr_fds, d)
        else do {
          (ret, d) \<leftarrow> complete_forks_loop k (pending_lpis d) d;
          Some (ret, nr_fds, d) } })"

definition is_page_queued :: "lazy_pages_info \<Rightarrow> u64 \<Rightarrow> bool" where
  "is_page_queued lpi addr = list_ex (\<lambda>req. addr \<ge> li_start req \<and> addr < li_end req) (lpi_reqs lpi)"

definition handle_page_fault ::
  "'w ukernel \<Rightarrow> 'w daemon \<Rightarrow> lpi_ptr \<Rightarrow> u64 \<Rightarrow> (int \<times> 'w daemon) option" where
  "handle_page_fault k d p addr = do {
     lpi \<leftarrow> lpi_at d p;
     let address = addr AND NOT (4096 - 1);
     if is_page_queued lpi address then Some (0, d)
     else (case find_iov (lpi_iovs lpi) address of
        None \<Rightarrow> uffd_zero k d p address 1
      | Some i \<Rightarrow> do {
          (r, d) \<leftarrow> queue_range k d p i address (address + 4096) True;
          (case r of
             None \<Rightarrow> Some (- 1, d)
           | Some iov \<Rightarrow> do {
               (ret, d) \<leftarrow> uffd_handle_pages k d p (img_start iov) 1;
               Some (if ret < 0 then - 1 else 0, d) }) }) }"

definition handle_uffd_event ::
  "nat \<Rightarrow> 'w ukernel \<Rightarrow> 'w daemon \<Rightarrow> lpi_ptr \<Rightarrow> (int \<times> 'w daemon) option" where
  "handle_uffd_event fuel k d p = do {
     lpi \<leftarrow> lpi_at d p;
     let (r, w) = uk_read_msg k (lpfd_fd lpi) (dw d);
     let d = d\<lparr>dw := w\<rparr>;
     (case r of
        ReadErr errno \<Rightarrow>
          if errno = UEAGAIN then Some (0, d)
          else if errno = EBADF \<and> exited lpi then Some (0, d)
          else Some (- 1, d)
      | ReadEof \<Rightarrow> Some (1, d)
      | ReadShort \<Rightarrow> Some (- 1, d)
      | ReadMsg (Pagefault a) \<Rightarrow> handle_page_fault k d p a
      | ReadMsg (Remove s e) \<Rightarrow> handle_remove k d p True s e
      | ReadMsg (Unmap s e) \<Rightarrow> handle_remove k d p False s e
      | ReadMsg (Remap f t l) \<Rightarrow> handle_remap k d p f t l
      | ReadMsg (Fork ufd) \<Rightarrow> handle_fork fuel k d p ufd
      | ReadMsg OtherEvent \<Rightarrow> Some (- 1, d)) }"

text \<open>One pass of \<^verbatim>\<open>handle_requests\<close> over the tasks: start the background transfer of the first task
  that has iovs and no request, and drop the tasks before it that are done.\<close>

fun requests_pass :: "nat \<Rightarrow> 'w ukernel \<Rightarrow> lpi_ptr list \<Rightarrow> 'w daemon \<Rightarrow> (int \<times> 'w daemon) option" where
  "requests_pass fuel k [] d = Some (0, d)"
| "requests_pass fuel k (p # ps) d = do {
     lpi \<leftarrow> lpi_at d p;
     if lpi_iovs lpi \<noteq> [] \<and> lpi_reqs lpi = [] then xfer_pages k d p
     else if lpi_reqs lpi = [] then do {
       d \<leftarrow> lpi_put fuel k (d\<lparr>lpis := remove1 p (lpis d)\<rparr>) p;
       requests_pass fuel k ps d }
     else requests_pass fuel k ps d }"

text \<open>One round of the loop of \<^verbatim>\<open>handle_requests\<close> after \<^verbatim>\<open>epoll_run_rfds\<close> returned \<open>ret\<close>: the result
  of the function when it is over, else the timeout of the next poll.\<close>

definition handle_requests_step ::
  "nat \<Rightarrow> 'w ukernel \<Rightarrow> 'w daemon \<Rightarrow> nat \<Rightarrow> int \<Rightarrow> int \<Rightarrow> ((int + int) \<times> nat \<times> 'w daemon) option" where
  "handle_requests_step fuel k d nr_fds poll_timeout ret =
     (if ret < 0 then Some (Inl ret, nr_fds, d)
      else do {
        (forked, nr_fds, d) \<leftarrow> (if ret > 0 then complete_forks k d nr_fds else Some (1, nr_fds, d));
        let poll_timeout = (if ret > 0 \<and> restore_finished d \<and> forked \<ge> 0 then 0 else poll_timeout);
        if forked < 0 then Some (Inl forked, nr_fds, d)
        else if ret > 0 \<and> (\<not> restore_finished d \<or> forked = 0) then Some (Inr poll_timeout, nr_fds, d)
        else do {
          (ret, d) \<leftarrow> requests_pass fuel k (lpis d) d;
          if ret < 0 then Some (Inl ret, nr_fds, d)
          else if lpis d = [] then Some (Inl ret, nr_fds, d)
          else Some (Inr poll_timeout, nr_fds, d) } })"

text \<open>The events of the socket to the restorer: the result of \<^verbatim>\<open>recv\<close> and the word it read.\<close>

definition lazy_sk_read_event :: "int \<Rightarrow> u32 \<Rightarrow> 'w daemon \<Rightarrow> int \<times> 'w daemon" where
  "lazy_sk_read_event ret fin d =
     (if ret = 0 then (0, d)
      else if ret \<noteq> 4 then (- 1, d)
      else if fin \<noteq> LAZY_PAGES_RESTORE_FINISHED then (- 1, d)
      else (1, d\<lparr>restore_finished := True\<rparr>))"

definition lazy_sk_hangup_event :: "'w daemon \<Rightarrow> int" where
  "lazy_sk_hangup_event d = (if \<not> restore_finished d then - 1 else 0)"

section \<open>Page faults\<close>

definition page_aligned :: "u64 \<Rightarrow> bool" where
  "page_aligned a \<longleftrightarrow> 4096 dvd unat a"

definition iovs_aligned :: "lazy_iov list \<Rightarrow> bool" where
  "iovs_aligned iovs \<longleftrightarrow> (\<forall>i \<in> set iovs. page_aligned (li_start i) \<and> page_aligned (li_end i))"

lemma page_of: "page_aligned (a AND NOT (4096 - 1))" and page_of_eq: "unat (a AND NOT (4096 - 1)) = unat a - unat a mod 4096"
proof -
  have m: "4096 - 1 = (mask 12 :: u64)" by (simp add: mask_eq_exp_minus_1)
  show eq: "unat (a AND NOT (4096 - 1)) = unat a - unat a mod 4096"
    unfolding m unat_and_not_mask by simp
  show "page_aligned (a AND NOT (4096 - 1))" unfolding page_aligned_def eq by (simp add: dvd_minus_mod)
qed

lemma page_fits:
  assumes "page_aligned a" and "page_aligned b" and "a < b"
  shows "a + 4096 \<le> b" and "a < a + 4096"
proof -
  have "unat a + 4096 \<le> unat b"
    using assms by (auto simp: page_aligned_def word_less_nat_alt elim!: dvdE)
  moreover from this have "unat (a + 4096) = unat a + 4096"
    using unat_lt_u64 [of b] by (subst unat_plus_eq) simp_all
  ultimately show "a + 4096 \<le> b" "a < a + 4096" by (simp_all add: word_le_nat_alt word_less_nat_alt)
qed

lemma queue_range_correct:
  assumes lpi: "lpi_at d p = Some lpi" and ok: "iovs_ok (lpi_iovs lpi)" and i: "i < length (lpi_iovs lpi)"
    and rng: "li_start (lpi_iovs lpi ! i) \<le> start" "start < end" "end \<le> li_end (lpi_iovs lpi ! i)"
  shows "\<exists>r d'. queue_range k d p i start end pf = Some (r, d') \<and>
    (r = None \<and> \<not> alloc_ok (uk_alloc k) \<or>
     (\<exists>lpi'. r = Some (iov_in (lpi_iovs lpi ! i) start end) \<and> lpi_at d' p = Some (update_xfer_len lpi' pf) \<and>
        lpi_reqs lpi' = iov_in (lpi_iovs lpi ! i) start end # lpi_reqs lpi \<and> iovs_ok (lpi_iovs lpi') \<and>
        (\<forall>a. iov_at (lpi_iovs lpi') a = (if start \<le> a \<and> a < end then None else iov_at (lpi_iovs lpi) a))))"
proof -
  obtain r es w where e: "extract_range (uk_alloc k) (lpi_iovs lpi) i start end (dw d) = Some (r, es, w)"
    and r: "r = None \<and> \<not> alloc_ok (uk_alloc k) \<or> (\<exists>j. r = Some j \<and> j < length es \<and> es ! j = iov_in (lpi_iovs lpi ! i) start end \<and>
       iovs_ok (take j es @ drop (Suc j) es) \<and>
       (\<forall>a. iov_at (take j es @ drop (Suc j) es) a = (if start \<le> a \<and> a < end then None else iov_at (lpi_iovs lpi) a)))"
    using extract_range_correct [OF ok i rng, of "uk_alloc k" "dw d"] by blast
  from r show ?thesis
  proof
    assume "r = None \<and> \<not> alloc_ok (uk_alloc k)"
    then show ?thesis by (simp add: queue_range_def lpi e Let_def)
  next
    assume "\<exists>j. r = Some j \<and> j < length es \<and> es ! j = iov_in (lpi_iovs lpi ! i) start end \<and>
       iovs_ok (take j es @ drop (Suc j) es) \<and>
       (\<forall>a. iov_at (take j es @ drop (Suc j) es) a = (if start \<le> a \<and> a < end then None else iov_at (lpi_iovs lpi) a))"
    then obtain j where j: "r = Some j" "j < length es" "es ! j = iov_in (lpi_iovs lpi ! i) start end"
      "iovs_ok (take j es @ drop (Suc j) es)"
      "\<forall>a. iov_at (take j es @ drop (Suc j) es) a = (if start \<le> a \<and> a < end then None else iov_at (lpi_iovs lpi) a)"
      by blast
    define lpi' where "lpi' = lpi\<lparr>lpi_iovs := take j es @ drop (Suc j) es,
      lpi_reqs := iov_in (lpi_iovs lpi ! i) start end # lpi_reqs lpi\<rparr>"
    have "queue_range k d p i start end pf =
      Some (Some (iov_in (lpi_iovs lpi ! i) start end),
        lpi_put_at ((lpi_put_at d p (lpi\<lparr>lpi_iovs := es\<rparr>))\<lparr>dw := w\<rparr>) p (update_xfer_len lpi' pf))"
      using j(1-3) by (simp add: queue_range_def lpi e arr_get_nat Let_def lpi'_def)
    then show ?thesis using j by (auto simp: lpi'_def lpi_put_at_def intro!: exI [of _ lpi'])
  qed
qed

lemma handle_page_fault_queues_lemma:
  assumes lpi: "lpi_at d p = Some lpi" and ok: "iovs_ok (lpi_iovs lpi)" "iovs_aligned (lpi_iovs lpi)"
    and page: "page = addr AND NOT (4096 - 1)"
    and nq: "\<not> is_page_queued lpi page" and at: "iov_at (lpi_iovs lpi) page = Some img"
    and m: "alloc_ok (uk_alloc k)"
  shows "\<exists>d' lpi'. lpi_at d' p = Some lpi' \<and>
    lpi_reqs lpi' = \<lparr>li_start = page, li_end = page + 4096, img_start = img\<rparr> # lpi_reqs lpi \<and>
    iovs_ok (lpi_iovs lpi') \<and>
    (\<forall>a. iov_at (lpi_iovs lpi') a = (if page \<le> a \<and> a < page + 4096 then None else iov_at (lpi_iovs lpi) a)) \<and>
    xfer_len lpi' = DEFAULT_XFER_LEN \<and>
    handle_page_fault k d p addr = do {
      (ret, d) \<leftarrow> uffd_handle_pages k d' p img 1;
      Some (if ret < 0 then - 1 else 0, d) }"
proof -
  from find_iov_correct [of "lpi_iovs lpi" page] at obtain i where f: "find_iov (lpi_iovs lpi) page = Some i"
    and i: "i < length (lpi_iovs lpi)" and cov: "covers (lpi_iovs lpi ! i) page"
    and img: "img = img_start (lpi_iovs lpi ! i) + (page - li_start (lpi_iovs lpi ! i))"
    by (auto split: option.splits)
  have "page_aligned (li_end (lpi_iovs lpi ! i))" using ok(2) i by (simp add: iovs_aligned_def)
  with cov page_of [of addr] page have fit: "page + 4096 \<le> li_end (lpi_iovs lpi ! i)" "page < page + 4096"
    using page_fits [of page "li_end (lpi_iovs lpi ! i)"] by (simp_all add: covers_def)
  have st: "li_start (lpi_iovs lpi ! i) \<le> page" using cov by (simp add: covers_def)
  have rq: "iov_in (lpi_iovs lpi ! i) page (page + 4096) = \<lparr>li_start = page, li_end = page + 4096, img_start = img\<rparr>"
    by (simp add: iov_in_def img)
  obtain d' lpi' where q: "queue_range k d p i page (page + 4096) True =
      Some (Some \<lparr>li_start = page, li_end = page + 4096, img_start = img\<rparr>, d')"
    and l: "lpi_at d' p = Some (update_xfer_len lpi' True)"
      "lpi_reqs lpi' = \<lparr>li_start = page, li_end = page + 4096, img_start = img\<rparr> # lpi_reqs lpi"
      "iovs_ok (lpi_iovs lpi')"
      "\<forall>a. iov_at (lpi_iovs lpi') a = (if page \<le> a \<and> a < page + 4096 then None else iov_at (lpi_iovs lpi) a)"
    using queue_range_correct [OF lpi ok(1) i st fit(2,1), of k True] m unfolding rq by blast
  have "handle_page_fault k d p addr = do {
      (ret, d) \<leftarrow> uffd_handle_pages k d' p img 1;
      Some (if ret < 0 then - 1 else 0, d) }"
    unfolding handle_page_fault_def page [symmetric] Let_def using lpi nq f q by simp
  with l show ?thesis
    by (intro exI [of _ d'] exI [of _ "update_xfer_len lpi' True"])
       (simp add: update_xfer_len_def DEFAULT_XFER_LEN_def MAX_XFER_LEN_def)
qed

section \<open>Unmapping and moving memory\<close>

lemma drop_iovs_correct:
  assumes lpi: "lpi_at d p = Some lpi" and ok: "iovs_ok (lpi_iovs lpi)" "iovs_ok (lpi_reqs lpi)"
    and len: "0 \<le> sint len" "unat addr + nat (sint len) < 2 ^ 64" and m: "alloc_ok (uk_alloc k)"
  shows "\<exists>d' lpi'. drop_iovs k d p addr len = Some (0, d') \<and> lpi_at d' p = Some lpi' \<and>
    drop_spec (lpi_iovs lpi) addr (nat (sint len)) (lpi_iovs lpi') \<and>
    drop_spec (lpi_reqs lpi) addr (nat (sint len)) (lpi_reqs lpi')"
proof -
  obtain es w1 where e: "drop_iovs_loop (uk_alloc k) (lpi_iovs lpi) addr len (dw d) = (0, es, w1)"
    "drop_spec (lpi_iovs lpi) addr (nat (sint len)) es"
    using drop_iovs_loop_correct [OF ok(1) len, of "uk_alloc k" "dw d"] m by auto
  obtain rs w2 where r: "drop_iovs_loop (uk_alloc k) (lpi_reqs lpi) addr len w1 = (0, rs, w2)"
    "drop_spec (lpi_reqs lpi) addr (nat (sint len)) rs"
    using drop_iovs_loop_correct [OF ok(2) len, of "uk_alloc k" w1] m by auto
  show ?thesis using e r lpi by (simp add: drop_iovs_def lpi_put_at_def Let_def)
qed

lemma remap_iovs_correct:
  assumes lpi: "lpi_at d p = Some lpi" and ok: "iovs_ok (lpi_iovs lpi)" "iovs_ok (lpi_reqs lpi)"
    and fr: "unat from + unat len < 2 ^ 64" and to: "unat to + unat len < 2 ^ 64"
    and free: "\<And>a. to \<le> a \<Longrightarrow> unat a < unat to + unat len \<Longrightarrow> iov_at (lpi_iovs lpi) a = None \<and> iov_at (lpi_reqs lpi) a = None"
    and m: "alloc_ok (uk_alloc k)"
  shows "\<exists>d' lpi'. remap_iovs k d p from to len = Some (0, d') \<and> lpi_at d' p = Some lpi' \<and>
    iovs_ok (lpi_iovs lpi') \<and> iovs_ok (lpi_reqs lpi') \<and>
    (\<forall>a. iov_at (lpi_iovs lpi') a =
       (if to \<le> a \<and> unat a < unat to + unat len then iov_at (lpi_iovs lpi) (a - to + from)
        else if from \<le> a \<and> unat a < unat from + unat len then None else iov_at (lpi_iovs lpi) a)) \<and>
    (\<forall>a. iov_at (lpi_reqs lpi') a =
       (if to \<le> a \<and> unat a < unat to + unat len then iov_at (lpi_reqs lpi) (a - to + from)
        else if from \<le> a \<and> unat a < unat from + unat len then None else iov_at (lpi_reqs lpi) a))"
proof -
  obtain es w1 where e: "remap_iovs_list (uk_alloc k) (lpi_iovs lpi) from to len (dw d) = (0, es, w1)" "iovs_ok es"
    "\<forall>a. iov_at es a = (if to \<le> a \<and> unat a < unat to + unat len then iov_at (lpi_iovs lpi) (a - to + from)
        else if from \<le> a \<and> unat a < unat from + unat len then None else iov_at (lpi_iovs lpi) a)"
    using remap_iovs_list_correct [OF ok(1) fr to, of "uk_alloc k" "dw d"] free m by blast
  obtain rs w2 where r: "remap_iovs_list (uk_alloc k) (lpi_reqs lpi) from to len w1 = (0, rs, w2)" "iovs_ok rs"
    "\<forall>a. iov_at rs a = (if to \<le> a \<and> unat a < unat to + unat len then iov_at (lpi_reqs lpi) (a - to + from)
        else if from \<le> a \<and> unat a < unat from + unat len then None else iov_at (lpi_reqs lpi) a)"
    using remap_iovs_list_correct [OF ok(2) fr to, of "uk_alloc k" w1] free m by blast
  show ?thesis using e r lpi by (simp add: remap_iovs_def lpi_put_at_def Let_def)
qed

end
