(* ===== verification/UffdProps.thy ===== *)
theory UffdProps
  imports Uffd
begin

text \<open>
  What the lazy pages daemon of \<^verbatim>\<open>criu/uffd.c\<close> promises: the set of addresses that are still to be
  filled follows the events of the task, and each of them keeps the image address of its data.
\<close>

section \<open>A kernel for the witnesses\<close>

text \<open>Every call succeeds and pages arrive later; the world is the list of pages that were filled
  with zeroes.\<close>

definition demo_ukernel :: "u64 list ukernel" where
  "demo_ukernel = \<lparr>
     uk_alloc = (\<lambda>w. (True, w)),
     uk_memalign = (\<lambda>n w. (True, w)),
     uk_copy = (\<lambda>fd dst len w. ((0, 0, 0), w)),
     uk_zeropage = (\<lambda>fd dst len w. ((0, 0, 0), w @ [dst])),
     uk_unregister = (\<lambda>fd start len w. ((0, 0), w)),
     uk_epoll_add = (\<lambda>fd w. (0, w)),
     uk_epoll_del = (\<lambda>fd w. (0, w)),
     uk_close = (\<lambda>fd w. w),
     uk_read_msg = (\<lambda>fd w. (ReadEof, w)),
     pr_reset = (\<lambda>w. w),
     pr_seek = (\<lambda>a w. (1, w)),
     pr_read_pages = (\<lambda>a n w. ((1, []), w)),
     pr_close = (\<lambda>w. w)\<rparr>"

definition demo_lpi :: lazy_pages_info where
  "demo_lpi = lpi_zero\<lparr>lpi_iovs := [\<lparr>li_start = 0x1000, li_end = 0x2000, img_start = 0x1000\<rparr>,
     \<lparr>li_start = 0x5000, li_end = 0x6000, img_start = 0x5000\<rparr>], lpfd_fd := 7\<rparr>"

definition demo_daemon :: "u64 list daemon" where
  "demo_daemon = \<lparr>lpi_at = [0 \<mapsto> demo_lpi], next_lpi = 1, lpis = [0], pending_lpis = [],
     restore_finished = True, dw = []\<rparr>"

lemma alloc_ok_demo: "alloc_ok (uk_alloc demo_ukernel)"
  by (simp add: alloc_ok_def demo_ukernel_def)

section \<open>Forking\<close>

lemma copy_iov_list_ok:
  assumes "alloc_ok m"
  shows "\<exists>w'. copy_iov_list m src dst w = (0, dst @ src, w')"
proof (induction src arbitrary: dst w)
  case (Cons iov src)
  obtain w1 where m: "m w = (True, w1)" using alloc_ok_step [OF assms] by blast
  have iov: "\<lparr>li_start = li_start iov, li_end = li_end iov, img_start = img_start iov\<rparr> = iov" by simp
  from Cons.IH [of "dst @ [iov]" w1] show ?case by (simp add: m) (simp only: iov)
qed simp

lemma copy_iovs_correct:
  assumes m: "alloc_ok (uk_alloc k)" "\<forall>n w. fst (uk_memalign k n w)"
    and ok: "iovs_ok (lpi_iovs src)" "iovs_apart (lpi_reqs src)"
    and ap: "\<And>i j. i \<in> set (lpi_reqs src) \<Longrightarrow> j \<in> set (lpi_iovs src) \<Longrightarrow> apart i j"
    and dst: "lpi_iovs dst = []" "lpi_reqs dst = []"
  shows "\<exists>dst' w'. copy_iovs k src dst w = (0, dst', w') \<and> lpi_reqs dst' = [] \<and> iovs_ok (lpi_iovs dst') \<and>
    buf_size dst' = buf_size src \<and>
    (\<forall>a. iov_at (lpi_iovs dst') a =
       (case iov_at (lpi_reqs src) a of None \<Rightarrow> iov_at (lpi_iovs src) a | Some v \<Rightarrow> Some v))"
proof -
  obtain w1 where c1: "copy_iov_list (uk_alloc k) (lpi_iovs src) [] w = (0, lpi_iovs src, w1)"
    using copy_iov_list_ok [OF m(1), of "lpi_iovs src" "[]" w] by auto
  obtain w2 where c2: "copy_iov_list (uk_alloc k) (lpi_reqs src) [] w1 = (0, lpi_reqs src, w2)"
    using copy_iov_list_ok [OF m(1), of "lpi_reqs src" "[]" w1] by auto
  obtain es where mg: "merge_iov_lists (lpi_reqs src) (lpi_iovs src) = ([], es)" "iovs_ok es"
    "\<forall>a. iov_at es a = (case iov_at (lpi_reqs src) a of None \<Rightarrow> iov_at (lpi_iovs src) a | Some v \<Rightarrow> Some v)"
    using merge_iov_lists_correct [OF ok(1,2) ap] by blast
  obtain w3 where w3: "uk_memalign k (buf_size src) w2 = (True, w3)"
    using m(2) by (cases "uk_memalign k (buf_size src) w2") (metis fst_conv)
  show ?thesis
    using dst c1 c2 mg w3 by (simp add: copy_iovs_def)
qed

section \<open>Collecting the lazy memory\<close>

fun vmas_ok :: "vma_range list \<Rightarrow> bool" where
  "vmas_ok [] = True"
| "vmas_ok (v # vs) = (fst v < snd v \<and> (\<forall>u \<in> set vs. snd v \<le> fst u) \<and> vmas_ok vs)"

definition in_vma :: "lazy_iov \<Rightarrow> vma_range \<Rightarrow> bool" where
  "in_vma iov v \<longleftrightarrow> fst v \<le> li_start iov \<and> li_end iov \<le> snd v"

definition tiles :: "u64 \<Rightarrow> u64 \<Rightarrow> vma_range list \<Rightarrow> lazy_iov list \<Rightarrow> bool" where
  "tiles start end vmas new \<longleftrightarrow> iovs_ok new \<and>
     (\<forall>a. iov_at new a = (if start \<le> a \<and> a < end then Some a else None)) \<and>
     (\<forall>i \<in> set new. start \<le> li_start i \<and> li_end i \<le> end \<and> (\<exists>v \<in> set vmas. in_vma i v))"

lemma collect_vmas_correct:
  assumes "alloc_ok m" and "vmas_ok vmas" and "start < end"
    and "\<And>a. start \<le> a \<Longrightarrow> a < end \<Longrightarrow> \<exists>v \<in> set vmas. fst v \<le> a \<and> a < snd v"
  shows "\<exists>vmas' new mx' w'. collect_vmas m start end vmas iovs mx w = (True, vmas', iovs @ new, mx', w') \<and>
    vmas_ok vmas' \<and> set vmas' \<subseteq> set vmas \<and> (\<forall>v \<in> set vmas. end < snd v \<longrightarrow> v \<in> set vmas') \<and>
    tiles start end vmas new"
  using assms(2-4)
proof (induction vmas arbitrary: start iovs mx w)
  case Nil
  then show ?case by force
next
  case (Cons v vs)
  have vs: "vmas_ok vs" "\<And>u. u \<in> set vs \<Longrightarrow> snd v \<le> fst u" using Cons.prems(1) by auto
  show ?case
  proof (cases "start \<ge> snd v")
    case True
    have "\<exists>u \<in> set vs. fst u \<le> a \<and> a < snd u" if "start \<le> a" "a < end" for a
      using Cons.prems(3) [OF that] that True by (auto simp: not_less dest: order.trans leD)
    from Cons.IH [OF vs(1) Cons.prems(2) this, of iovs mx w] True Cons.prems(2) show ?thesis
      by (fastforce simp: tiles_def)
  next
    case False
    obtain w1 where m: "m w = (True, w1)" using alloc_ok_step [OF assms(1)] by blast
    obtain u where "u \<in> set (v # vs)" "fst u \<le> start" using Cons.prems(2) Cons.prems(3) [of start] by blast
    then have st: "fst v \<le> start" using vs(2) [of u] False by (auto dest: order.trans)
    define fin where "fin = min end (snd v)"
    let ?i = "\<lparr>li_start = start, li_end = fin, img_start = start\<rparr>"
    have i: "start < fin" "in_vma ?i v" "\<And>a. covers ?i a \<longleftrightarrow> start \<le> a \<and> a < fin"
      using False Cons.prems(2) st by (auto simp: fin_def in_vma_def covers_def)
    let ?mx = "if fin - start > scast mx then ucast (fin - start) else mx"
    have step: "collect_vmas m start end (v # vs) iovs mx w =
      (if end \<le> snd v then (True, v # vs, iovs @ [?i], ?mx, w1)
       else collect_vmas m (snd v) end vs (iovs @ [?i]) ?mx w1)"
      using False m by (simp add: Let_def fin_def)
    show ?thesis
    proof (cases "end \<le> snd v")
      case True
      then have "fin = end" by (simp add: fin_def)
      then have "tiles start end (v # vs) [?i]" using i by (auto simp: tiles_def)
      then show ?thesis unfolding step using True Cons.prems(1) by auto
    next
      case gt: False
      then have fin: "fin = snd v" "snd v < end" by (auto simp: fin_def)
      have "\<exists>u \<in> set vs. fst u \<le> a \<and> a < snd u" if "snd v \<le> a" "a < end" for a
        using Cons.prems(3) [of a] that i(1) fin by fastforce
      from Cons.IH [OF vs(1) fin(2) this, of "iovs @ [?i]" ?mx w1] obtain vmas' new mx' w'
        where l: "collect_vmas m (snd v) end vs (iovs @ [?i]) ?mx w1 = (True, vmas', (iovs @ [?i]) @ new, mx', w')"
          "vmas_ok vmas'" "set vmas' \<subseteq> set vs" "\<forall>u \<in> set vs. end < snd u \<longrightarrow> u \<in> set vmas'" "tiles (snd v) end vs new"
        by blast
      have "tiles start end (v # vs) (?i # new)"
        using l(5) i fin unfolding tiles_def
        by (auto simp: not_less not_le dest: order.strict_implies_order order.trans)
      then show ?thesis unfolding step using gt fin(2) l by (auto simp: not_less)
    qed
  qed
qed

definition pe_end :: "pagemap_entry \<Rightarrow> u64" where
  "pe_end pe = pe_vaddr pe + pe_nr_pages pe * 4096"

text \<open>The entries of a pagemap follow each other, are not empty and lie in VMAs.\<close>

fun pes_ok :: "pagemap_entry list \<Rightarrow> bool" where
  "pes_ok [] = True"
| "pes_ok (pe # pes) = (pe_vaddr pe < pe_end pe \<and> (\<forall>q \<in> set pes. pe_end pe \<le> pe_vaddr q) \<and> pes_ok pes)"

definition pes_mapped :: "pagemap_entry list \<Rightarrow> vma_range list \<Rightarrow> bool" where
  "pes_mapped pes vmas \<longleftrightarrow>
     (\<forall>pe \<in> set pes. \<forall>a. pe_vaddr pe \<le> a \<and> a < pe_end pe \<longrightarrow> (\<exists>v \<in> set vmas. fst v \<le> a \<and> a < snd v))"

definition lazy_addr :: "pagemap_entry list \<Rightarrow> u64 \<Rightarrow> bool" where
  "lazy_addr pes a \<longleftrightarrow> (\<exists>pe \<in> set pes. pe_lazy pe \<and> pe_vaddr pe \<le> a \<and> a < pe_end pe)"

lemma collect_entries_correct:
  assumes "alloc_ok m" and "vmas_ok vmas" and "pes_ok pes" and "pes_mapped pes vmas"
  shows "\<exists>new mx' nr' w'. collect_entries m pes vmas iovs mx nr w = (True, iovs @ new, mx', nr', w') \<and>
    iovs_ok new \<and> (\<forall>a. iov_at new a = (if lazy_addr pes a then Some a else None)) \<and>
    (\<forall>i \<in> set new. \<exists>v \<in> set vmas. in_vma i v) \<and> (\<forall>i \<in> set new. \<exists>pe \<in> set pes. pe_vaddr pe \<le> li_start i)"
  using assms(2-4)
proof (induction pes arbitrary: vmas iovs mx nr w)
  case Nil
  then show ?case by (simp add: lazy_addr_def)
next
  case (Cons pe pes)
  have pes: "pes_ok pes" "pes_mapped pes vmas" using Cons.prems by (auto simp: pes_mapped_def)
  show ?case
  proof (cases "pe_lazy pe")
    case False
    then have "lazy_addr (pe # pes) a = lazy_addr pes a" for a by (simp add: lazy_addr_def)
    with Cons.IH [OF Cons.prems(1) pes, of iovs mx nr w] False show ?thesis by fastforce
  next
    case True
    have "pe_vaddr pe < pe_end pe" using Cons.prems(2) by simp
    from collect_vmas_correct [OF assms(1) Cons.prems(1) this, of iovs mx w] Cons.prems(3)
    obtain vmas' new mx' w' where l: "collect_vmas m (pe_vaddr pe) (pe_end pe) vmas iovs mx w = (True, vmas', iovs @ new, mx', w')"
      "vmas_ok vmas'" "set vmas' \<subseteq> set vmas" "\<forall>v \<in> set vmas. pe_end pe < snd v \<longrightarrow> v \<in> set vmas'"
      and tl: "tiles (pe_vaddr pe) (pe_end pe) vmas new"
      unfolding pes_mapped_def by (metis list.set_intros(1))
    have "pes_mapped pes vmas'"
      unfolding pes_mapped_def
    proof (intro ballI allI impI)
      fix q a assume "q \<in> set pes" "pe_vaddr q \<le> a \<and> a < pe_end q"
      moreover from this Cons.prems(2) have "pe_end pe \<le> a" by (auto dest: order.trans)
      moreover from calculation obtain v where "v \<in> set vmas" "fst v \<le> a" "a < snd v"
        using pes(2) unfolding pes_mapped_def by blast
      ultimately show "\<exists>v \<in> set vmas'. fst v \<le> a \<and> a < snd v" using l(4) by (meson le_less_trans)
    qed
    from Cons.IH [OF l(2) pes(1) this, of "iovs @ new" mx' "nr + pe_nr_pages pe" w'] obtain new2 mx2 nr2 w2
      where l2: "collect_entries m pes vmas' (iovs @ new) mx' (nr + pe_nr_pages pe) w' = (True, (iovs @ new) @ new2, mx2, nr2, w2)"
        "iovs_ok new2" "\<forall>a. iov_at new2 a = (if lazy_addr pes a then Some a else None)"
        "\<forall>i \<in> set new2. \<exists>v \<in> set vmas'. in_vma i v" "\<forall>i \<in> set new2. \<exists>q \<in> set pes. pe_vaddr q \<le> li_start i"
      by blast
    have "li_end i \<le> li_start j" if "i \<in> set new" "j \<in> set new2" for i j
    proof -
      obtain q where "q \<in> set pes" "pe_vaddr q \<le> li_start j" using l2(5) \<open>j \<in> set new2\<close> by blast
      moreover have "li_end i \<le> pe_end pe" using tl that(1) by (simp add: tiles_def)
      ultimately show ?thesis using Cons.prems(2) by (auto dest: order.trans)
    qed
    then have ok: "iovs_ok (new @ new2)" using tl l2(2) by (simp add: iovs_ok_append tiles_def)
    have at: "iov_at (new @ new2) a = (if lazy_addr (pe # pes) a then Some a else None)" for a
      using tl l2(3) True unfolding iov_at_append tiles_def lazy_addr_def by auto
    have vm: "\<exists>v \<in> set vmas. in_vma i v" if "i \<in> set (new @ new2)" for i
    proof (cases "i \<in> set new")
      case True
      then show ?thesis using tl by (auto simp: tiles_def)
    next
      case False
      then have "\<exists>v \<in> set vmas'. in_vma i v" using that l2(4) by simp
      then show ?thesis using l(3) by blast
    qed
    have st: "\<exists>q \<in> set (pe # pes). pe_vaddr q \<le> li_start i" if "i \<in> set (new @ new2)" for i
      using that tl l2(5) by (auto simp: tiles_def)
    have "collect_entries m (pe # pes) vmas iovs mx nr w = (True, iovs @ (new @ new2), mx2, nr2, w2)"
      using True l(1) l2(1) by (simp add: pe_end_def)
    with ok at vm st show ?thesis by blast
  qed
qed

section \<open>Properties\<close>

text \<open>C8: a fault on a page that is still to be filled and not yet requested cuts exactly that page
  out of the iovs, puts it first on the requests with the image address of its data, resets the
  background transfer length, and asks the page reader for that image address.\<close>

theorem handle_page_fault_queues:
  assumes "lpi_at d p = Some lpi" and "iovs_ok (lpi_iovs lpi)" and "iovs_aligned (lpi_iovs lpi)"
    and "page = addr AND NOT (4096 - 1)" and "\<not> is_page_queued lpi page"
    and "iov_at (lpi_iovs lpi) page = Some img" and "alloc_ok (uk_alloc k)"
  shows "\<exists>d' lpi'. lpi_at d' p = Some lpi' \<and>
    lpi_reqs lpi' = \<lparr>li_start = page, li_end = page + 4096, img_start = img\<rparr> # lpi_reqs lpi \<and>
    iovs_ok (lpi_iovs lpi') \<and>
    (\<forall>a. iov_at (lpi_iovs lpi') a = (if page \<le> a \<and> a < page + 4096 then None else iov_at (lpi_iovs lpi) a)) \<and>
    xfer_len lpi' = DEFAULT_XFER_LEN \<and>
    handle_page_fault k d p addr = do {
      (ret, d) \<leftarrow> uffd_handle_pages k d' p img 1;
      Some (if ret < 0 then - 1 else 0, d) }"
  by (rule handle_page_fault_queues_lemma [OF assms])

theorem handle_page_fault_queues_witness:
  "\<exists>d' lpi'. lpi_at d' 0 = Some lpi' \<and>
    lpi_reqs lpi' = \<lparr>li_start = 0x5000, li_end = 0x5000 + 4096, img_start = 0x5000\<rparr> # lpi_reqs demo_lpi \<and>
    iovs_ok (lpi_iovs lpi') \<and>
    (\<forall>a. iov_at (lpi_iovs lpi') a = (if 0x5000 \<le> a \<and> a < 0x5000 + 4096 then None else iov_at (lpi_iovs demo_lpi) a)) \<and>
    xfer_len lpi' = DEFAULT_XFER_LEN \<and>
    handle_page_fault demo_ukernel demo_daemon 0 0x5008 = do {
      (ret, d) \<leftarrow> uffd_handle_pages demo_ukernel d' 0 0x5000 1;
      Some (if ret < 0 then - 1 else 0, d) }"
  by (rule handle_page_fault_queues [OF _ _ _ _ _ _ alloc_ok_demo])
     (simp_all add: demo_daemon_def demo_lpi_def lpi_zero_def is_page_queued_def covers_def iovs_aligned_def page_aligned_def)

text \<open>C7: unmapping a range shorter than 2 GiB removes exactly its addresses from the memory to be
  filled and from the requests in flight, and every other address keeps its image address, when
  both lists are sorted.\<close>

theorem handle_unmap_exact:
  assumes lpi: "lpi_at d p = Some lpi" "iovs_ok (lpi_iovs lpi)" "iovs_ok (lpi_reqs lpi)"
    and len: "start \<le> end" "unat (end - start) < 2 ^ 31" and m: "alloc_ok (uk_alloc k)"
  shows "\<exists>d' lpi'. handle_remove k d p False start end = Some (0, d') \<and> lpi_at d' p = Some lpi' \<and>
    iovs_ok (lpi_iovs lpi') \<and> iovs_ok (lpi_reqs lpi') \<and>
    (\<forall>a. iov_at (lpi_iovs lpi') a = (if start \<le> a \<and> a < end then None else iov_at (lpi_iovs lpi) a)) \<and>
    (\<forall>a. iov_at (lpi_reqs lpi') a = (if start \<le> a \<and> a < end then None else iov_at (lpi_reqs lpi) a))"
proof -
  have n: "nat (sint (ucast (end - start) :: u32)) = unat end - unat start" "0 \<le> sint (ucast (end - start) :: u32)"
    using trunc_small(1) [OF len(2)] unat_sub [OF len(1)] by simp_all
  have le: "unat start + (unat end - unat start) = unat end" using len(1) by (simp add: word_le_nat_alt)
  have fit: "unat start + nat (sint (ucast (end - start) :: u32)) < 2 ^ 64"
    unfolding n(1) le by (rule unat_lt_u64)
  have in_range: "(start \<le> a \<and> unat a < unat end) = (start \<le> a \<and> a < end)" for a
    by (simp add: word_less_nat_alt)
  show ?thesis
    using drop_iovs_correct [OF lpi n(2) fit m] lpi(1)
    unfolding n(1) drop_spec_def le in_range by (auto simp: handle_remove_def)
qed

theorem handle_unmap_exact_witness:
  "\<exists>d' lpi'. handle_remove demo_ukernel demo_daemon 0 False 0x1000 0x2000 = Some (0, d') \<and> lpi_at d' 0 = Some lpi' \<and>
    iovs_ok (lpi_iovs lpi') \<and> iovs_ok (lpi_reqs lpi') \<and>
    (\<forall>a. iov_at (lpi_iovs lpi') a = (if 0x1000 \<le> a \<and> a < 0x2000 then None else iov_at (lpi_iovs demo_lpi) a)) \<and>
    (\<forall>a. iov_at (lpi_reqs lpi') a = (if 0x1000 \<le> a \<and> a < 0x2000 then None else iov_at (lpi_reqs demo_lpi) a))"
  by (rule handle_unmap_exact [OF _ _ _ _ _ alloc_ok_demo])
     (simp_all add: demo_daemon_def demo_lpi_def lpi_zero_def)

text \<open>C6: moving a range to a place where nothing is to be filled moves exactly its addresses, with
  their image addresses, on both lists, when both are sorted.\<close>

theorem handle_remap_exact:
  assumes "lpi_at d p = Some lpi" and "iovs_ok (lpi_iovs lpi)" and "iovs_ok (lpi_reqs lpi)"
    and "unat from + unat len < 2 ^ 64" and "unat to + unat len < 2 ^ 64"
    and "\<And>a. to \<le> a \<Longrightarrow> unat a < unat to + unat len \<Longrightarrow> iov_at (lpi_iovs lpi) a = None \<and> iov_at (lpi_reqs lpi) a = None"
    and "alloc_ok (uk_alloc k)"
  shows "\<exists>d' lpi'. handle_remap k d p from to len = Some (0, d') \<and> lpi_at d' p = Some lpi' \<and>
    iovs_ok (lpi_iovs lpi') \<and> iovs_ok (lpi_reqs lpi') \<and>
    (\<forall>a. iov_at (lpi_iovs lpi') a =
       (if to \<le> a \<and> unat a < unat to + unat len then iov_at (lpi_iovs lpi) (a - to + from)
        else if from \<le> a \<and> unat a < unat from + unat len then None else iov_at (lpi_iovs lpi) a)) \<and>
    (\<forall>a. iov_at (lpi_reqs lpi') a =
       (if to \<le> a \<and> unat a < unat to + unat len then iov_at (lpi_reqs lpi) (a - to + from)
        else if from \<le> a \<and> unat a < unat from + unat len then None else iov_at (lpi_reqs lpi) a))"
  unfolding handle_remap_def by (rule remap_iovs_correct [OF assms])

theorem handle_remap_exact_witness:
  "\<exists>d' lpi'. handle_remap demo_ukernel demo_daemon 0 0x1000 0x9000 0x1000 = Some (0, d') \<and> lpi_at d' 0 = Some lpi' \<and>
    iovs_ok (lpi_iovs lpi') \<and> iovs_ok (lpi_reqs lpi') \<and>
    (\<forall>a. iov_at (lpi_iovs lpi') a =
       (if 0x9000 \<le> a \<and> unat a < unat (0x9000 :: u64) + unat (0x1000 :: u64) then iov_at (lpi_iovs demo_lpi) (a - 0x9000 + 0x1000)
        else if 0x1000 \<le> a \<and> unat a < unat (0x1000 :: u64) + unat (0x1000 :: u64) then None else iov_at (lpi_iovs demo_lpi) a)) \<and>
    (\<forall>a. iov_at (lpi_reqs lpi') a =
       (if 0x9000 \<le> a \<and> unat a < unat (0x9000 :: u64) + unat (0x1000 :: u64) then iov_at (lpi_reqs demo_lpi) (a - 0x9000 + 0x1000)
        else if 0x1000 \<le> a \<and> unat a < unat (0x1000 :: u64) + unat (0x1000 :: u64) then None else iov_at (lpi_reqs demo_lpi) a))"
proof (rule handle_remap_exact [OF _ _ _ _ _ _ alloc_ok_demo])
  fix a :: u64
  assume "0x9000 \<le> a"
  then show "iov_at (lpi_iovs demo_lpi) a = None \<and> iov_at (lpi_reqs demo_lpi) a = None"
    by (auto simp: demo_lpi_def lpi_zero_def covers_def dest: order.strict_trans1)
qed (simp_all add: demo_daemon_def demo_lpi_def lpi_zero_def)

text \<open>C10: the child of a fork has to fill everything its parent has to fill and everything in
  flight for the parent, from the same image addresses, and has no request of its own.\<close>

theorem copy_iovs_merges_requests:
  assumes "alloc_ok (uk_alloc k)" and "\<forall>n w. fst (uk_memalign k n w)"
    and "iovs_ok (lpi_iovs src)" and "iovs_apart (lpi_reqs src)"
    and "\<And>i j. i \<in> set (lpi_reqs src) \<Longrightarrow> j \<in> set (lpi_iovs src) \<Longrightarrow> apart i j"
    and "lpi_iovs dst = []" and "lpi_reqs dst = []"
  shows "\<exists>dst' w'. copy_iovs k src dst w = (0, dst', w') \<and> lpi_reqs dst' = [] \<and> iovs_ok (lpi_iovs dst') \<and>
    buf_size dst' = buf_size src \<and>
    (\<forall>a. iov_at (lpi_iovs dst') a =
       (case iov_at (lpi_reqs src) a of None \<Rightarrow> iov_at (lpi_iovs src) a | Some v \<Rightarrow> Some v))"
  by (rule copy_iovs_correct [OF assms])

definition demo_parent :: lazy_pages_info where
  "demo_parent = demo_lpi\<lparr>lpi_reqs := [\<lparr>li_start = 0x8000, li_end = 0x9000, img_start = 0x8000\<rparr>,
     \<lparr>li_start = 0x3000, li_end = 0x4000, img_start = 0x3000\<rparr>]\<rparr>"

theorem copy_iovs_merges_requests_witness:
  "\<exists>dst' w'. copy_iovs demo_ukernel demo_parent lpi_zero [] = (0, dst', w') \<and> lpi_reqs dst' = [] \<and>
    iovs_ok (lpi_iovs dst') \<and> buf_size dst' = buf_size demo_parent \<and>
    (\<forall>a. iov_at (lpi_iovs dst') a =
       (case iov_at (lpi_reqs demo_parent) a of None \<Rightarrow> iov_at (lpi_iovs demo_parent) a | Some v \<Rightarrow> Some v))"
  by (rule copy_iovs_merges_requests [OF alloc_ok_demo])
     (auto simp: demo_ukernel_def demo_parent_def demo_lpi_def lpi_zero_def apart_def)

text \<open>C9: from a sorted pagemap whose entries lie in sorted VMAs, the daemon collects iovs that cover
  exactly the lazy addresses, each with its own address as image address, sorted and without
  overlap, and none of them crosses the border of a VMA.\<close>

theorem collect_entries_exact:
  assumes "alloc_ok m" and "vmas_ok vmas" and "pes_ok pes" and "pes_mapped pes vmas"
  shows "\<exists>new mx' nr' w'. collect_entries m pes vmas [] mx nr w = (True, new, mx', nr', w') \<and> iovs_ok new \<and>
    (\<forall>a. iov_at new a = (if lazy_addr pes a then Some a else None)) \<and>
    (\<forall>i \<in> set new. \<exists>v \<in> set vmas. in_vma i v)"
  using collect_entries_correct [OF assms, of "[]" mx nr w] by auto

definition demo_pes :: "pagemap_entry list" where
  "demo_pes = [\<lparr>pe_vaddr = 0x1000, pe_nr_pages = 3, pe_lazy = True\<rparr>, \<lparr>pe_vaddr = 0x6000, pe_nr_pages = 1, pe_lazy = False\<rparr>]"

definition demo_vmas :: "vma_range list" where
  "demo_vmas = [(0x1000, 0x2000), (0x2000, 0x5000), (0x6000, 0x9000)]"

theorem collect_entries_exact_witness:
  "\<exists>new mx' nr' w'. collect_entries (uk_alloc demo_ukernel) demo_pes demo_vmas [] 0 0 [] = (True, new, mx', nr', w') \<and>
    iovs_ok new \<and> (\<forall>a. iov_at new a = (if lazy_addr demo_pes a then Some a else None)) \<and>
    (\<forall>i \<in> set new. \<exists>v \<in> set demo_vmas. in_vma i v)"
  by (rule collect_entries_exact [OF alloc_ok_demo])
     (auto simp: demo_pes_def demo_vmas_def pes_mapped_def pe_end_def word_le_nat_alt word_less_nat_alt)

text \<open>C35: the length of an unmapped range reaches \<^verbatim>\<open>__drop_iovs\<close> as an \<^verbatim>\<open>int\<close>: a range of 2 GiB up to
  4 GiB becomes a negative length, and the daemon reports success without forgetting any address.\<close>

theorem unmap_of_2_gib_ignored:
  assumes "lpi_at d p = Some lpi" and "sint (ucast (end - start) :: u32) \<le> 0"
  shows "handle_remove k d p False start end = Some (0, d)"
proof -
  have "drop_iovs_loop m iovs start (ucast (end - start)) w = (0, iovs, w)" for m :: "'a alloc" and iovs w
    using assms(2) by (cases iovs) auto
  moreover have "d\<lparr>lpi_at := (lpi_at d)(p \<mapsto> lpi)\<rparr> = d" using assms(1) by (simp add: fun_upd_idem)
  ultimately show ?thesis
    using assms(1) by (simp add: handle_remove_def drop_iovs_def lpi_put_at_def)
qed

theorem unmap_of_2_gib_ignored_witness:
  "handle_remove demo_ukernel demo_daemon 0 False 0x1000 0x80001000 = Some (0, demo_daemon)"
  by (rule unmap_of_2_gib_ignored [where lpi = demo_lpi]) (simp_all add: demo_daemon_def)


end
