(* ===== verification/RstMalloc.thy ===== *)
theory RstMalloc
  imports Prelude
begin

text \<open>
  The allocator of memory for the restorer, \<^verbatim>\<open>criu/rst-malloc.c\<close>: three arenas, of which two are
  linear buffers that move when they grow and are moved once more into the restorer.  \<^verbatim>\<open>mmap\<close> and
  \<^verbatim>\<open>mremap\<close> are the parameter \<open>mmu\<close>; \<^verbatim>\<open>MAP_FAILED\<close> is \<open>None\<close>.
\<close>

section \<open>Data\<close>

datatype rst_mem = RM_SHARED | RM_SHREMAP | RM_PRIVATE

record rst_mem_type_s =
  remapable :: bool
  enabled :: bool
  free_bytes :: u64
  free_mem :: u64
  last_sz :: u64
  rst_buf :: u64
  rst_size :: u64

record 'w mmu =
  mm_map :: "u64 \<Rightarrow> 'w \<Rightarrow> u64 option \<times> 'w"
  mm_remap :: "u64 \<Rightarrow> u64 \<Rightarrow> u64 \<Rightarrow> 'w \<Rightarrow> u64 option \<times> 'w"
  mm_remap_fixed :: "u64 \<Rightarrow> u64 \<Rightarrow> u64 \<Rightarrow> 'w \<Rightarrow> u64 option \<times> 'w"

record 'w rst_state =
  rst_mems :: "rst_mem \<Rightarrow> rst_mem_type_s"
  rw :: 'w

section \<open>Operations\<close>

definition rst_mem_grow :: "u64 \<Rightarrow> u64" where
  "rst_mem_grow need_size =
     (let rst_mem_batch = 2 * 4096; need_size = round_up need_size 4096
      in if need_size < rst_mem_batch then rst_mem_batch else need_size)"

definition grow_shared :: "'w mmu \<Rightarrow> rst_mem_type_s \<Rightarrow> u64 \<Rightarrow> 'w \<Rightarrow> int \<times> rst_mem_type_s \<times> 'w" where
  "grow_shared k t sz w =
     (let sz = rst_mem_grow sz; (aux, w) = mm_map k sz w
      in case aux of
           None \<Rightarrow> (- 1, t, w)
         | Some aux \<Rightarrow> (0, t\<lparr>free_mem := aux, free_bytes := sz, last_sz := 0\<rparr>, w))"

text \<open>\<open>shared\<close> is the flag \<^verbatim>\<open>MAP_SHARED\<close>; a null buffer is the address 0.\<close>

definition grow_remap ::
  "'w mmu \<Rightarrow> rst_mem_type_s \<Rightarrow> bool \<Rightarrow> u64 \<Rightarrow> 'w \<Rightarrow> int \<times> rst_mem_type_s \<times> 'w" where
  "grow_remap k t shared sz w =
     (let sz = rst_mem_grow sz
      in if rst_buf t \<noteq> 0 \<and> shared then (- 1, t, w)
         else
           let (aux, w) = (if rst_buf t = 0 then mm_map k sz w
                           else mm_remap k (rst_buf t) (rst_size t) (rst_size t + sz) w)
           in case aux of
                None \<Rightarrow> (- 1, t, w)
              | Some aux \<Rightarrow>
                  (0, t\<lparr>free_mem := free_mem t + (aux - rst_buf t), free_bytes := free_bytes t + sz,
                        rst_size := rst_size t + sz, rst_buf := aux\<rparr>, w))"

definition grow_shremap :: "'w mmu \<Rightarrow> rst_mem_type_s \<Rightarrow> u64 \<Rightarrow> 'w \<Rightarrow> int \<times> rst_mem_type_s \<times> 'w" where
  "grow_shremap k t sz w = grow_remap k t True sz w"

definition grow_private :: "'w mmu \<Rightarrow> rst_mem_type_s \<Rightarrow> u64 \<Rightarrow> 'w \<Rightarrow> int \<times> rst_mem_type_s \<times> 'w" where
  "grow_private k t sz w = grow_remap k t False sz w"

text \<open>The static array \<^verbatim>\<open>rst_mems\<close> and the \<^verbatim>\<open>grow\<close> function of each of its elements.\<close>

definition rst_mem_type_init :: "bool \<Rightarrow> bool \<Rightarrow> rst_mem_type_s" where
  "rst_mem_type_init rem en = \<lparr>remapable = rem, enabled = en, free_bytes = 0, free_mem = 0,
     last_sz = 0, rst_buf = 0, rst_size = 0\<rparr>"

definition rst_mems_init :: "rst_mem \<Rightarrow> rst_mem_type_s" where
  "rst_mems_init type = (case type of
       RM_SHARED \<Rightarrow> rst_mem_type_init False True
     | RM_SHREMAP \<Rightarrow> rst_mem_type_init True True
     | RM_PRIVATE \<Rightarrow> rst_mem_type_init True False)"

definition rst_grow_fn :: "rst_mem \<Rightarrow> 'w mmu \<Rightarrow> rst_mem_type_s \<Rightarrow> u64 \<Rightarrow> 'w \<Rightarrow> int \<times> rst_mem_type_s \<times> 'w" where
  "rst_grow_fn type = (case type of
       RM_SHARED \<Rightarrow> grow_shared
     | RM_SHREMAP \<Rightarrow> grow_shremap
     | RM_PRIVATE \<Rightarrow> grow_private)"

definition upd_mem :: "'w rst_state \<Rightarrow> rst_mem \<Rightarrow> rst_mem_type_s \<Rightarrow> 'w rst_state" where
  "upd_mem s type t = s\<lparr>rst_mems := (rst_mems s)(type := t)\<rparr>"

definition rst_mem_switch_to_private :: "'w rst_state \<Rightarrow> 'w rst_state" where
  "rst_mem_switch_to_private s =
     (let s = upd_mem s RM_SHARED ((rst_mems s RM_SHARED)\<lparr>enabled := False\<rparr>);
          s = upd_mem s RM_SHREMAP ((rst_mems s RM_SHREMAP)\<lparr>enabled := False\<rparr>)
      in upd_mem s RM_PRIVATE ((rst_mems s RM_PRIVATE)\<lparr>enabled := True\<rparr>))"

definition rst_mem_align :: "'w rst_state \<Rightarrow> rst_mem \<Rightarrow> 'w rst_state" where
  "rst_mem_align s type =
     (let t = rst_mems s type; ptr = round_up (free_mem t) 8
      in upd_mem s type (t\<lparr>free_bytes := free_bytes t - (ptr - free_mem t), free_mem := ptr\<rparr>))"

definition rst_mem_align_cpos :: "'w rst_state \<Rightarrow> rst_mem \<Rightarrow> (u64 \<times> 'w rst_state) option" where
  "rst_mem_align_cpos s type =
     (if \<not> remapable (rst_mems s type) \<or> \<not> enabled (rst_mems s type) then None
      else let s = rst_mem_align s type; t = rst_mems s type
           in Some (free_mem t - rst_buf t, s))"

definition rst_mem_remap_ptr :: "'w rst_state \<Rightarrow> u64 \<Rightarrow> rst_mem \<Rightarrow> u64 option" where
  "rst_mem_remap_ptr s pos type =
     (if \<not> remapable (rst_mems s type) then None else Some (rst_buf (rst_mems s type) + pos))"

text \<open>The inner option is the null pointer.\<close>

definition rst_mem_alloc :: "'w mmu \<Rightarrow> 'w rst_state \<Rightarrow> u64 \<Rightarrow> rst_mem \<Rightarrow> (u64 option \<times> 'w rst_state) option" where
  "rst_mem_alloc k s sz type =
     (if \<not> enabled (rst_mems s type) then None
      else
        let (ret, t, w) = (if free_bytes (rst_mems s type) < sz
                           then rst_grow_fn type k (rst_mems s type) sz (rw s)
                           else (0, rst_mems s type, rw s));
            s = s\<lparr>rw := w\<rparr>
        in if ret \<noteq> 0 then Some (None, upd_mem s type t)
           else Some (Some (free_mem t),
                  upd_mem s type (t\<lparr>free_mem := free_mem t + sz, free_bytes := free_bytes t - sz, last_sz := sz\<rparr>)))"

definition rst_mem_free_last :: "'w rst_state \<Rightarrow> rst_mem \<Rightarrow> 'w rst_state option" where
  "rst_mem_free_last s type =
     (let t = rst_mems s type
      in if \<not> enabled t then None
         else Some (upd_mem s type
           (t\<lparr>free_mem := free_mem t - last_sz t, free_bytes := free_bytes t + last_sz t, last_sz := 0\<rparr>)))"

definition rst_mem_lock :: "'w rst_state \<Rightarrow> u64 \<times> 'w rst_state" where
  "rst_mem_lock s =
     (let s = upd_mem s RM_PRIVATE ((rst_mems s RM_PRIVATE)\<lparr>enabled := False\<rparr>)
      in (rst_size (rst_mems s RM_PRIVATE) + rst_size (rst_mems s RM_SHREMAP), s))"

definition rst_mem_remap_one :: "'w mmu \<Rightarrow> 'w rst_state \<Rightarrow> rst_mem \<Rightarrow> u64 \<Rightarrow> (int \<times> 'w rst_state) option" where
  "rst_mem_remap_one k s type to =
     (let t = rst_mems s type
      in if \<not> remapable t \<or> enabled t then None
         else if rst_buf t = 0 then Some (0, s)
         else
           let (aux, w) = mm_remap_fixed k (rst_buf t) (rst_size t) to (rw s); s = s\<lparr>rw := w\<rparr>
           in case aux of
                None \<Rightarrow> Some (- 1, s)
              | Some aux \<Rightarrow> Some (0, upd_mem s type (t\<lparr>rst_buf := aux\<rparr>)))"

definition rst_mem_remap :: "'w mmu \<Rightarrow> 'w rst_state \<Rightarrow> u64 \<Rightarrow> (int \<times> 'w rst_state) option" where
  "rst_mem_remap k s to = do {
     (ret, s) \<leftarrow> rst_mem_remap_one k s RM_PRIVATE to;
     if ret = 0 then rst_mem_remap_one k s RM_SHREMAP (to + rst_size (rst_mems s RM_PRIVATE))
     else Some (ret, s) }"

definition shmalloc :: "'w mmu \<Rightarrow> 'w rst_state \<Rightarrow> u64 \<Rightarrow> (u64 option \<times> 'w rst_state) option" where
  "shmalloc k s bytes = rst_mem_alloc k (rst_mem_align s RM_SHARED) bytes RM_SHARED"

definition shfree_last :: "'w rst_state \<Rightarrow> 'w rst_state option" where
  "shfree_last s = rst_mem_free_last s RM_SHARED"

section \<open>Invariant\<close>

text \<open>The end of an arena is aligned, so aligning its free pointer cannot pass the end; the used part
  of a linear buffer is from its start to its free pointer.\<close>

definition rst_ok :: "rst_mem_type_s \<Rightarrow> bool" where
  "rst_ok t \<longleftrightarrow>
     unat (free_mem t) + unat (free_bytes t) < 2 ^ 63 \<and> 8 dvd unat (free_mem t) + unat (free_bytes t) \<and>
     unat (rst_buf t) + unat (last_sz t) \<le> unat (free_mem t) \<and> 8 dvd unat (rst_buf t) \<and>
     (if remapable t then unat (free_mem t) + unat (free_bytes t) = unat (rst_buf t) + unat (rst_size t) \<and>
        (rst_buf t = 0 \<longrightarrow> rst_size t = 0)
      else rst_buf t = 0)"

definition arenas_ok :: "'w rst_state \<Rightarrow> bool" where
  "arenas_ok s \<longleftrightarrow> (\<forall>type. rst_ok (rst_mems s type) \<and> (remapable (rst_mems s type) \<longleftrightarrow> type \<noteq> RM_SHARED))"

text \<open>What \<^verbatim>\<open>mmap(2)\<close> and \<^verbatim>\<open>mremap(2)\<close> document: the mapping starts at a page boundary, is not at
  address 0, and lies in the user half of the address space; \<^verbatim>\<open>MREMAP_FIXED\<close> maps at the given address.\<close>

definition mapping_ok :: "u64 \<Rightarrow> u64 \<Rightarrow> bool" where
  "mapping_ok a sz \<longleftrightarrow> a \<noteq> 0 \<and> 4096 dvd unat a \<and> unat a + unat sz < 2 ^ 63"

definition mmu_ok :: "'w mmu \<Rightarrow> bool" where
  "mmu_ok k \<longleftrightarrow>
     (\<forall>sz w a w'. mm_map k sz w = (Some a, w') \<longrightarrow> mapping_ok a sz) \<and>
     (\<forall>old sz sz' w a w'. mm_remap k old sz sz' w = (Some a, w') \<longrightarrow> mapping_ok a sz') \<and>
     (\<forall>old sz to w a w'. mm_remap_fixed k old sz to w = (Some a, w') \<longrightarrow> a = to \<and> mapping_ok a sz)"

lemma rst_mem_grow_bounds:
  assumes "unat sz \<le> 2 ^ 62"
  shows "unat sz \<le> unat (rst_mem_grow sz)" and "4096 dvd unat (rst_mem_grow sz)"
    and "unat (rst_mem_grow sz) < 2 ^ 62 + 8192"
proof -
  have "unat sz + 2 ^ 12 \<le> 2 ^ 64" using assms by simp
  note b = round_up_bounds [of 12 sz, OF _ this, simplified]
  show "unat sz \<le> unat (rst_mem_grow sz)" "4096 dvd unat (rst_mem_grow sz)"
    "unat (rst_mem_grow sz) < 2 ^ 62 + 8192"
    using b assms by (auto simp: rst_mem_grow_def Let_def word_less_nat_alt)
qed

lemma unat_move:
  assumes "unat b \<le> unat f" and "unat a + (unat f - unat b) < 2 ^ 64"
  shows "unat (f + (a - b) :: u64) = unat a + (unat f - unat b)"
proof -
  have eq: "f + (a - b) = a + (f - b)" by simp
  have "unat (f - b) = unat f - unat b" using assms(1) by (intro unat_sub) (simp add: word_le_nat_alt)
  then show ?thesis unfolding eq using assms(2) by (subst unat_plus_eq) simp_all
qed

lemma dvd_8_4096: "4096 dvd (n :: nat) \<Longrightarrow> 8 dvd n"
  using dvd_trans [of 8 4096 n] by simp

lemma grow_shared_ok:
  assumes k: "mmu_ok k" and ok: "rst_ok t" "\<not> remapable t" and sz: "unat sz \<le> 2 ^ 62"
    and g: "grow_shared k t sz w = (r, t', w')"
  shows "r = - 1 \<and> t' = t \<or>
    r = 0 \<and> rst_ok t' \<and> unat sz \<le> unat (free_bytes t') \<and> remapable t' = remapable t \<and> enabled t' = enabled t \<and>
      rst_buf t' = rst_buf t"
proof (cases "mm_map k (rst_mem_grow sz) w")
  case (Pair aux w1)
  show ?thesis
  proof (cases aux)
    case None
    then show ?thesis using g Pair by (simp add: grow_shared_def Let_def)
  next
    case (Some a)
    then have "mapping_ok a (rst_mem_grow sz)" using k Pair unfolding mmu_ok_def by blast
    moreover have t': "r = 0" "t' = t\<lparr>free_mem := a, free_bytes := rst_mem_grow sz, last_sz := 0\<rparr>"
      using g Pair Some by (simp_all add: grow_shared_def Let_def)
    ultimately show ?thesis
      using ok rst_mem_grow_bounds [OF sz]
      by (auto simp: rst_ok_def mapping_ok_def intro: dvd_add dvd_8_4096)
  qed
qed

lemma grow_remap_ok:
  assumes k: "mmu_ok k" and ok: "rst_ok t" "remapable t" and sz: "unat sz \<le> 2 ^ 62"
    and g: "grow_remap k t shared sz w = (r, t', w')"
  shows "r = - 1 \<and> t' = t \<or>
    r = 0 \<and> rst_ok t' \<and> unat sz \<le> unat (free_bytes t') \<and> remapable t' = remapable t \<and> enabled t' = enabled t \<and>
      free_mem t' - rst_buf t' = free_mem t - rst_buf t"
proof -
  let ?g = "rst_mem_grow sz"
  define res where "res = (if rst_buf t = 0 then mm_map k ?g w else mm_remap k (rst_buf t) (rst_size t) (rst_size t + ?g) w)"
  obtain aux w1 where res: "res = (aux, w1)" by fastforce
  note g' = g [unfolded grow_remap_def Let_def, folded res_def, unfolded res prod.case]
  show ?thesis
  proof (cases "rst_buf t \<noteq> 0 \<and> shared \<or> aux = None")
    case True
    then show ?thesis using g' by (auto split: if_splits)
  next
    case False
    then obtain a where a: "aux = Some a" by auto
    have gb: "unat ?g < 2 ^ 62 + 8192" "8 dvd unat ?g" "unat sz \<le> unat ?g"
      using rst_mem_grow_bounds [OF sz] dvd_8_4096 by auto
    have sz_t: "unat (rst_size t) < 2 ^ 63" using ok by (auto simp: rst_ok_def)
    have sum: "unat (rst_size t + ?g) = unat (rst_size t) + unat ?g"
      using sz_t gb(1) by (intro unat_plus_eq) simp
    have m: "mapping_ok a (rst_size t + ?g)"
    proof (cases "rst_buf t = 0")
      case True
      then have "rst_size t = 0" "mm_map k ?g w = (Some a, w1)" using ok res a by (simp_all add: rst_ok_def res_def)
      then show ?thesis using k unfolding mmu_ok_def by (metis add_0)
    next
      case False
      then have "mm_remap k (rst_buf t) (rst_size t) (rst_size t + ?g) w = (Some a, w1)"
        using res a by (simp add: res_def)
      then show ?thesis using k unfolding mmu_ok_def by blast
    qed
    have t': "r = 0" "t' = t\<lparr>free_mem := free_mem t + (a - rst_buf t), free_bytes := free_bytes t + ?g,
        rst_size := rst_size t + ?g, rst_buf := a\<rparr>"
      using g' False a by auto
    have le: "unat (rst_buf t) \<le> unat (free_mem t)"
      and tot: "unat (free_mem t) + unat (free_bytes t) = unat (rst_buf t) + unat (rst_size t)"
      and last: "unat (rst_buf t) + unat (last_sz t) \<le> unat (free_mem t)"
      using ok by (auto simp: rst_ok_def)
    have a63: "unat a + (unat (rst_size t) + unat ?g) < 2 ^ 63" "8 dvd unat a" "a \<noteq> 0"
      using m dvd_8_4096 unfolding mapping_ok_def sum by auto
    have fm: "unat (free_mem t + (a - rst_buf t)) = unat a + (unat (free_mem t) - unat (rst_buf t))"
      using le tot a63 by (intro unat_move) auto
    have fb: "unat (free_bytes t + ?g) = unat (free_bytes t) + unat ?g"
      using tot le a63 gb by (intro unat_plus_eq) auto
    have end': "unat (free_mem t') + unat (free_bytes t') = unat a + (unat (rst_size t) + unat ?g)"
      unfolding t' using fm fb tot le by simp
    have "8 dvd unat (rst_buf t) + unat (rst_size t)" "8 dvd unat (rst_buf t)"
      using ok by (auto simp: rst_ok_def)
    then have "8 dvd unat (rst_size t)" by (simp add: dvd_add_right_iff)
    with a63 gb(2) have "8 dvd unat a + (unat (rst_size t) + unat ?g)" by (intro dvd_add)
    then have "rst_ok t'"
      unfolding rst_ok_def end' using t' a63 ok fm last sum by auto
    then show ?thesis using t' gb fb by auto
  qed
qed

text \<open>The contract of every \<^verbatim>\<open>grow\<close> function: it fails without a change, or makes room and keeps the
  objects at their offsets.\<close>

lemma rst_grow_fn_ok:
  assumes "mmu_ok k" and "rst_ok t" and "remapable t \<longleftrightarrow> type \<noteq> RM_SHARED" and "unat sz \<le> 2 ^ 62"
    and "rst_grow_fn type k t sz w = (r, t', w')"
  shows "r = - 1 \<and> t' = t \<or>
    r = 0 \<and> rst_ok t' \<and> unat sz \<le> unat (free_bytes t') \<and> remapable t' = remapable t \<and> enabled t' = enabled t \<and>
      (remapable t \<longrightarrow> free_mem t' - rst_buf t' = free_mem t - rst_buf t)"
  using assms grow_shared_ok [OF assms(1,2) _ assms(4)] grow_remap_ok [OF assms(1,2) _ assms(4)]
  by (cases type) (fastforce simp: rst_grow_fn_def grow_shremap_def grow_private_def)+

lemma rst_ok_take:
  assumes ok: "rst_ok t" and sz: "unat sz \<le> unat (free_bytes t)"
  shows "rst_ok (t\<lparr>free_mem := free_mem t + sz, free_bytes := free_bytes t - sz, last_sz := sz\<rparr>)"
    and "unat (free_mem t + sz) = unat (free_mem t) + unat sz"
proof -
  have b: "unat (free_bytes t - sz) = unat (free_bytes t) - unat sz"
    using sz by (intro unat_sub) (simp add: word_le_nat_alt)
  show m: "unat (free_mem t + sz) = unat (free_mem t) + unat sz"
    using ok sz by (intro unat_plus_eq) (auto simp: rst_ok_def)
  show "rst_ok (t\<lparr>free_mem := free_mem t + sz, free_bytes := free_bytes t - sz, last_sz := sz\<rparr>)"
    using ok sz b m by (auto simp: rst_ok_def)
qed

lemma rst_mem_alloc_ok:
  assumes k: "mmu_ok k" and ok: "arenas_ok s" and en: "enabled (rst_mems s type)" and sz: "unat sz \<le> 2 ^ 62"
  shows "\<exists>r s'. rst_mem_alloc k s sz type = Some (r, s') \<and> arenas_ok s' \<and>
    (\<forall>u. u \<noteq> type \<longrightarrow> rst_mems s' u = rst_mems s u) \<and>
    (case r of
       None \<Rightarrow> rst_mems s' type = rst_mems s type
     | Some p \<Rightarrow> let t = rst_mems s type; t' = rst_mems s' type in
         enabled t' \<and> unat (free_mem t') = unat p + unat sz \<and>
         (type \<noteq> RM_SHARED \<longrightarrow> p - rst_buf t' = free_mem t - rst_buf t \<and>
            unat (rst_buf t') \<le> unat p \<and> unat p + unat sz \<le> unat (rst_buf t') + unat (rst_size t')))"
proof -
  let ?t = "rst_mems s type"
  have t: "rst_ok ?t" "remapable ?t \<longleftrightarrow> type \<noteq> RM_SHARED" using ok by (simp_all add: arenas_ok_def)
  obtain r t1 w1 where g: "(if free_bytes ?t < sz then rst_grow_fn type k ?t sz (rw s) else (0, ?t, rw s)) = (r, t1, w1)"
    by (metis prod_cases3)
  have g1: "r = - 1 \<and> t1 = ?t \<or>
    r = 0 \<and> rst_ok t1 \<and> unat sz \<le> unat (free_bytes t1) \<and> remapable t1 = remapable ?t \<and> enabled t1 = enabled ?t \<and>
      (remapable ?t \<longrightarrow> free_mem t1 - rst_buf t1 = free_mem ?t - rst_buf ?t)"
  proof (cases "free_bytes ?t < sz")
    case True
    then show ?thesis using rst_grow_fn_ok [OF k t sz, of "rw s" r t1 w1] g by simp
  next
    case False
    then show ?thesis using g t(1) by (auto simp: word_less_nat_alt)
  qed
  have step: "rst_mem_alloc k s sz type =
    (if r \<noteq> 0 then Some (None, upd_mem (s\<lparr>rw := w1\<rparr>) type t1)
     else Some (Some (free_mem t1), upd_mem (s\<lparr>rw := w1\<rparr>) type
       (t1\<lparr>free_mem := free_mem t1 + sz, free_bytes := free_bytes t1 - sz, last_sz := sz\<rparr>)))"
    unfolding rst_mem_alloc_def g using en by simp
  from g1 show ?thesis
  proof
    assume "r = - 1 \<and> t1 = ?t"
    then show ?thesis using ok unfolding step by (simp add: upd_mem_def arenas_ok_def)
  next
    assume g2: "r = 0 \<and> rst_ok t1 \<and> unat sz \<le> unat (free_bytes t1) \<and> remapable t1 = remapable ?t \<and>
      enabled t1 = enabled ?t \<and> (remapable ?t \<longrightarrow> free_mem t1 - rst_buf t1 = free_mem ?t - rst_buf ?t)"
    note tk = rst_ok_take [of t1 sz]
    have "type \<noteq> RM_SHARED \<Longrightarrow> unat (rst_buf t1) \<le> unat (free_mem t1) \<and>
        unat (free_mem t1) + unat sz \<le> unat (rst_buf t1) + unat (rst_size t1)"
      using g2 t by (auto simp: rst_ok_def)
    then show ?thesis
      unfolding step using g2 tk ok t en by (auto simp: upd_mem_def arenas_ok_def Let_def)
  qed
qed

lemma rst_mem_align_ok:
  assumes ok: "arenas_ok s"
  shows "arenas_ok (rst_mem_align s type)"
    and "8 dvd unat (free_mem (rst_mems (rst_mem_align s type) type))"
    and "unat (free_mem (rst_mems s type)) \<le> unat (free_mem (rst_mems (rst_mem_align s type) type))"
    and "unat (free_mem (rst_mems (rst_mem_align s type) type)) < unat (free_mem (rst_mems s type)) + 8"
proof -
  let ?t = "rst_mems s type" and ?p = "round_up (free_mem (rst_mems s type)) 8"
  have t: "rst_ok ?t" using ok by (simp add: arenas_ok_def)
  have "unat (free_mem ?t) + 2 ^ 3 \<le> 2 ^ 64" using t by (auto simp: rst_ok_def)
  note b = round_up_bounds [of 3 "free_mem ?t", OF _ this, simplified]
  have fit: "unat ?p \<le> unat (free_mem ?t) + unat (free_bytes ?t)"
  proof -
    obtain x where x: "unat (free_mem ?t) + unat (free_bytes ?t) = 8 * x" using t by (auto simp: rst_ok_def elim: dvdE)
    obtain y where y: "unat ?p = 8 * y" using b(3) by (auto elim: dvdE)
    show ?thesis using b(2) x y by simp
  qed
  have d: "unat (?p - free_mem ?t) = unat ?p - unat (free_mem ?t)"
    using b(1) by (intro unat_sub) (simp add: word_le_nat_alt)
  have fb: "unat (free_bytes ?t - (?p - free_mem ?t)) = unat (free_bytes ?t) - (unat ?p - unat (free_mem ?t))"
    using fit b(1) by (subst unat_sub) (simp_all add: d word_le_nat_alt)
  have tot: "unat ?p + unat (free_bytes ?t - (?p - free_mem ?t)) = unat (free_mem ?t) + unat (free_bytes ?t)"
    using fb fit b(1) by simp
  have "rst_ok (?t\<lparr>free_bytes := free_bytes ?t - (?p - free_mem ?t), free_mem := ?p\<rparr>)"
    using t b(1) tot unfolding rst_ok_def by (simp split: if_splits)
  then show "arenas_ok (rst_mem_align s type)"
    using ok by (auto simp: rst_mem_align_def arenas_ok_def upd_mem_def Let_def)
  show "8 dvd unat (free_mem (rst_mems (rst_mem_align s type) type))"
    "unat (free_mem ?t) \<le> unat (free_mem (rst_mems (rst_mem_align s type) type))"
    "unat (free_mem (rst_mems (rst_mem_align s type) type)) < unat (free_mem ?t) + 8"
    using b by (auto simp: rst_mem_align_def upd_mem_def Let_def)
qed

lemma rst_mem_remap_one_ok:
  assumes k: "mmu_ok k" and r: "rst_mem_remap_one k s type to = Some (0, s')" and buf: "rst_buf (rst_mems s type) \<noteq> 0"
  shows "rst_mems s' = (rst_mems s)(type := (rst_mems s type)\<lparr>rst_buf := to\<rparr>) \<and> remapable (rst_mems s type)"
proof -
  obtain aux w where m: "mm_remap_fixed k (rst_buf (rst_mems s type)) (rst_size (rst_mems s type)) to (rw s) = (aux, w)"
    by fastforce
  have "aux = Some a \<Longrightarrow> a = to" for a using k m unfolding mmu_ok_def by blast
  with r m buf show ?thesis
    by (auto simp: rst_mem_remap_one_def upd_mem_def Let_def split: if_splits option.splits)
qed

section \<open>A memory map for the witnesses\<close>

definition demo_mmu :: "unit mmu" where
  "demo_mmu = \<lparr>
     mm_map = (\<lambda>sz w. (if mapping_ok 0x100000 sz then Some 0x100000 else None, w)),
     mm_remap = (\<lambda>old sz sz' w. (if mapping_ok 0x100000 sz' then Some 0x100000 else None, w)),
     mm_remap_fixed = (\<lambda>old sz to w. (if mapping_ok to sz then Some to else None, w))\<rparr>"

definition demo_rst :: "unit rst_state" where
  "demo_rst = \<lparr>rst_mems = rst_mems_init, rw = ()\<rparr>"

lemma mmu_ok_demo: "mmu_ok demo_mmu"
  by (auto simp: mmu_ok_def demo_mmu_def split: if_splits)

lemma arenas_ok_init: "arenas_ok \<lparr>rst_mems = rst_mems_init, rw = w\<rparr>"
  by (auto simp: arenas_ok_def rst_ok_def rst_mems_init_def rst_mem_type_init_def split: rst_mem.split)

section \<open>Properties\<close>



text \<open>C30: the cookie that \<^verbatim>\<open>rst_mem_align_cpos\<close> hands out before an allocation is turned back by
  \<^verbatim>\<open>rst_mem_remap_ptr\<close> into the address of the allocated object, although the buffer may have moved,
  and that address is aligned to the size of a pointer.\<close>

theorem cpos_finds_object:
  assumes k: "mmu_ok k" and ok: "arenas_ok s" and sz: "unat sz \<le> 2 ^ 62"
    and cpos: "rst_mem_align_cpos s type = Some (cpos, s1)"
    and alloc: "rst_mem_alloc k s1 sz type = Some (Some p, s2)"
  shows "rst_mem_remap_ptr s2 cpos type = Some p \<and> 8 dvd unat p"
proof -
  have rem: "remapable (rst_mems s type)" "enabled (rst_mems s type)" and s1: "s1 = rst_mem_align s type"
    and c: "cpos = free_mem (rst_mems s1 type) - rst_buf (rst_mems s1 type)"
    using cpos by (auto simp: rst_mem_align_cpos_def Let_def split: if_splits)
  note al = rst_mem_align_ok [OF ok, of type, folded s1]
  have ty: "type \<noteq> RM_SHARED" using rem ok by (auto simp: arenas_ok_def)
  have en: "enabled (rst_mems s1 type)" using rem by (simp add: s1 rst_mem_align_def upd_mem_def Let_def)
  have ok2: "arenas_ok s2" and off: "p - rst_buf (rst_mems s2 type) = cpos"
    and le: "unat (rst_buf (rst_mems s2 type)) \<le> unat p"
    using rst_mem_alloc_ok [OF k al(1) en sz] alloc ty by (auto simp: c Let_def)
  have b1: "8 dvd unat (rst_buf (rst_mems s1 type))" "unat (rst_buf (rst_mems s1 type)) \<le> unat (free_mem (rst_mems s1 type))"
  proof -
    have "rst_ok (rst_mems s1 type)" using al(1) by (simp add: arenas_ok_def)
    then show "8 dvd unat (rst_buf (rst_mems s1 type))" "unat (rst_buf (rst_mems s1 type)) \<le> unat (free_mem (rst_mems s1 type))"
      by (simp_all add: rst_ok_def)
  qed
  have "8 dvd unat cpos"
    using b1 al(2) by (simp add: c unat_sub word_le_nat_alt)
  moreover have "unat p = unat (rst_buf (rst_mems s2 type)) + unat cpos"
    using le by (simp add: off [symmetric] unat_sub word_le_nat_alt)
  moreover have "8 dvd unat (rst_buf (rst_mems s2 type))" "remapable (rst_mems s2 type)"
  proof -
    have "rst_ok (rst_mems s2 type)" using ok2 by (simp add: arenas_ok_def)
    then show "8 dvd unat (rst_buf (rst_mems s2 type))" by (simp add: rst_ok_def)
    show "remapable (rst_mems s2 type)" using ok2 ty by (simp add: arenas_ok_def)
  qed
  ultimately show ?thesis using off by (auto simp: rst_mem_remap_ptr_def)
qed

theorem cpos_finds_object_witness:
  "\<exists>s1 s2 p cpos. rst_mem_align_cpos demo_rst RM_SHREMAP = Some (cpos, s1) \<and>
    rst_mem_alloc demo_mmu s1 100 RM_SHREMAP = Some (Some p, s2) \<and>
    rst_mem_remap_ptr s2 cpos RM_SHREMAP = Some p \<and> 8 dvd unat p"
proof -
  obtain s1 cpos where c: "rst_mem_align_cpos demo_rst RM_SHREMAP = Some (cpos, s1)"
    by (simp add: rst_mem_align_cpos_def demo_rst_def rst_mems_init_def rst_mem_type_init_def Let_def)
  have s1: "s1 = rst_mem_align demo_rst RM_SHREMAP" using c by (auto simp: rst_mem_align_cpos_def Let_def split: if_splits)
  obtain s2 p where a: "rst_mem_alloc demo_mmu s1 100 RM_SHREMAP = Some (Some p, s2)"
    by (simp add: s1 rst_mem_alloc_def rst_mem_align_def demo_rst_def rst_mems_init_def rst_mem_type_init_def upd_mem_def
        round_up_def round_mask_def rst_grow_fn_def grow_shremap_def grow_remap_def rst_mem_grow_def demo_mmu_def
        mapping_ok_def Let_def)
  have "arenas_ok demo_rst" by (simp add: demo_rst_def arenas_ok_init)
  from cpos_finds_object [OF mmu_ok_demo this _ c a] c a show ?thesis by auto
qed

text \<open>Moving the locked arenas into the restorer puts the private one at the given address and the
  shared one right behind it, and the cookies of both then give addresses there.\<close>

theorem rst_mem_remap_places:
  assumes k: "mmu_ok k" and rem: "rst_mem_remap k s to = Some (0, s')"
    and buf: "rst_buf (rst_mems s RM_PRIVATE) \<noteq> 0" "rst_buf (rst_mems s RM_SHREMAP) \<noteq> 0"
  shows "rst_mem_remap_ptr s' pos RM_PRIVATE = Some (to + pos) \<and>
    rst_mem_remap_ptr s' pos RM_SHREMAP = Some (to + rst_size (rst_mems s RM_PRIVATE) + pos)"
proof -
  obtain s1 where 1: "rst_mem_remap_one k s RM_PRIVATE to = Some (0, s1)"
    and 2: "rst_mem_remap_one k s1 RM_SHREMAP (to + rst_size (rst_mems s1 RM_PRIVATE)) = Some (0, s')"
    using rem by (auto simp: rst_mem_remap_def bind_eq_Some_conv split: if_splits)
  note r1 = rst_mem_remap_one_ok [OF k 1 buf(1)]
  moreover have "rst_buf (rst_mems s1 RM_SHREMAP) \<noteq> 0" using r1 buf(2) by simp
  note r2 = rst_mem_remap_one_ok [OF k 2 this]
  ultimately show ?thesis by (simp add: rst_mem_remap_ptr_def)
qed

definition demo_full :: "unit rst_state" where
  "demo_full = \<lparr>rst_mems = (\<lambda>type. (rst_mems_init type)\<lparr>enabled := False, rst_buf := 0x100000, rst_size := 0x2000\<rparr>), rw = ()\<rparr>"

theorem rst_mem_remap_places_witness:
  "\<exists>s'. rst_mem_remap demo_mmu demo_full 0x400000 = Some (0, s') \<and>
    rst_mem_remap_ptr s' 16 RM_PRIVATE = Some (0x400000 + 16) \<and>
    rst_mem_remap_ptr s' 16 RM_SHREMAP = Some (0x400000 + rst_size (rst_mems demo_full RM_PRIVATE) + 16)"
proof -
  obtain s' where r: "rst_mem_remap demo_mmu demo_full 0x400000 = Some (0, s')"
    by (simp add: rst_mem_remap_def rst_mem_remap_one_def demo_full_def demo_mmu_def mapping_ok_def rst_mems_init_def
        rst_mem_type_init_def upd_mem_def Let_def)
  from rst_mem_remap_places [OF mmu_ok_demo r, of 16] r show ?thesis by (simp add: demo_full_def)
qed

end
