(* ===== verification/Rbtree.thy ===== *)
theory Rbtree
  imports Prelude
begin

text \<open>
  The red-black trees of \<^verbatim>\<open>criu/rbtree.c\<close> and \<^verbatim>\<open>criu/include/rbtree.h\<close>, as the code has them:
  nodes in a heap that point at each other, with the parent pointer and the colour packed into one
  word.  The heap maps the address of a node to its fields; the value of \<^verbatim>\<open>root->rb_node\<close> is passed
  and returned beside it.  A dereference of an address without a node is \<open>None\<close>.
\<close>

section \<open>Data\<close>

record rb_node =
  rb_parent_color :: u64
  rb_right :: u64
  rb_left :: u64

type_synonym rb_heap = "u64 \<rightharpoonup> rb_node"

text \<open>The values that \<^verbatim>\<open>struct rb_node **rb_link\<close> takes.\<close>

datatype rb_link = LinkRoot | LinkLeft u64 | LinkRight u64

abbreviation (input) RB_BLACK :: u64 where "RB_BLACK \<equiv> 1"
abbreviation (input) RB_MASK :: u64 where "RB_MASK \<equiv> 3"

section \<open>Fields of a node\<close>

definition rb_parent :: "rb_heap \<Rightarrow> u64 \<Rightarrow> u64 option" where
  "rb_parent h r = map_option (\<lambda>n. rb_parent_color n AND NOT RB_MASK) (h r)"

definition rb_color :: "rb_heap \<Rightarrow> u64 \<Rightarrow> u64 option" where
  "rb_color h r = map_option (\<lambda>n. rb_parent_color n AND RB_BLACK) (h r)"

definition rb_is_red :: "rb_heap \<Rightarrow> u64 \<Rightarrow> bool option" where
  "rb_is_red h r = map_option (\<lambda>c. c = 0) (rb_color h r)"

definition rb_is_black :: "rb_heap \<Rightarrow> u64 \<Rightarrow> bool option" where
  "rb_is_black h r = map_option (\<lambda>c. c \<noteq> 0) (rb_color h r)"

definition node_upd :: "(rb_node \<Rightarrow> rb_node) \<Rightarrow> u64 \<Rightarrow> rb_heap \<Rightarrow> rb_heap option" where
  "node_upd f r h = map_option (\<lambda>n. h(r \<mapsto> f n)) (h r)"

definition get_left :: "rb_heap \<Rightarrow> u64 \<Rightarrow> u64 option" where
  "get_left h r = map_option rb_left (h r)"

definition get_right :: "rb_heap \<Rightarrow> u64 \<Rightarrow> u64 option" where
  "get_right h r = map_option rb_right (h r)"

definition set_left :: "u64 \<Rightarrow> u64 \<Rightarrow> rb_heap \<Rightarrow> rb_heap option" where
  "set_left r p = node_upd (\<lambda>n. n\<lparr>rb_left := p\<rparr>) r"

definition set_right :: "u64 \<Rightarrow> u64 \<Rightarrow> rb_heap \<Rightarrow> rb_heap option" where
  "set_right r p = node_upd (\<lambda>n. n\<lparr>rb_right := p\<rparr>) r"

definition rb_set_red :: "u64 \<Rightarrow> rb_heap \<Rightarrow> rb_heap option" where
  "rb_set_red = node_upd (\<lambda>n. n\<lparr>rb_parent_color := rb_parent_color n AND NOT RB_BLACK\<rparr>)"

definition rb_set_black :: "u64 \<Rightarrow> rb_heap \<Rightarrow> rb_heap option" where
  "rb_set_black = node_upd (\<lambda>n. n\<lparr>rb_parent_color := rb_parent_color n OR RB_BLACK\<rparr>)"

definition rb_set_parent :: "u64 \<Rightarrow> u64 \<Rightarrow> rb_heap \<Rightarrow> rb_heap option" where
  "rb_set_parent rb p =
     node_upd (\<lambda>n. n\<lparr>rb_parent_color := (rb_parent_color n AND RB_MASK) OR p\<rparr>) rb"

definition rb_set_color :: "u64 \<Rightarrow> u64 \<Rightarrow> rb_heap \<Rightarrow> rb_heap option" where
  "rb_set_color rb color =
     node_upd (\<lambda>n. n\<lparr>rb_parent_color := (rb_parent_color n AND NOT RB_BLACK) OR color\<rparr>) rb"

definition RB_EMPTY_NODE :: "rb_heap \<Rightarrow> u64 \<Rightarrow> bool option" where
  "RB_EMPTY_NODE h node = map_option (\<lambda>p. p = node) (rb_parent h node)"

definition rb_init_node :: "u64 \<Rightarrow> rb_heap \<Rightarrow> rb_heap option" where
  "rb_init_node node h =
     do { h \<leftarrow> node_upd (\<lambda>_. \<lparr>rb_parent_color = 0, rb_right = 0, rb_left = 0\<rparr>) node h;
          rb_set_parent node node h }"

section \<open>Rotations\<close>

definition rb_rotate_left :: "u64 \<Rightarrow> rb_heap \<Rightarrow> u64 \<Rightarrow> (rb_heap \<times> u64) option" where
  "rb_rotate_left node h root =
     do {
       right \<leftarrow> get_right h node;
       parent \<leftarrow> rb_parent h node;
       rl \<leftarrow> get_left h right;
       h \<leftarrow> set_right node rl h;
       h \<leftarrow> (if rl \<noteq> 0 then rb_set_parent rl node h else Some h);
       h \<leftarrow> set_left right node h;
       h \<leftarrow> rb_set_parent right parent h;
       (h, root) \<leftarrow>
         (if parent \<noteq> 0 then
            do { pl \<leftarrow> get_left h parent;
                 h \<leftarrow> (if node = pl then set_left parent right h else set_right parent right h);
                 Some (h, root) }
          else Some (h, right));
       h \<leftarrow> rb_set_parent node right h;
       Some (h, root)
     }"

definition rb_rotate_right :: "u64 \<Rightarrow> rb_heap \<Rightarrow> u64 \<Rightarrow> (rb_heap \<times> u64) option" where
  "rb_rotate_right node h root =
     do {
       left \<leftarrow> get_left h node;
       parent \<leftarrow> rb_parent h node;
       lr \<leftarrow> get_right h left;
       h \<leftarrow> set_left node lr h;
       h \<leftarrow> (if lr \<noteq> 0 then rb_set_parent lr node h else Some h);
       h \<leftarrow> set_right left node h;
       h \<leftarrow> rb_set_parent left parent h;
       (h, root) \<leftarrow>
         (if parent \<noteq> 0 then
            do { pr \<leftarrow> get_right h parent;
                 h \<leftarrow> (if node = pr then set_right parent left h else set_left parent left h);
                 Some (h, root) }
          else Some (h, left));
       h \<leftarrow> rb_set_parent node left h;
       Some (h, root)
     }"

section \<open>Insertion\<close>

text \<open>\<open>opt_red h p\<close> is \<^verbatim>\<open>p && rb_is_red(p)\<close>, and \<open>opt_black h p\<close> is \<^verbatim>\<open>!p || rb_is_black(p)\<close>.\<close>

definition opt_red :: "rb_heap \<Rightarrow> u64 \<Rightarrow> bool option" where
  "opt_red h p = (if p = 0 then Some False else rb_is_red h p)"

definition opt_black :: "rb_heap \<Rightarrow> u64 \<Rightarrow> bool option" where
  "opt_black h p = (if p = 0 then Some True else rb_is_black h p)"

text \<open>One pass of the loop of \<^verbatim>\<open>rb_insert_color\<close> below a red parent: the node to go on with, and the
  new heap and root.\<close>

definition rb_insert_step :: "u64 \<Rightarrow> u64 \<Rightarrow> rb_heap \<Rightarrow> u64 \<Rightarrow> (u64 \<times> rb_heap \<times> u64) option" where
  "rb_insert_step node parent h root =
     do {
       gparent \<leftarrow> rb_parent h parent;
       gl \<leftarrow> get_left h gparent;
       if parent = gl then
         do {
           uncle \<leftarrow> get_right h gparent;
           red \<leftarrow> opt_red h uncle;
           if red then
             do { h \<leftarrow> rb_set_black uncle h;
                  h \<leftarrow> rb_set_black parent h;
                  h \<leftarrow> rb_set_red gparent h;
                  Some (gparent, h, root) }
           else
             do { pr \<leftarrow> get_right h parent;
                  (node, parent, h, root) \<leftarrow>
                    (if pr = node then
                       do { (h, root) \<leftarrow> rb_rotate_left parent h root;
                            Some (parent, node, h, root) }
                     else Some (node, parent, h, root));
                  h \<leftarrow> rb_set_black parent h;
                  h \<leftarrow> rb_set_red gparent h;
                  (h, root) \<leftarrow> rb_rotate_right gparent h root;
                  Some (node, h, root) }
         }
       else
         do {
           uncle \<leftarrow> get_left h gparent;
           red \<leftarrow> opt_red h uncle;
           if red then
             do { h \<leftarrow> rb_set_black uncle h;
                  h \<leftarrow> rb_set_black parent h;
                  h \<leftarrow> rb_set_red gparent h;
                  Some (gparent, h, root) }
           else
             do { pl \<leftarrow> get_left h parent;
                  (node, parent, h, root) \<leftarrow>
                    (if pl = node then
                       do { (h, root) \<leftarrow> rb_rotate_right parent h root;
                            Some (parent, node, h, root) }
                     else Some (node, parent, h, root));
                  h \<leftarrow> rb_set_black parent h;
                  h \<leftarrow> rb_set_red gparent h;
                  (h, root) \<leftarrow> rb_rotate_left gparent h root;
                  Some (node, h, root) }
         }
     }"

partial_function (option) rb_insert_color :: "u64 \<Rightarrow> rb_heap \<Rightarrow> u64 \<Rightarrow> (rb_heap \<times> u64) option" where
  "rb_insert_color node h root =
     do {
       parent \<leftarrow> rb_parent h node;
       red \<leftarrow> opt_red h parent;
       if red then
         do { (node, h, root) \<leftarrow> rb_insert_step node parent h root;
              rb_insert_color node h root }
       else
         do { h \<leftarrow> rb_set_black root h; Some (h, root) }
     }"

definition rb_link_node :: "u64 \<Rightarrow> u64 \<Rightarrow> rb_link \<Rightarrow> rb_heap \<Rightarrow> u64 \<Rightarrow> (rb_heap \<times> u64) option" where
  "rb_link_node node parent rb_link h root =
     do {
       h \<leftarrow> node_upd (\<lambda>n. n\<lparr>rb_parent_color := parent, rb_left := 0, rb_right := 0\<rparr>) node h;
       case rb_link of
         LinkRoot \<Rightarrow> Some (h, node)
       | LinkLeft p \<Rightarrow> do { h \<leftarrow> set_left p node h; Some (h, root) }
       | LinkRight p \<Rightarrow> do { h \<leftarrow> set_right p node h; Some (h, root) }
     }"

definition rb_link_and_balance ::
  "u64 \<Rightarrow> u64 \<Rightarrow> u64 \<Rightarrow> rb_link \<Rightarrow> rb_heap \<Rightarrow> (rb_heap \<times> u64) option" where
  "rb_link_and_balance root node parent rb_link h =
     do { (h, root) \<leftarrow> rb_link_node node parent rb_link h root;
          rb_insert_color node h root }"

section \<open>Removal\<close>

text \<open>The second half of a pass of the loop of \<^verbatim>\<open>__rb_erase_color\<close>, with the sibling \<open>other\<close>, right and
  left of the node: \<open>Inl\<close> is the node and the parent of the next pass, \<open>Inr\<close> is the \<^verbatim>\<open>break\<close>.\<close>

definition rb_erase_black_l ::
  "u64 \<Rightarrow> u64 \<Rightarrow> rb_heap \<Rightarrow> u64 \<Rightarrow> ((u64 \<times> u64 + u64) \<times> rb_heap \<times> u64) option" where
  "rb_erase_black_l parent other h root =
     do {
       ol \<leftarrow> get_left h other;
       lb \<leftarrow> opt_black h ol;
       or \<leftarrow> get_right h other;
       rb \<leftarrow> opt_black h or;
       if lb \<and> rb then
         do { h \<leftarrow> rb_set_red other h;
              pp \<leftarrow> rb_parent h parent;
              Some (Inl (parent, pp), h, root) }
       else
         do { (other, h, root) \<leftarrow>
                (if rb then
                   do { h \<leftarrow> rb_set_black ol h;
                        h \<leftarrow> rb_set_red other h;
                        (h, root) \<leftarrow> rb_rotate_right other h root;
                        other \<leftarrow> get_right h parent;
                        Some (other, h, root) }
                 else Some (other, h, root));
              c \<leftarrow> rb_color h parent;
              h \<leftarrow> rb_set_color other c h;
              h \<leftarrow> rb_set_black parent h;
              or \<leftarrow> get_right h other;
              h \<leftarrow> rb_set_black or h;
              (h, root) \<leftarrow> rb_rotate_left parent h root;
              Some (Inr root, h, root) }
     }"

definition rb_erase_black_r ::
  "u64 \<Rightarrow> u64 \<Rightarrow> rb_heap \<Rightarrow> u64 \<Rightarrow> ((u64 \<times> u64 + u64) \<times> rb_heap \<times> u64) option" where
  "rb_erase_black_r parent other h root =
     do {
       ol \<leftarrow> get_left h other;
       lb \<leftarrow> opt_black h ol;
       or \<leftarrow> get_right h other;
       rb \<leftarrow> opt_black h or;
       if lb \<and> rb then
         do { h \<leftarrow> rb_set_red other h;
              pp \<leftarrow> rb_parent h parent;
              Some (Inl (parent, pp), h, root) }
       else
         do { (other, h, root) \<leftarrow>
                (if lb then
                   do { h \<leftarrow> rb_set_black or h;
                        h \<leftarrow> rb_set_red other h;
                        (h, root) \<leftarrow> rb_rotate_left other h root;
                        other \<leftarrow> get_left h parent;
                        Some (other, h, root) }
                 else Some (other, h, root));
              c \<leftarrow> rb_color h parent;
              h \<leftarrow> rb_set_color other c h;
              h \<leftarrow> rb_set_black parent h;
              ol \<leftarrow> get_left h other;
              h \<leftarrow> rb_set_black ol h;
              (h, root) \<leftarrow> rb_rotate_right parent h root;
              Some (Inr root, h, root) }
     }"

text \<open>One pass of the loop.\<close>

definition rb_erase_step ::
  "u64 \<Rightarrow> u64 \<Rightarrow> rb_heap \<Rightarrow> u64 \<Rightarrow> ((u64 \<times> u64 + u64) \<times> rb_heap \<times> u64) option" where
  "rb_erase_step node parent h root =
     do {
       pl \<leftarrow> get_left h parent;
       if pl = node then
         do {
           other \<leftarrow> get_right h parent;
           red \<leftarrow> rb_is_red h other;
           (other, h, root) \<leftarrow>
             (if red then
                do { h \<leftarrow> rb_set_black other h;
                     h \<leftarrow> rb_set_red parent h;
                     (h, root) \<leftarrow> rb_rotate_left parent h root;
                     other \<leftarrow> get_right h parent;
                     Some (other, h, root) }
              else Some (other, h, root));
           rb_erase_black_l parent other h root
         }
       else
         do {
           other \<leftarrow> get_left h parent;
           red \<leftarrow> rb_is_red h other;
           (other, h, root) \<leftarrow>
             (if red then
                do { h \<leftarrow> rb_set_black other h;
                     h \<leftarrow> rb_set_red parent h;
                     (h, root) \<leftarrow> rb_rotate_right parent h root;
                     other \<leftarrow> get_left h parent;
                     Some (other, h, root) }
              else Some (other, h, root));
           rb_erase_black_r parent other h root
         }
     }"

definition rb_erase_finish :: "u64 \<Rightarrow> rb_heap \<Rightarrow> u64 \<Rightarrow> (rb_heap \<times> u64) option" where
  "rb_erase_finish node h root =
     (if node \<noteq> 0 then do { h \<leftarrow> rb_set_black node h; Some (h, root) } else Some (h, root))"

partial_function (option) rb_erase_color ::
  "u64 \<Rightarrow> u64 \<Rightarrow> rb_heap \<Rightarrow> u64 \<Rightarrow> (rb_heap \<times> u64) option" where
  "rb_erase_color node parent h root =
     do {
       black \<leftarrow> opt_black h node;
       if black \<and> node \<noteq> root then
         do { (next, h, root) \<leftarrow> rb_erase_step node parent h root;
              case next of
                Inl (node, parent) \<Rightarrow> rb_erase_color node parent h root
              | Inr node \<Rightarrow> rb_erase_finish node h root }
       else rb_erase_finish node h root
     }"

text \<open>\<^verbatim>\<open>while ((left = node->rb_left)) node = left;\<close> and its mirror image.\<close>

partial_function (option) rb_leftmost :: "rb_heap \<Rightarrow> u64 \<Rightarrow> u64 option" where
  "rb_leftmost h node = do { left \<leftarrow> get_left h node; if left \<noteq> 0 then rb_leftmost h left else Some node }"

partial_function (option) rb_rightmost :: "rb_heap \<Rightarrow> u64 \<Rightarrow> u64 option" where
  "rb_rightmost h node = do { right \<leftarrow> get_right h node; if right \<noteq> 0 then rb_rightmost h right else Some node }"

text \<open>The statement \<^verbatim>\<open>if (parent) { if (parent->rb_left == old) ... } else root->rb_node = new\<close>, which makes
  \<open>new\<close> the child of \<open>parent\<close> in the place of \<open>old\<close>.\<close>

definition rb_change_child ::
  "u64 \<Rightarrow> u64 \<Rightarrow> u64 \<Rightarrow> rb_heap \<Rightarrow> u64 \<Rightarrow> (rb_heap \<times> u64) option" where
  "rb_change_child parent old new h root =
     (if parent \<noteq> 0 then
        do { pl \<leftarrow> get_left h parent;
             h \<leftarrow> (if pl = old then set_left parent new h else set_right parent new h);
             Some (h, root) }
      else Some (h, new))"

text \<open>Both branches of \<^verbatim>\<open>rb_erase\<close>: the child, its parent and the colour that the label \<^verbatim>\<open>color\<close> uses.\<close>

definition rb_erase_simple ::
  "u64 \<Rightarrow> u64 \<Rightarrow> rb_heap \<Rightarrow> u64 \<Rightarrow> (u64 \<times> u64 \<times> u64 \<times> rb_heap \<times> u64) option" where
  "rb_erase_simple node child h root =
     do {
       parent \<leftarrow> rb_parent h node;
       color \<leftarrow> rb_color h node;
       h \<leftarrow> (if child \<noteq> 0 then rb_set_parent child parent h else Some h);
       (h, root) \<leftarrow> rb_change_child parent node child h root;
       Some (child, parent, color, h, root)
     }"

definition rb_erase_succ ::
  "u64 \<Rightarrow> rb_heap \<Rightarrow> u64 \<Rightarrow> (u64 \<times> u64 \<times> u64 \<times> rb_heap \<times> u64) option" where
  "rb_erase_succ old h root =
     do {
       node \<leftarrow> get_right h old;
       node \<leftarrow> rb_leftmost h node;
       op \<leftarrow> rb_parent h old;
       (h, root) \<leftarrow> rb_change_child op old node h root;
       child \<leftarrow> get_right h node;
       parent \<leftarrow> rb_parent h node;
       color \<leftarrow> rb_color h node;
       (parent, h) \<leftarrow>
         (if parent = old then Some (node, h)
          else
            do { h \<leftarrow> (if child \<noteq> 0 then rb_set_parent child parent h else Some h);
                 h \<leftarrow> set_left parent child h;
                 or \<leftarrow> get_right h old;
                 h \<leftarrow> set_right node or h;
                 h \<leftarrow> rb_set_parent or node h;
                 Some (parent, h) });
       on \<leftarrow> h old;
       h \<leftarrow> node_upd (\<lambda>n. n\<lparr>rb_parent_color := rb_parent_color on, rb_left := rb_left on\<rparr>) node h;
       h \<leftarrow> rb_set_parent (rb_left on) node h;
       Some (child, parent, color, h, root)
     }"

definition rb_erase :: "u64 \<Rightarrow> rb_heap \<Rightarrow> u64 \<Rightarrow> (rb_heap \<times> u64) option" where
  "rb_erase node h root =
     do {
       left \<leftarrow> get_left h node;
       right \<leftarrow> get_right h node;
       (child, parent, color, h, root) \<leftarrow>
         (if left = 0 then rb_erase_simple node right h root
          else if right = 0 then rb_erase_simple node left h root
          else rb_erase_succ node h root);
       if color = RB_BLACK then rb_erase_color child parent h root else Some (h, root)
     }"

section \<open>Traversal and replacement\<close>

definition rb_first :: "rb_heap \<Rightarrow> u64 \<Rightarrow> u64 option" where
  "rb_first h root = (if root = 0 then Some 0 else rb_leftmost h root)"

definition rb_last :: "rb_heap \<Rightarrow> u64 \<Rightarrow> u64 option" where
  "rb_last h root = (if root = 0 then Some 0 else rb_rightmost h root)"

partial_function (option) rb_climb_right :: "rb_heap \<Rightarrow> u64 \<Rightarrow> u64 option" where
  "rb_climb_right h node =
     do { parent \<leftarrow> rb_parent h node;
          if parent = 0 then Some 0
          else do { pr \<leftarrow> get_right h parent;
                    if node = pr then rb_climb_right h parent else Some parent } }"

partial_function (option) rb_climb_left :: "rb_heap \<Rightarrow> u64 \<Rightarrow> u64 option" where
  "rb_climb_left h node =
     do { parent \<leftarrow> rb_parent h node;
          if parent = 0 then Some 0
          else do { pl \<leftarrow> get_left h parent;
                    if node = pl then rb_climb_left h parent else Some parent } }"

definition rb_next :: "rb_heap \<Rightarrow> u64 \<Rightarrow> u64 option" where
  "rb_next h node =
     do { parent \<leftarrow> rb_parent h node;
          if parent = node then Some 0
          else do { right \<leftarrow> get_right h node;
                    if right \<noteq> 0 then rb_leftmost h right else rb_climb_right h node } }"

definition rb_prev :: "rb_heap \<Rightarrow> u64 \<Rightarrow> u64 option" where
  "rb_prev h node =
     do { parent \<leftarrow> rb_parent h node;
          if parent = node then Some 0
          else do { left \<leftarrow> get_left h node;
                    if left \<noteq> 0 then rb_rightmost h left else rb_climb_left h node } }"

definition rb_replace_node :: "u64 \<Rightarrow> u64 \<Rightarrow> rb_heap \<Rightarrow> u64 \<Rightarrow> (rb_heap \<times> u64) option" where
  "rb_replace_node victim new h root =
     do {
       parent \<leftarrow> rb_parent h victim;
       (h, root) \<leftarrow> rb_change_child parent victim new h root;
       left \<leftarrow> get_left h victim;
       h \<leftarrow> (if left \<noteq> 0 then rb_set_parent left new h else Some h);
       right \<leftarrow> get_right h victim;
       h \<leftarrow> (if right \<noteq> 0 then rb_set_parent right new h else Some h);
       v \<leftarrow> h victim;
       h \<leftarrow> node_upd (\<lambda>_. v) new h;
       Some (h, root)
     }"

end
