(* ===== verification/KcmpIds.thy ===== *)
theory KcmpIds
  imports Rbtree
begin

text \<open>
  The identifiers of shared kernel objects, \<^verbatim>\<open>criu/kcmp-ids.c\<close>: a red-black tree of \<^verbatim>\<open>kid_entry\<close> by
  \<^verbatim>\<open>genid\<close>, each entry being the root of a subtree of the entries with that \<^verbatim>\<open>genid\<close>, which is ordered
  by the system call \<^verbatim>\<open>kcmp\<close>.  An entry is known by its address; its members \<^verbatim>\<open>node\<close> and
  \<^verbatim>\<open>subtree_node\<close> are the cells at that address of two heaps, so \<^verbatim>\<open>rb_entry\<close> is the identity.
  The system call and the allocator are parameters; the tasks are stopped while their objects are
  compared, so \<^verbatim>\<open>kcmp\<close> is a function of its arguments.
\<close>

section \<open>Data\<close>

record kid_elem =
  ke_pid :: int
  genid :: u32
  idx :: u32

record kid_entry =
  subtree_root :: u64
  subid :: u32
  elem :: kid_elem

record kid_tree =
  kt_root :: u64
  kcmp_type :: u32
  kt_subid :: u64

record kid_mem =
  node_heap :: rb_heap
  sub_heap :: rb_heap
  entries :: "u64 \<rightharpoonup> kid_entry"

type_synonym kcmp_call = "int \<Rightarrow> int \<Rightarrow> u32 \<Rightarrow> u32 \<Rightarrow> u32 \<Rightarrow> int"

definition DECLARE_KCMP_TREE :: "u32 \<Rightarrow> kid_tree" where
  "DECLARE_KCMP_TREE type = \<lparr>kt_root = 0, kcmp_type = type, kt_subid = 1\<rparr>"

section \<open>The search loops\<close>

text \<open>What the comparison with the entry of a node makes of the search, and how a search ends:
  at a node, at a null pointer below \<^verbatim>\<open>parent\<close>, or with the failure of the comparison.\<close>

datatype dir = GoLeft | GoRight | Stop | Fail

datatype search = Found u64 | Missing u64 rb_link | Failed

definition link_get :: "rb_heap \<Rightarrow> u64 \<Rightarrow> rb_link \<Rightarrow> u64 option" where
  "link_get h root new =
     (case new of LinkRoot \<Rightarrow> Some root | LinkLeft p \<Rightarrow> get_left h p | LinkRight p \<Rightarrow> get_right h p)"

text \<open>The loop \<^verbatim>\<open>while (node)\<close> that the four functions share, with their comparison as \<open>cmp\<close>.\<close>

partial_function (option) rb_search ::
  "(u64 \<Rightarrow> dir option) \<Rightarrow> rb_heap \<Rightarrow> u64 \<Rightarrow> u64 \<Rightarrow> rb_link \<Rightarrow> u64 \<Rightarrow> search option" where
  "rb_search cmp h root node new parent =
     (if node = 0 then Some (Missing parent new)
      else do {
        d \<leftarrow> cmp node;
        parent \<leftarrow> link_get h root new;
        case d of
          GoLeft \<Rightarrow> do { node \<leftarrow> get_left h node; rb_search cmp h root node (LinkLeft parent) parent }
        | GoRight \<Rightarrow> do { node \<leftarrow> get_right h node; rb_search cmp h root node (LinkRight parent) parent }
        | Stop \<Rightarrow> Some (Found node)
        | Fail \<Rightarrow> Some Failed
      })"

definition kcmp_dir :: "int \<Rightarrow> dir" where
  "kcmp_dir ret = (if ret = 1 then GoLeft else if ret = 2 then GoRight else if ret = 0 then Stop else Fail)"

definition sub_cmp :: "kcmp_call \<Rightarrow> kid_mem \<Rightarrow> kid_tree \<Rightarrow> kid_elem \<Rightarrow> u64 \<Rightarrow> dir option" where
  "sub_cmp kcmp m tree el node =
     do { this \<leftarrow> entries m node;
          Some (kcmp_dir (kcmp (ke_pid (elem this)) (ke_pid el) (kcmp_type tree) (idx (elem this)) (idx el))) }"

definition gen_cmp :: "kid_mem \<Rightarrow> kid_elem \<Rightarrow> u64 \<Rightarrow> dir option" where
  "gen_cmp m el node =
     do { this \<leftarrow> entries m node;
          Some (if genid el < genid (elem this) then GoLeft
                else if genid el > genid (elem this) then GoRight else Stop) }"

section \<open>Operations\<close>

text \<open>The inner option is the null pointer.  The contents of the two fresh nodes do not matter:
  \<^verbatim>\<open>rb_init_node\<close> overwrites them.\<close>

definition fresh_node :: rb_node where
  "fresh_node = \<lparr>rb_parent_color = 0, rb_right = 0, rb_left = 0\<rparr>"

definition alloc_kid_entry ::
  "(kid_mem \<Rightarrow> u64 option) \<Rightarrow> kid_mem \<Rightarrow> kid_tree \<Rightarrow> kid_elem \<Rightarrow> (u64 option \<times> kid_mem \<times> kid_tree) option" where
  "alloc_kid_entry xmalloc m tree el =
     (case xmalloc m of
        None \<Rightarrow> Some (None, m, tree)
      | Some e \<Rightarrow>
          let e_subid = ucast (kt_subid tree); tree = tree\<lparr>kt_subid := kt_subid tree + 1\<rparr> in
          if e_subid = 0 then None
          else do {
            nh \<leftarrow> rb_init_node e ((node_heap m)(e \<mapsto> fresh_node));
            sh \<leftarrow> rb_init_node e ((sub_heap m)(e \<mapsto> fresh_node));
            (sh, sroot) \<leftarrow> rb_link_and_balance 0 e 0 LinkRoot sh;
            let m = m\<lparr>node_heap := nh, sub_heap := sh,
              entries := (entries m)(e \<mapsto> \<lparr>subtree_root = sroot, subid = e_subid, elem = el\<rparr>)\<rparr>;
            Some (Some e, m, tree)
          })"

text \<open>The result, the value stored to \<^verbatim>\<open>*new_id\<close> if any, and the new state.\<close>

type_synonym kid_result = "(u32 \<times> bool \<times> kid_mem \<times> kid_tree) option"

definition kid_generate_sub ::
  "kcmp_call \<Rightarrow> (kid_mem \<Rightarrow> u64 option) \<Rightarrow> kid_mem \<Rightarrow> kid_tree \<Rightarrow> u64 \<Rightarrow> kid_elem \<Rightarrow> kid_result" where
  "kid_generate_sub kcmp xmalloc m tree e el =
     do {
       en \<leftarrow> entries m e;
       let node = subtree_root en;
       if node = 0 then None
       else do {
         s \<leftarrow> rb_search (sub_cmp kcmp m tree el) (sub_heap m) (subtree_root en) node LinkRoot 0;
         case s of
           Found this \<Rightarrow> do { t \<leftarrow> entries m this; Some (subid t, False, m, tree) }
         | Failed \<Rightarrow> Some (0, False, m, tree)
         | Missing parent new \<Rightarrow>
             do {
               (sub, m, tree) \<leftarrow> alloc_kid_entry xmalloc m tree el;
               case sub of
                 None \<Rightarrow> Some (0, False, m, tree)
               | Some sub \<Rightarrow>
                   do {
                     (sh, sroot) \<leftarrow> rb_link_and_balance (subtree_root en) sub parent new (sub_heap m);
                     let m = m\<lparr>sub_heap := sh, entries := (entries m)(e \<mapsto> en\<lparr>subtree_root := sroot\<rparr>)\<rparr>;
                     s \<leftarrow> entries m sub;
                     Some (subid s, True, m, tree)
                   }
             }
       }
     }"

definition kid_generate_gen ::
  "kcmp_call \<Rightarrow> (kid_mem \<Rightarrow> u64 option) \<Rightarrow> kid_mem \<Rightarrow> kid_tree \<Rightarrow> kid_elem \<Rightarrow> kid_result" where
  "kid_generate_gen kcmp xmalloc m tree el =
     do {
       s \<leftarrow> rb_search (gen_cmp m el) (node_heap m) (kt_root tree) (kt_root tree) LinkRoot 0;
       case s of
         Found this \<Rightarrow> kid_generate_sub kcmp xmalloc m tree this el
       | Failed \<Rightarrow> None
       | Missing parent new \<Rightarrow>
           do {
             (e, m, tree) \<leftarrow> alloc_kid_entry xmalloc m tree el;
             case e of
               None \<Rightarrow> Some (0, False, m, tree)
             | Some e \<Rightarrow>
                 do {
                   (nh, root) \<leftarrow> rb_link_and_balance (kt_root tree) e parent new (node_heap m);
                   let m = m\<lparr>node_heap := nh\<rparr>;
                   let tree = tree\<lparr>kt_root := root\<rparr>;
                   en \<leftarrow> entries m e;
                   Some (subid en, True, m, tree)
                 }
           }
     }"

text \<open>The lookup of the file that an epoll descriptor watches: \<open>kcmp_tfd pid1 pid2 idx slot\<close> is the
  system call with \<^verbatim>\<open>KCMP_EPOLL_TFD\<close>.  The inner option is the null pointer.\<close>

definition tfd_cmp :: "(int \<Rightarrow> int \<Rightarrow> u32 \<Rightarrow> 's \<Rightarrow> int) \<Rightarrow> kid_mem \<Rightarrow> kid_elem \<Rightarrow> 's \<Rightarrow> u64 \<Rightarrow> dir option" where
  "tfd_cmp kcmp_tfd m el slot node =
     do { this \<leftarrow> entries m node;
          Some (kcmp_dir (kcmp_tfd (ke_pid (elem this)) (ke_pid el) (idx (elem this)) slot)) }"

definition kid_lookup_epoll_tfd_sub ::
  "(int \<Rightarrow> int \<Rightarrow> u32 \<Rightarrow> 's \<Rightarrow> int) \<Rightarrow> kid_mem \<Rightarrow> u64 \<Rightarrow> kid_elem \<Rightarrow> 's \<Rightarrow> kid_elem option option" where
  "kid_lookup_epoll_tfd_sub kcmp_tfd m e el slot =
     do {
       en \<leftarrow> entries m e;
       if subtree_root en = 0 then None
       else do {
         s \<leftarrow> rb_search (tfd_cmp kcmp_tfd m el slot) (sub_heap m) (subtree_root en) (subtree_root en) LinkRoot 0;
         case s of
           Found this \<Rightarrow> do { t \<leftarrow> entries m this; Some (Some (elem t)) }
         | Failed \<Rightarrow> Some None
         | Missing parent new \<Rightarrow> Some None
       }
     }"

definition kid_lookup_epoll_tfd ::
  "(int \<Rightarrow> int \<Rightarrow> u32 \<Rightarrow> 's \<Rightarrow> int) \<Rightarrow> kid_mem \<Rightarrow> kid_tree \<Rightarrow> kid_elem \<Rightarrow> 's \<Rightarrow> kid_elem option option" where
  "kid_lookup_epoll_tfd kcmp_tfd m tree el slot =
     do {
       s \<leftarrow> rb_search (gen_cmp m el) (node_heap m) (kt_root tree) (kt_root tree) LinkRoot 0;
       case s of
         Found this \<Rightarrow> kid_lookup_epoll_tfd_sub kcmp_tfd m this el slot
       | Failed \<Rightarrow> None
       | Missing parent new \<Rightarrow> Some None
     }"

end
