(* ===== verification/RbtreeFun.thy ===== *)
theory RbtreeFun
  imports Prelude
begin

text \<open>
  A functional account of red-black trees, against which the heap code of \<^verbatim>\<open>criu/rbtree.c\<close> is
  verified: trees of node addresses, contexts (a path from a position up to the root), the
  rebalancing of an insertion and of a removal as functions on a subtree in its context, and the
  invariants they keep.
\<close>

section \<open>Trees and contexts\<close>

datatype color = Red | Black

datatype rbt = Leaf | Node color rbt u64 rbt

text \<open>A frame is a node with a hole for its left or its right subtree.\<close>

datatype frame = InL color u64 rbt | InR color rbt u64

type_synonym ctx = "frame list"

fun fcolor :: "frame \<Rightarrow> color" where
  "fcolor (InL c a s) = c"
| "fcolor (InR c s a) = c"

fun faddr :: "frame \<Rightarrow> u64" where
  "faddr (InL c a s) = a"
| "faddr (InR c s a) = a"

fun fsib :: "frame \<Rightarrow> rbt" where
  "fsib (InL c a s) = s"
| "fsib (InR c s a) = s"

fun plug1 :: "rbt \<Rightarrow> frame \<Rightarrow> rbt" where
  "plug1 t (InL c a s) = Node c t a s"
| "plug1 t (InR c s a) = Node c s a t"

fun plug :: "rbt \<Rightarrow> ctx \<Rightarrow> rbt" where
  "plug t [] = t"
| "plug t (f # k) = plug (plug1 t f) k"

fun addrs :: "rbt \<Rightarrow> u64 list" where
  "addrs Leaf = []"
| "addrs (Node c l a r) = addrs l @ a # addrs r"

text \<open>The addresses before and after the hole of a context, in the order of the tree.\<close>

fun ctx_before :: "ctx \<Rightarrow> u64 list" where
  "ctx_before [] = []"
| "ctx_before (InL c a s # k) = ctx_before k"
| "ctx_before (InR c s a # k) = ctx_before k @ addrs s @ [a]"

fun ctx_after :: "ctx \<Rightarrow> u64 list" where
  "ctx_after [] = []"
| "ctx_after (InL c a s # k) = a # addrs s @ ctx_after k"
| "ctx_after (InR c s a # k) = ctx_after k"

lemma addrs_plug: "addrs (plug t k) = ctx_before k @ addrs t @ ctx_after k"
proof (induction k arbitrary: t)
  case (Cons f k)
  then show ?case by (cases f) auto
qed simp

lemma addrs_plug1 [simp]: "addrs (plug1 t f) = ctx_before [f] @ addrs t @ ctx_after [f]"
  by (cases f) auto

lemma in_addrs_plug: "a \<in> set (addrs t) \<Longrightarrow> \<exists>c l r k. t = plug (Node c l a r) k"
proof -
  have "a \<in> set (addrs s) \<Longrightarrow> t = plug s k \<Longrightarrow> \<exists>c l r k. t = plug (Node c l a r) k" for s k
  proof (induction s arbitrary: k)
    case (Node c l b r)
    show ?case
    proof (cases "a = b")
      case True
      with Node.prems show ?thesis by auto
    next
      case False
      with Node.prems consider "a \<in> set (addrs l)" | "a \<in> set (addrs r)" by auto
      then show ?thesis
      proof cases
        case 1
        with Node.IH(1) [of "InL c b r # k"] Node.prems show ?thesis by simp
      next
        case 2
        with Node.IH(2) [of "InR c l b # k"] Node.prems show ?thesis by simp
      qed
    qed
  qed simp
  then show "a \<in> set (addrs t) \<Longrightarrow> \<exists>c l r k. t = plug (Node c l a r) k" by (metis plug.simps(1))
qed

section \<open>Rebalancing\<close>

fun is_red :: "rbt \<Rightarrow> bool" where
  "is_red Leaf = False"
| "is_red (Node c l a r) = (c = Red)"

fun paint :: "color \<Rightarrow> rbt \<Rightarrow> rbt" where
  "paint c Leaf = Leaf"
| "paint c (Node d l a r) = Node c l a r"

text \<open>A subtree with a red root whose parent may be red too moves up the context.  The cases with an
  empty context below a red parent do not arise from a tree with a black root.\<close>

fun ins_fix :: "rbt \<Rightarrow> ctx \<Rightarrow> rbt" where
  "ins_fix t (InL Red p s # InL c g u # k) =
     (if is_red u then ins_fix (Node Red (Node Black t p s) g (paint Black u)) k
      else plug (Node Black t p (Node Red s g u)) k)"
| "ins_fix (Node ct nl n nr) (InR Red s p # InL c g u # k) =
     (if is_red u then ins_fix (Node Red (Node Black s p (Node ct nl n nr)) g (paint Black u)) k
      else plug (Node Black (Node Red s p nl) n (Node Red nr g u)) k)"
| "ins_fix (Node ct nl n nr) (InL Red p s # InR c u g # k) =
     (if is_red u then ins_fix (Node Red (paint Black u) g (Node Black (Node ct nl n nr) p s)) k
      else plug (Node Black (Node Red u g nl) n (Node Red nr p s)) k)"
| "ins_fix t (InR Red s p # InR c u g # k) =
     (if is_red u then ins_fix (Node Red (paint Black u) g (Node Black s p t)) k
      else plug (Node Black (Node Red u g s) p t) k)"
| "ins_fix t k = plug t k"

text \<open>A subtree that is short of one black node, left of a black sibling.\<close>

definition del_black_l :: "color \<Rightarrow> rbt \<Rightarrow> u64 \<Rightarrow> rbt \<Rightarrow> u64 \<Rightarrow> rbt \<Rightarrow> rbt" where
  "del_black_l c t p ql b qr =
     (if is_red qr then Node c (Node Black t p ql) b (paint Black qr)
      else case ql of
             Node d xl x xr \<Rightarrow> Node c (Node Black t p xl) x (Node Black xr b qr)
           | Leaf \<Rightarrow> Leaf)"

definition del_black_r :: "color \<Rightarrow> rbt \<Rightarrow> u64 \<Rightarrow> rbt \<Rightarrow> u64 \<Rightarrow> rbt \<Rightarrow> rbt" where
  "del_black_r c t p ql b qr =
     (if is_red ql then Node c (paint Black ql) b (Node Black qr p t)
      else case qr of
             Node d xl x xr \<Rightarrow> Node c (Node Black ql b xl) x (Node Black xr p t)
           | Leaf \<Rightarrow> Leaf)"

text \<open>The whole loop.  The result is painted at its root where the code breaks out of the loop with
  \<^verbatim>\<open>node = root->rb_node\<close>.\<close>

fun del_fix :: "rbt \<Rightarrow> ctx \<Rightarrow> rbt" where
  "del_fix (Node Red l a r) k = plug (Node Black l a r) k"
| "del_fix t [] = paint Black t"
| "del_fix t (InL c p (Node Red (Node co ql b qr) q sr) # k) =
     (if is_red ql \<or> is_red qr then
        paint Black (plug (del_black_l Red t p ql b qr) (InL Black q sr # k))
      else plug (Node Black t p (Node Red ql b qr)) (InL Black q sr # k))"
| "del_fix t (InL c p (Node Black ql b qr) # k) =
     (if is_red ql \<or> is_red qr then paint Black (plug (del_black_l c t p ql b qr) k)
      else del_fix (Node c t p (Node Red ql b qr)) k)"
| "del_fix t (InR c (Node Red sl q (Node co ql b qr)) p # k) =
     (if is_red ql \<or> is_red qr then
        paint Black (plug (del_black_r Red t p ql b qr) (InR Black sl q # k))
      else plug (Node Black (Node Red ql b qr) p t) (InR Black sl q # k))"
| "del_fix t (InR c (Node Black ql b qr) p # k) =
     (if is_red ql \<or> is_red qr then paint Black (plug (del_black_r c t p ql b qr) k)
      else del_fix (Node c (Node Red ql b qr) p t) k)"
| "del_fix t k = plug t k"

section \<open>Invariants\<close>

fun bh :: "rbt \<Rightarrow> nat" where
  "bh Leaf = 0"
| "bh (Node c l a r) = (if c = Black then Suc (bh l) else bh l)"

fun rb :: "rbt \<Rightarrow> bool" where
  "rb Leaf = True"
| "rb (Node c l a r) = (rb l \<and> rb r \<and> bh l = bh r \<and> (c = Red \<longrightarrow> \<not> is_red l \<and> \<not> is_red r))"

text \<open>A context that a subtree of black height \<open>n\<close> completes to a tree with a black root.\<close>

fun ctx_ok :: "nat \<Rightarrow> ctx \<Rightarrow> bool" where
  "ctx_ok n [] = True"
| "ctx_ok n (f # k) =
     (rb (fsib f) \<and> bh (fsib f) = n \<and>
      (fcolor f = Red \<longrightarrow> \<not> is_red (fsib f) \<and> (\<exists>g k'. k = g # k' \<and> fcolor g = Black)) \<and>
      ctx_ok (if fcolor f = Black then Suc n else n) k)"

definition hole_black :: "ctx \<Rightarrow> bool" where
  "hole_black k = (case k of [] \<Rightarrow> True | f # _ \<Rightarrow> fcolor f = Red)"

lemma color_neq [simp]: "(c \<noteq> Red) = (c = Black)" "(c \<noteq> Black) = (c = Red)" by (cases c; simp)+

lemma is_red_paint [simp]: "is_red (paint Black t) = False" by (cases t) auto

lemma rb_paint_Black: "rb t \<Longrightarrow> rb (paint Black t)" by (cases t) auto

lemma bh_paint_Black: "is_red t \<Longrightarrow> bh (paint Black t) = Suc (bh t)"
  by (cases t) auto

lemma addrs_paint [simp]: "addrs (paint c t) = addrs t" by (cases t) auto

lemma is_redE: "is_red t \<Longrightarrow> (\<And>l a r. t = Node Red l a r \<Longrightarrow> P) \<Longrightarrow> P"
  by (cases t) auto

lemma rb_plug:
  "rb t \<Longrightarrow> ctx_ok (bh t) k \<Longrightarrow> (is_red t \<longrightarrow> \<not> hole_black k) \<Longrightarrow>
     rb (plug t k) \<and> \<not> is_red (plug t k)"
proof (induction k arbitrary: t)
  case (Cons f k)
  have "rb (plug1 t f) \<and> ctx_ok (bh (plug1 t f)) k \<and> (is_red (plug1 t f) \<longrightarrow> \<not> hole_black k)"
  proof (cases f)
    case (InL c a s)
    with Cons.prems show ?thesis by (cases c) (auto simp: hole_black_def)
  next
    case (InR c s a)
    with Cons.prems show ?thesis by (cases c) (auto simp: hole_black_def)
  qed
  with Cons.IH [of "plug1 t f"] show ?case by simp
qed (auto simp: hole_black_def)

lemma rb_paint_plug:
  "rb t \<Longrightarrow> ctx_ok (bh t) k \<Longrightarrow> (is_red t \<longrightarrow> \<not> hole_black k) \<Longrightarrow> rb (paint Black (plug t k))"
  by (simp add: rb_plug rb_paint_Black)

lemma rb_plugD:
  "rb (plug t k) \<Longrightarrow> \<not> is_red (plug t k) \<Longrightarrow>
     rb t \<and> ctx_ok (bh t) k \<and> (is_red t \<longrightarrow> \<not> hole_black k)"
proof (induction k arbitrary: t)
  case (Cons f k)
  from Cons.IH [of "plug1 t f"] Cons.prems
  have *: "rb (plug1 t f)" "ctx_ok (bh (plug1 t f)) k" "is_red (plug1 t f) \<longrightarrow> \<not> hole_black k"
    by auto
  show ?case
  proof (cases f)
    case (InL c a s)
    with * show ?thesis by (cases c; cases k) (auto simp: hole_black_def)
  next
    case (InR c s a)
    with * show ?thesis by (cases c; cases k) (auto simp: hole_black_def)
  qed
qed simp

section \<open>Insertion\<close>

lemma addrs_ins_fix: "addrs (ins_fix t k) = ctx_before k @ addrs t @ ctx_after k"
  by (induction t k rule: ins_fix.induct) (simp_all add: addrs_plug)

text \<open>The positions that the loop can reach.\<close>

lemma ins_induct [consumes 3, case_names root parent_black ll lr rl rr]:
  assumes "rb t" and "is_red t" and "ctx_ok (bh t) k"
    and root: "\<And>t. rb t \<Longrightarrow> is_red t \<Longrightarrow> P t []"
    and black: "\<And>t f k. rb t \<Longrightarrow> is_red t \<Longrightarrow> fcolor f = Black \<Longrightarrow> ctx_ok (bh t) (f # k) \<Longrightarrow> P t (f # k)"
    and ll: "\<And>t p s g u k. rb t \<Longrightarrow> is_red t \<Longrightarrow> rb s \<Longrightarrow> \<not> is_red s \<Longrightarrow> bh s = bh t \<Longrightarrow> rb u \<Longrightarrow> bh u = bh t \<Longrightarrow>
      ctx_ok (Suc (bh t)) k \<Longrightarrow>
      (is_red u \<Longrightarrow> P (Node Red (Node Black t p s) g (paint Black u)) k) \<Longrightarrow>
      P t (InL Red p s # InL Black g u # k)"
    and lr: "\<And>nl n nr p s g u k. rb (Node Red nl n nr) \<Longrightarrow> rb s \<Longrightarrow> \<not> is_red s \<Longrightarrow> bh s = bh nl \<Longrightarrow> rb u \<Longrightarrow> bh u = bh nl \<Longrightarrow>
      ctx_ok (Suc (bh nl)) k \<Longrightarrow>
      (is_red u \<Longrightarrow> P (Node Red (Node Black s p (Node Red nl n nr)) g (paint Black u)) k) \<Longrightarrow>
      P (Node Red nl n nr) (InR Red s p # InL Black g u # k)"
    and rl: "\<And>nl n nr p s g u k. rb (Node Red nl n nr) \<Longrightarrow> rb s \<Longrightarrow> \<not> is_red s \<Longrightarrow> bh s = bh nl \<Longrightarrow> rb u \<Longrightarrow> bh u = bh nl \<Longrightarrow>
      ctx_ok (Suc (bh nl)) k \<Longrightarrow>
      (is_red u \<Longrightarrow> P (Node Red (paint Black u) g (Node Black (Node Red nl n nr) p s)) k) \<Longrightarrow>
      P (Node Red nl n nr) (InL Red p s # InR Black u g # k)"
    and rr: "\<And>t p s g u k. rb t \<Longrightarrow> is_red t \<Longrightarrow> rb s \<Longrightarrow> \<not> is_red s \<Longrightarrow> bh s = bh t \<Longrightarrow> rb u \<Longrightarrow> bh u = bh t \<Longrightarrow>
      ctx_ok (Suc (bh t)) k \<Longrightarrow>
      (is_red u \<Longrightarrow> P (Node Red (paint Black u) g (Node Black s p t)) k) \<Longrightarrow>
      P t (InR Red s p # InR Black u g # k)"
  shows "P t k"
  using assms(1-3)
proof (induction k arbitrary: t rule: length_induct)
  case (1 k)
  from 1(3) obtain nl n nr where t: "t = Node Red nl n nr" by (auto elim: is_redE)
  show ?case
  proof (cases k)
    case Nil
    with 1 root show ?thesis by simp
  next
    case (Cons f k')
    show ?thesis
    proof (cases "fcolor f")
      case Black
      with 1 Cons black show ?thesis by simp
    next
      case Red
      with 1(4) Cons obtain g k2 where k': "k' = g # k2" and g: "fcolor g = Black" by auto
      have IH: "P t' k2" if "rb t'" "is_red t'" "ctx_ok (bh t') k2" for t'
        using 1(1) that Cons k' by simp
      show ?thesis
      proof (cases f; cases g)
        fix cp p s cg ga u assume "f = InL cp p s" "g = InL cg ga u"
        with 1(2-4) Cons k' g Red show ?thesis
          by (auto intro!: ll IH simp: rb_paint_Black bh_paint_Black)
      next
        fix cp p s cg u ga assume "f = InL cp p s" "g = InR cg u ga"
        with 1(2-4) Cons k' g Red t show ?thesis
          by (auto intro!: rl IH simp: rb_paint_Black bh_paint_Black)
      next
        fix cp s p cg ga u assume "f = InR cp s p" "g = InL cg ga u"
        with 1(2-4) Cons k' g Red t show ?thesis
          by (auto intro!: lr IH simp: rb_paint_Black bh_paint_Black)
      next
        fix cp s p cg u ga assume "f = InR cp s p" "g = InR cg u ga"
        with 1(2-4) Cons k' g Red show ?thesis
          by (auto intro!: rr IH simp: rb_paint_Black bh_paint_Black)
      qed
    qed
  qed
qed

lemma ins_fix_black: "fcolor f = Black \<Longrightarrow> ins_fix t (f # k) = plug t (f # k)"
  by (induction t "f # k" rule: ins_fix.induct) auto

lemma ins_fix_rb:
  "rb t \<Longrightarrow> is_red t \<Longrightarrow> ctx_ok (bh t) k \<Longrightarrow> rb (paint Black (ins_fix t k))"
proof (induction t k rule: ins_induct)
  case (root t)
  then show ?case by (simp add: rb_paint_Black)
next
  case (parent_black t f k)
  then show ?case by (simp add: ins_fix_black hole_black_def rb_paint_plug del: plug.simps)
qed (auto simp: hole_black_def intro!: rb_paint_plug)

section \<open>Removal\<close>

lemma del_black_l_ok:
  assumes "rb t" and "rb (Node Black ql b qr)" and "bh ql = bh t" and "is_red ql \<or> is_red qr"
  shows "rb (del_black_l c t p ql b qr)"
    and "bh (del_black_l c t p ql b qr) = (if c = Black then Suc (Suc (bh t)) else Suc (bh t))"
    and "is_red (del_black_l c t p ql b qr) = (c = Red)"
    and "addrs (del_black_l c t p ql b qr) = addrs t @ p # addrs ql @ b # addrs qr"
  using assms by (cases ql; cases qr; auto simp: del_black_l_def)+

lemma del_black_r_ok:
  assumes "rb t" and "rb (Node Black ql b qr)" and "bh ql = bh t" and "is_red ql \<or> is_red qr"
  shows "rb (del_black_r c t p ql b qr)"
    and "bh (del_black_r c t p ql b qr) = (if c = Black then Suc (Suc (bh t)) else Suc (bh t))"
    and "is_red (del_black_r c t p ql b qr) = (c = Red)"
    and "addrs (del_black_r c t p ql b qr) = addrs ql @ b # addrs qr @ p # addrs t"
  using assms by (cases ql; cases qr; auto simp: del_black_r_def)+

text \<open>The sibling of a subtree that is short of one black node has both children.\<close>

lemma bh_pos: "bh t = Suc n \<Longrightarrow> \<not> is_red t \<Longrightarrow> \<exists>l a r. t = Node Black l a r"
  by (cases t) auto

lemma del_fix_root: "\<not> is_red t \<Longrightarrow> del_fix t [] = paint Black t" by (cases t) auto

lemma del_fix_l_red: "\<not> is_red t \<Longrightarrow>
  del_fix t (InL c p (Node Red (Node co ql b qr) q sr) # k) =
    (if is_red ql \<or> is_red qr then
       paint Black (plug (del_black_l Red t p ql b qr) (InL Black q sr # k))
     else plug (Node Black t p (Node Red ql b qr)) (InL Black q sr # k))"
  by (cases t) auto

lemma del_fix_l_black: "\<not> is_red t \<Longrightarrow>
  del_fix t (InL c p (Node Black ql b qr) # k) =
    (if is_red ql \<or> is_red qr then paint Black (plug (del_black_l c t p ql b qr) k)
     else del_fix (Node c t p (Node Red ql b qr)) k)"
  by (cases t) auto

lemma del_fix_r_red: "\<not> is_red t \<Longrightarrow>
  del_fix t (InR c (Node Red sl q (Node co ql b qr)) p # k) =
    (if is_red ql \<or> is_red qr then
       paint Black (plug (del_black_r Red t p ql b qr) (InR Black sl q # k))
     else plug (Node Black (Node Red ql b qr) p t) (InR Black sl q # k))"
  by (cases t) auto

lemma del_fix_r_black: "\<not> is_red t \<Longrightarrow>
  del_fix t (InR c (Node Black ql b qr) p # k) =
    (if is_red ql \<or> is_red qr then paint Black (plug (del_black_r c t p ql b qr) k)
     else del_fix (Node c (Node Red ql b qr) p t) k)"
  by (cases t) auto

lemmas del_fix_eqs = del_fix_root del_fix_l_red del_fix_l_black del_fix_r_red del_fix_r_black

text \<open>The positions that the loop can reach, with the shape of the sibling that the invariant gives.\<close>

lemma del_induct [consumes 2, case_names red root l_red l_black r_red r_black]:
  assumes "rb (paint Black t)" and "ctx_ok (Suc (bh t)) k"
    and red: "\<And>l a r k. rb l \<Longrightarrow> rb r \<Longrightarrow> bh l = bh r \<Longrightarrow> ctx_ok (Suc (bh l)) k \<Longrightarrow> P (Node Red l a r) k"
    and root: "\<And>t. rb t \<Longrightarrow> \<not> is_red t \<Longrightarrow> P t []"
    and l_red: "\<And>t p ql b qr q sr k. rb t \<Longrightarrow> \<not> is_red t \<Longrightarrow> rb (Node Black ql b qr) \<Longrightarrow> bh ql = bh t \<Longrightarrow>
      rb sr \<Longrightarrow> \<not> is_red sr \<Longrightarrow> bh sr = Suc (bh t) \<Longrightarrow> ctx_ok (Suc (Suc (bh t))) k \<Longrightarrow>
      P t (InL Black p (Node Red (Node Black ql b qr) q sr) # k)"
    and l_black: "\<And>t c p ql b qr k. rb t \<Longrightarrow> \<not> is_red t \<Longrightarrow> rb (Node Black ql b qr) \<Longrightarrow> bh ql = bh t \<Longrightarrow>
      ctx_ok (if c = Black then Suc (Suc (bh t)) else Suc (bh t)) k \<Longrightarrow> (c = Red \<Longrightarrow> \<not> hole_black k) \<Longrightarrow>
      (\<not> is_red ql \<Longrightarrow> \<not> is_red qr \<Longrightarrow> P (Node c t p (Node Red ql b qr)) k) \<Longrightarrow>
      P t (InL c p (Node Black ql b qr) # k)"
    and r_red: "\<And>t p ql b qr q sl k. rb t \<Longrightarrow> \<not> is_red t \<Longrightarrow> rb (Node Black ql b qr) \<Longrightarrow> bh ql = bh t \<Longrightarrow>
      rb sl \<Longrightarrow> \<not> is_red sl \<Longrightarrow> bh sl = Suc (bh t) \<Longrightarrow> ctx_ok (Suc (Suc (bh t))) k \<Longrightarrow>
      P t (InR Black (Node Red sl q (Node Black ql b qr)) p # k)"
    and r_black: "\<And>t c p ql b qr k. rb t \<Longrightarrow> \<not> is_red t \<Longrightarrow> rb (Node Black ql b qr) \<Longrightarrow> bh ql = bh t \<Longrightarrow>
      ctx_ok (if c = Black then Suc (Suc (bh t)) else Suc (bh t)) k \<Longrightarrow> (c = Red \<Longrightarrow> \<not> hole_black k) \<Longrightarrow>
      (\<not> is_red ql \<Longrightarrow> \<not> is_red qr \<Longrightarrow> P (Node c (Node Red ql b qr) p t) k) \<Longrightarrow>
      P t (InR c (Node Black ql b qr) p # k)"
  shows "P t k"
  using assms(1,2)
proof (induction k arbitrary: t)
  case Nil
  then have "\<not> is_red t \<Longrightarrow> rb t" by (cases t) auto
  with Nil show ?case using root [of t] red by (cases "is_red t") (auto elim: is_redE)
next
  case (Cons f k)
  let ?s = "fsib f"
  have s: "rb ?s" "bh ?s = Suc (bh t)"
    "ctx_ok (if fcolor f = Black then Suc (Suc (bh t)) else Suc (bh t)) k"
    "fcolor f = Red \<longrightarrow> \<not> is_red ?s \<and> \<not> hole_black k"
    using Cons.prems by (auto simp: hole_black_def)
  show ?case
  proof (cases "is_red t")
    case True
    then obtain l a r where "t = Node Red l a r" by (auto elim: is_redE)
    with Cons.prems red [of l r "f # k" a] show ?thesis by simp
  next
    case black: False
    with Cons.prems have rbt: "rb t" by (cases t) auto
    show ?thesis
    proof (cases "is_red ?s")
      case True
      then obtain sl q sr where q: "?s = Node Red sl q sr" by (auto elim: is_redE)
      with s True have c: "fcolor f = Black" and b: "bh sl = Suc (bh t)" "bh sr = Suc (bh t)"
        "\<not> is_red sl" "\<not> is_red sr" by auto
      obtain ll la lr rl ra rr where n: "sl = Node Black ll la lr" "sr = Node Black rl ra rr"
        using bh_pos b by metis
      show ?thesis
        using l_red [of t ll la lr sr k] r_red [of t rl ra rr sl k] black c q n b s rbt
        by (cases f) auto
    next
      case False
      then obtain ql b qr where n: "?s = Node Black ql b qr" using bh_pos s by metis
      have "\<not> is_red ql \<Longrightarrow> \<not> is_red qr \<Longrightarrow> P (Node c t p (Node Red ql b qr)) k" if "f = InL c p ?s" for c p
        using Cons.IH [of "Node c t p (Node Red ql b qr)"] that n s rbt black
        by (cases c) auto
      moreover have "\<not> is_red ql \<Longrightarrow> \<not> is_red qr \<Longrightarrow> P (Node c (Node Red ql b qr) p t) k" if "f = InR c ?s p" for c p
        using Cons.IH [of "Node c (Node Red ql b qr) p t"] that n s rbt black
        by (cases c) auto
      ultimately show ?thesis
        using l_black [of t ql b qr] r_black [of t ql b qr] black n s rbt by (cases f) auto
    qed
  qed
qed

lemma del_fix_rb:
  "rb (paint Black t) \<Longrightarrow> ctx_ok (Suc (bh t)) k \<Longrightarrow> rb (del_fix t k) \<and> \<not> is_red (del_fix t k)"
proof (induction t k rule: del_induct)
  case (red l a r k)
  then show ?case using rb_plug [of "Node Black l a r" k] by simp
next
  case (l_red t p ql b qr q sr k)
  then show ?case
    using rb_plug [of "Node Black t p (Node Red ql b qr)" "InL Black q sr # k"]
    by (auto simp: del_fix_eqs hole_black_def del_black_l_ok intro!: rb_paint_plug simp del: plug.simps)
next
  case (l_black t c p ql b qr k)
  then show ?case by (auto simp: del_fix_eqs del_black_l_ok intro!: rb_paint_plug)
next
  case (r_red t p ql b qr q sl k)
  then show ?case
    using rb_plug [of "Node Black (Node Red ql b qr) p t" "InR Black sl q # k"]
    by (auto simp: del_fix_eqs hole_black_def del_black_r_ok intro!: rb_paint_plug simp del: plug.simps)
next
  case (r_black t c p ql b qr k)
  then show ?case by (auto simp: del_fix_eqs del_black_r_ok intro!: rb_paint_plug)
qed (simp add: del_fix_root rb_paint_Black)

lemma addrs_del_fix:
  "rb (paint Black t) \<Longrightarrow> ctx_ok (Suc (bh t)) k \<Longrightarrow> addrs (del_fix t k) = ctx_before k @ addrs t @ ctx_after k"
  by (induction t k rule: del_induct)
    (simp_all add: del_fix_eqs addrs_plug del_black_l_ok del_black_r_ok)

end
