(* ===== verification/RbtreeHeap.thy ===== *)
theory RbtreeHeap
  imports Rbtree RbtreeFun
begin

text \<open>
  The heap of \<^verbatim>\<open>criu/rbtree.c\<close> represents a functional tree.  The operations of the code on a heap
  that represents a tree never dereference a bad pointer, terminate, and lead to a heap that
  represents the tree that the functional account gives; nodes outside the tree do not change.
\<close>

section \<open>The word that holds the parent and the colour\<close>

definition cbit :: "color \<Rightarrow> u64" where
  "cbit c = (case c of Red \<Rightarrow> 0 | Black \<Rightarrow> 1)"

definition pc :: "u64 \<Rightarrow> color \<Rightarrow> u64" where
  "pc p c = p OR cbit c"

definition aligned :: "u64 \<Rightarrow> bool" where
  "aligned p = (p AND 3 = 0)"

lemma three_mask: "(3 :: u64) = mask 2" by (simp add: mask_eq_exp_minus_1)

lemma bit_3: "bit (3 :: u64) n = (n = 0 \<or> n = 1)"
  unfolding three_mask by (auto simp: bit_mask_iff less_2_cases_iff)

lemma bit_1: "bit (1 :: u64) n = (n = 0)" by (simp add: bit_1_iff)

lemma bit_cbit: "bit (cbit c) n = (n = 0 \<and> c = Black)"
  by (cases c) (simp_all add: cbit_def bit_1_iff)

lemma bit_not_3: "bit (NOT 3 :: u64) n = (n < 64 \<and> n \<noteq> 0 \<and> n \<noteq> 1)"
  by (simp only: bit_not_iff bit_3 possible_bit_word length_64 de_Morgan_disj)

lemma bit_not_1: "bit (NOT 1 :: u64) n = (n < 64 \<and> n \<noteq> 0)"
  by (simp only: bit_not_iff bit_1 possible_bit_word length_64)

lemmas bit_pc = bit_3 bit_1 bit_not_3 bit_not_1 bit_cbit bit_and_iff bit_or_iff

lemma aligned_bits: "aligned p = (\<not> bit p 0 \<and> \<not> bit p 1)"
proof
  assume "aligned p"
  then have "bit (p AND 3) n = False" for n by (simp add: aligned_def)
  then show "\<not> bit p 0 \<and> \<not> bit p 1" by (metis bit_3 bit_and_iff)
next
  assume "\<not> bit p 0 \<and> \<not> bit p 1"
  then have "\<not> bit (p AND 3) n" for n by (metis bit_3 bit_and_iff)
  then have "p AND 3 = 0" by (intro bit_word_eqI) (simp only: bit_0_eq bot_apply bot_bool_def)
  then show "aligned p" by (simp add: aligned_def)
qed

lemma aligned_0 [simp]: "aligned 0" by (simp add: aligned_def)

lemma alignedD: "aligned p \<Longrightarrow> bit p n \<Longrightarrow> n \<noteq> 0 \<and> n \<noteq> 1"
  by (metis aligned_bits)

lemma pc_parent: "aligned p \<Longrightarrow> pc p c AND NOT 3 = p"
  by (rule bit_word_eqI) (simp only: bit_pc pc_def length_64, use alignedD in blast)

lemma pc_color: "aligned p \<Longrightarrow> pc p c AND 1 = cbit c"
  by (rule bit_word_eqI) (simp only: bit_pc pc_def length_64, use alignedD in blast)

lemma pc_set_black: "pc p c OR 1 = pc p Black"
  by (rule bit_word_eqI) (simp only: bit_pc pc_def length_64, auto)

lemma pc_set_red: "aligned p \<Longrightarrow> pc p c AND NOT 1 = pc p Red"
  by (rule bit_word_eqI) (simp only: bit_pc pc_def length_64 color.distinct, use alignedD in blast)

lemma pc_and_mask: "aligned p \<Longrightarrow> pc p c AND 3 = pc 0 c"
  by (rule bit_word_eqI) (simp only: bit_pc pc_def length_64 bit_0_eq bot_apply bot_bool_def, use alignedD in blast)

text \<open>The simplifier writes the complements of the masks as \<open>- 4\<close> and \<open>- 2\<close>.\<close>

lemma not_masks: "(- 4 :: u64) = NOT 3" "(- 2 :: u64) = NOT 1" by simp_all

lemma pc_parent': "aligned p \<Longrightarrow> pc p c AND - 4 = p"
  unfolding not_masks by (rule pc_parent)

lemma pc_set_red': "aligned p \<Longrightarrow> pc p c AND - 2 = pc p Red"
  unfolding not_masks by (rule pc_set_red)

lemma pc_or_cbit: "pc p Red OR cbit d = pc p d"
  by (simp add: pc_def cbit_def)

lemma pc_0_or: "pc 0 c OR q = pc q c"
  by (simp add: pc_def or.commute)

lemmas pc_simps = pc_parent' pc_color pc_set_black pc_set_red' pc_and_mask pc_0_or pc_or_cbit

lemma cbit_eq_0 [simp]: "(cbit c = 0) = (c = Red)" by (cases c) (simp_all add: cbit_def)

lemma cbit_eq_1 [simp]: "(cbit c = 1) = (c = Black)" by (cases c) (simp_all add: cbit_def)

section \<open>Representation\<close>

fun rootp :: "rbt \<Rightarrow> u64" where
  "rootp Leaf = 0"
| "rootp (Node c l a r) = a"

fun tree_at :: "rb_heap \<Rightarrow> u64 \<Rightarrow> rbt \<Rightarrow> bool" where
  "tree_at h par Leaf = True"
| "tree_at h par (Node c l a r) =
     (a \<noteq> 0 \<and> aligned a \<and>
      h a = Some \<lparr>rb_parent_color = pc par c, rb_right = rootp r, rb_left = rootp l\<rparr> \<and>
      tree_at h a l \<and> tree_at h a r)"

fun cpar :: "ctx \<Rightarrow> u64" where
  "cpar [] = 0"
| "cpar (f # k) = faddr f"

fun ctx_at :: "rb_heap \<Rightarrow> u64 \<Rightarrow> ctx \<Rightarrow> u64 \<Rightarrow> bool" where
  "ctx_at h p [] root = (root = p)"
| "ctx_at h p (InL c a s # k) root =
     (a \<noteq> 0 \<and> aligned a \<and>
      h a = Some \<lparr>rb_parent_color = pc (cpar k) c, rb_right = rootp s, rb_left = p\<rparr> \<and>
      tree_at h a s \<and> ctx_at h a k root)"
| "ctx_at h p (InR c s a # k) root =
     (a \<noteq> 0 \<and> aligned a \<and>
      h a = Some \<lparr>rb_parent_color = pc (cpar k) c, rb_right = p, rb_left = rootp s\<rparr> \<and>
      tree_at h a s \<and> ctx_at h a k root)"

text \<open>\<open>rep h root t\<close>: the tree below \<open>root\<close> is \<open>t\<close>.  \<open>repz\<close> is the same for a subtree in its context.\<close>

definition rep :: "rb_heap \<Rightarrow> u64 \<Rightarrow> rbt \<Rightarrow> bool" where
  "rep h root t = (root = rootp t \<and> tree_at h 0 t \<and> distinct (addrs t))"

fun caddrs :: "ctx \<Rightarrow> u64 list" where
  "caddrs [] = []"
| "caddrs (f # k) = faddr f # addrs (fsib f) @ caddrs k"

definition repz :: "rb_heap \<Rightarrow> u64 \<Rightarrow> rbt \<Rightarrow> ctx \<Rightarrow> bool" where
  "repz h root t k =
     (tree_at h (cpar k) t \<and> ctx_at h (rootp t) k root \<and> distinct (addrs t @ caddrs k))"

lemma repz_plug1: "repz h root (plug1 t f) k = repz h root t (f # k)"
  by (cases f) (auto simp: repz_def)

lemma rep_plug: "rep h root (plug t k) = repz h root t k"
proof (induction k arbitrary: t)
  case Nil
  show ?case by (auto simp: rep_def repz_def)
next
  case (Cons f k)
  then show ?case by (simp add: repz_plug1)
qed

lemma set_caddrs: "set (caddrs k) = set (ctx_before k) \<union> set (ctx_after k)"
proof (induction k)
  case (Cons f k)
  then show ?case by (cases f) auto
qed simp

section \<open>Frame rules\<close>

declare fun_upd_apply [simp del] fun_upd_same [simp] fun_upd_other [simp]

lemma tree_at_upd [simp]: "a \<notin> set (addrs t) \<Longrightarrow> tree_at (h(a \<mapsto> n)) par t = tree_at h par t"
  by (induction t arbitrary: par) auto

lemma ctx_at_upd [simp]: "a \<notin> set (caddrs k) \<Longrightarrow> ctx_at (h(a \<mapsto> n)) p k root = ctx_at h p k root"
proof (induction k arbitrary: p)
  case (Cons f k)
  then show ?case by (cases f) auto
qed simp

lemma rootp_in [simp]: "t \<noteq> Leaf \<Longrightarrow> rootp t \<in> set (addrs t)" by (cases t) auto

lemma neq_rootp [simp]:
  "a \<noteq> 0 \<Longrightarrow> a \<notin> set (addrs t) \<Longrightarrow> (a = rootp t) = False"
  "a \<noteq> 0 \<Longrightarrow> a \<notin> set (addrs t) \<Longrightarrow> (rootp t = a) = False"
  by (cases t; auto)+

lemma tree_at_root: "tree_at h par t \<Longrightarrow> (rootp t = 0) = (t = Leaf)" by (cases t) auto

lemma tree_at_nz: "tree_at h par t \<Longrightarrow> 0 \<notin> set (addrs t)"
  by (induction t arbitrary: par) auto

lemma ctx_at_nz: "ctx_at h p k root \<Longrightarrow> 0 \<notin> set (caddrs k)"
proof (induction k arbitrary: p)
  case (Cons f k)
  then show ?case by (cases f) (auto dest: tree_at_nz)
qed simp

lemma ctx_at_cpar: "ctx_at h p k root \<Longrightarrow> aligned (cpar k) \<and> (cpar k = 0) = (k = [])"
  by (cases "(h, p, k, root)" rule: ctx_at.cases) auto

lemmas field_defs = rb_parent_def rb_color_def rb_is_red_def rb_is_black_def get_left_def get_right_def
  set_left_def set_right_def rb_set_red_def rb_set_black_def rb_set_parent_def rb_set_color_def
  node_upd_def

section \<open>Rotations\<close>

text \<open>Only nodes at the addresses of \<open>S\<close> change.\<close>

definition only :: "u64 set \<Rightarrow> rb_heap \<Rightarrow> rb_heap \<Rightarrow> bool" where
  "only S h h' = (\<forall>x. x \<notin> S \<longrightarrow> h' x = h x)"

lemma only_refl [simp]: "only S h h" by (simp add: only_def)

lemma only_updI [intro!]: "x \<in> S \<Longrightarrow> only S h h' \<Longrightarrow> only S h (h'(x \<mapsto> n))"
  by (auto simp: only_def fun_upd_apply)

lemma only_trans: "only S h h' \<Longrightarrow> only S h' h'' \<Longrightarrow> only S h h''" by (simp add: only_def)

lemma rotate_left_ok:
  assumes "repz h root (Node c l a (Node d rl b rr)) k"
  shows "\<exists>h' root'. rb_rotate_left a h root = Some (h', root') \<and>
    repz h' root' (Node d (Node c l a rl) b rr) k \<and>
    only (set (addrs (Node c l a (Node d rl b rr))) \<union> set (caddrs k)) h h'"
proof (cases k)
  case Nil
  with assms show ?thesis 
    by (cases rl) (auto simp: repz_def rb_rotate_left_def field_defs pc_simps)
next
  case (Cons f k')
  with assms show ?thesis 
    by (cases rl; cases f) (auto simp: repz_def rb_rotate_left_def field_defs pc_simps ctx_at_cpar)
qed

lemma rotate_right_ok:
  assumes "repz h root (Node c (Node d ll b lr) a r) k"
  shows "\<exists>h' root'. rb_rotate_right a h root = Some (h', root') \<and>
    repz h' root' (Node d ll b (Node c lr a r)) k \<and>
    only (set (addrs (Node c (Node d ll b lr) a r)) \<union> set (caddrs k)) h h'"
proof (cases k)
  case Nil
  with assms show ?thesis 
    by (cases lr) (auto simp: repz_def rb_rotate_right_def field_defs pc_simps)
next
  case (Cons f k')
  with assms show ?thesis 
    by (cases lr; cases f) (auto simp: repz_def rb_rotate_right_def field_defs pc_simps ctx_at_cpar)
qed

section \<open>Steps on a represented tree\<close>

text \<open>\<open>st h0 S h root t k\<close>: the heap \<open>h\<close> holds \<open>t\<close> in the context \<open>k\<close>, the nodes of the tree are \<open>S\<close>,
  and the rest of the heap is as in \<open>h0\<close>.\<close>

definition st :: "rb_heap \<Rightarrow> u64 set \<Rightarrow> rb_heap \<Rightarrow> u64 \<Rightarrow> rbt \<Rightarrow> ctx \<Rightarrow> bool" where
  "st h0 S h root t k = (repz h root t k \<and> set (addrs t) \<union> set (caddrs k) = S \<and> only S h0 h)"

lemma st_zoom_l: "st h0 S h root (Node c l a r) k = st h0 S h root l (InL c a r # k)"
  using repz_plug1 [of h root l "InL c a r" k] by (auto simp: st_def)

lemma st_zoom_r: "st h0 S h root (Node c l a r) k = st h0 S h root r (InR c l a # k)"
  using repz_plug1 [of h root r "InR c l a" k] by (auto simp: st_def)

lemma st_plug: "st h0 S h root (plug t k) [] = st h0 S h root t k"
proof (induction k arbitrary: t)
  case (Cons f k)
  then show ?case by (cases f) (simp_all add: st_zoom_l [symmetric] st_zoom_r [symmetric])
qed simp

lemma st_only: "st h0 S h root t k \<Longrightarrow> only S h h' \<Longrightarrow> repz h' root' t' k' \<Longrightarrow>
    set (addrs t') \<union> set (caddrs k') = S \<Longrightarrow> st h0 S h' root' t' k'"
  by (auto simp: st_def intro: only_trans)

lemma st_rotate_left:
  assumes "st h0 S h root (Node c l a (Node d rl b rr)) k"
  shows "\<exists>h' root'. rb_rotate_left a h root = Some (h', root') \<and>
    st h0 S h' root' (Node d (Node c l a rl) b rr) k"
proof -
  have z: "repz h root (Node c l a (Node d rl b rr)) k"
    and S: "set (addrs (Node c l a (Node d rl b rr))) \<union> set (caddrs k) = S"
    using assms by (auto simp: st_def)
  show ?thesis using rotate_left_ok [OF z] st_only [OF assms] S by fastforce
qed

lemma st_rotate_right:
  assumes "st h0 S h root (Node c (Node d ll b lr) a r) k"
  shows "\<exists>h' root'. rb_rotate_right a h root = Some (h', root') \<and>
    st h0 S h' root' (Node d ll b (Node c lr a r)) k"
proof -
  have z: "repz h root (Node c (Node d ll b lr) a r) k"
    and S: "set (addrs (Node c (Node d ll b lr) a r)) \<union> set (caddrs k) = S"
    using assms by (auto simp: st_def)
  show ?thesis using rotate_right_ok [OF z] st_only [OF assms] S by fastforce
qed

lemma st_paint:
  assumes "st h0 S h root (Node c l a r) k"
  shows "\<exists>h'. rb_set_black a h = Some h' \<and> st h0 S h' root (Node Black l a r) k"
    and "\<exists>h'. rb_set_red a h = Some h' \<and> st h0 S h' root (Node Red l a r) k"
    and "\<exists>h'. rb_set_color a (cbit d) h = Some h' \<and> st h0 S h' root (Node d l a r) k"
proof -
  have "aligned (cpar k)" using assms ctx_at_cpar by (auto simp: st_def repz_def)
  then show "\<exists>h'. rb_set_black a h = Some h' \<and> st h0 S h' root (Node Black l a r) k"
    and "\<exists>h'. rb_set_red a h = Some h' \<and> st h0 S h' root (Node Red l a r) k"
    and "\<exists>h'. rb_set_color a (cbit d) h = Some h' \<and> st h0 S h' root (Node d l a r) k"
    using assms by (auto simp: st_def repz_def field_defs pc_simps)
qed

text \<open>What the code reads.\<close>

lemma st_get:
  assumes "st h0 S h root (Node c l a r) k"
  shows "get_left h a = Some (rootp l)" and "get_right h a = Some (rootp r)"
    and "rb_parent h a = Some (cpar k)" and "rb_color h a = Some (cbit c)"
    and "rb_is_red h a = Some (c = Red)" and "rb_is_black h a = Some (c = Black)"
    and "a \<noteq> 0"
proof -
  have "aligned (cpar k)" using assms ctx_at_cpar by (auto simp: st_def repz_def)
  then show "get_left h a = Some (rootp l)" and "get_right h a = Some (rootp r)"
    and "rb_parent h a = Some (cpar k)" and "rb_color h a = Some (cbit c)"
    and "rb_is_red h a = Some (c = Red)" and "rb_is_black h a = Some (c = Black)"
    and "a \<noteq> 0"
    using assms by (auto simp: st_def repz_def field_defs pc_simps)
qed

lemma st_opt:
  assumes "st h0 S h root t k"
  shows "opt_red h (rootp t) = Some (is_red t)" and "opt_black h (rootp t) = Some (\<not> is_red t)"
  using assms st_get(5-7) [of h0 S h root] by (cases t; auto simp: opt_red_def opt_black_def)+

lemma st_neq:
  "st h0 S h root t (InL c a s # k) \<Longrightarrow> t \<noteq> Leaf \<Longrightarrow> rootp s \<noteq> rootp t"
  "st h0 S h root t (InR c s a # k) \<Longrightarrow> t \<noteq> Leaf \<Longrightarrow> rootp s \<noteq> rootp t"
  by (cases t; auto simp: st_def repz_def)+

lemmas zl = st_zoom_l [THEN iffD1]
lemmas zr = st_zoom_r [THEN iffD1]
lemmas ul = st_zoom_l [THEN iffD2]
lemmas ur = st_zoom_r [THEN iffD2]

section \<open>Insertion\<close>

text \<open>The two endings of a pass: the colour flip, and the recolouring with a rotation.\<close>

lemma flip_l:
  assumes G: "st h0 S h root (Node c (Node d l p r) g u) k" and red: "is_red u"
  shows "\<exists>h1 h2 h3. rb_set_black (rootp u) h = Some h1 \<and> rb_set_black p h1 = Some h2 \<and>
    rb_set_red g h2 = Some h3 \<and> st h0 S h3 root (Node Red (Node Black l p r) g (paint Black u)) k"
proof -
  obtain vl v vr where u: "u = Node Red vl v vr" using red by (rule is_redE)
  obtain h1 where h1: "rb_set_black v h = Some h1"
    and s1: "st h0 S h1 root (Node Black vl v vr) (InR c (Node d l p r) g # k)"
    using st_paint(1) [OF zr [OF G [unfolded u]]] by auto
  obtain h2 where h2: "rb_set_black p h1 = Some h2"
    and s2: "st h0 S h2 root (Node Black l p r) (InL c g (Node Black vl v vr) # k)"
    using st_paint(1) [OF zl [OF ur [OF s1]]] by auto
  show ?thesis using h1 h2 u st_paint(2) [OF ul [OF s2]] by auto
qed

lemma flip_r:
  assumes G: "st h0 S h root (Node c u g (Node d l p r)) k" and red: "is_red u"
  shows "\<exists>h1 h2 h3. rb_set_black (rootp u) h = Some h1 \<and> rb_set_black p h1 = Some h2 \<and>
    rb_set_red g h2 = Some h3 \<and> st h0 S h3 root (Node Red (paint Black u) g (Node Black l p r)) k"
proof -
  obtain vl v vr where u: "u = Node Red vl v vr" using red by (rule is_redE)
  obtain h1 where h1: "rb_set_black v h = Some h1"
    and s1: "st h0 S h1 root (Node Black vl v vr) (InL c g (Node d l p r) # k)"
    using st_paint(1) [OF zl [OF G [unfolded u]]] by auto
  obtain h2 where h2: "rb_set_black p h1 = Some h2"
    and s2: "st h0 S h2 root (Node Black l p r) (InR c (Node Black vl v vr) g # k)"
    using st_paint(1) [OF zr [OF ul [OF s1]]] by auto
  show ?thesis using h1 h2 u st_paint(2) [OF ur [OF s2]] by auto
qed

lemma rise_l:
  assumes G: "st h0 S h root (Node c (Node d l p r) g u) k"
  shows "\<exists>h1 h2 h3 root'. rb_set_black p h = Some h1 \<and> rb_set_red g h1 = Some h2 \<and>
    rb_rotate_right g h2 root = Some (h3, root') \<and> st h0 S h3 root' (Node Black l p (Node Red r g u)) k"
proof -
  obtain h1 where h1: "rb_set_black p h = Some h1"
    and s1: "st h0 S h1 root (Node Black l p r) (InL c g u # k)"
    using st_paint(1) [OF zl [OF G]] by auto
  obtain h2 where h2: "rb_set_red g h1 = Some h2"
    and s2: "st h0 S h2 root (Node Red (Node Black l p r) g u) k"
    using st_paint(2) [OF ul [OF s1]] by auto
  show ?thesis using h1 h2 st_rotate_right [OF s2] by auto
qed

lemma rise_r:
  assumes G: "st h0 S h root (Node c u g (Node d l p r)) k"
  shows "\<exists>h1 h2 h3 root'. rb_set_black p h = Some h1 \<and> rb_set_red g h1 = Some h2 \<and>
    rb_rotate_left g h2 root = Some (h3, root') \<and> st h0 S h3 root' (Node Black (Node Red u g l) p r) k"
proof -
  obtain h1 where h1: "rb_set_black p h = Some h1"
    and s1: "st h0 S h1 root (Node Black l p r) (InR c u g # k)"
    using st_paint(1) [OF zr [OF G]] by auto
  obtain h2 where h2: "rb_set_red g h1 = Some h2"
    and s2: "st h0 S h2 root (Node Red u g (Node Black l p r)) k"
    using st_paint(2) [OF ur [OF s1]] by auto
  show ?thesis using h1 h2 st_rotate_left [OF s2] by auto
qed

text \<open>One pass, by the position of the node below its grandparent.\<close>

lemma insert_step_ll:
  assumes st: "st h0 S h root t (InL Red p s # InL Black g u # k)" and t: "t \<noteq> Leaf"
  shows "is_red u \<Longrightarrow> \<exists>h'. rb_insert_step (rootp t) p h root = Some (g, h', root) \<and>
      st h0 S h' root (Node Red (Node Black t p s) g (paint Black u)) k"
    and "\<not> is_red u \<Longrightarrow> \<exists>h' root'. rb_insert_step (rootp t) p h root = Some (rootp t, h', root') \<and>
      st h0 S h' root' t (InL Black p (Node Red s g u) # k)"
proof -
  note P = ul [OF st]
  note G = ul [OF P]
  note reads = st_get [OF P] st_get [OF G] st_opt [OF zr [OF G]] st_neq(1) [OF st t]
  show "is_red u \<Longrightarrow> \<exists>h'. rb_insert_step (rootp t) p h root = Some (g, h', root) \<and>
      st h0 S h' root (Node Red (Node Black t p s) g (paint Black u)) k"
    using flip_l [OF G] reads by (auto simp: rb_insert_step_def)
  show "\<not> is_red u \<Longrightarrow> \<exists>h' root'. rb_insert_step (rootp t) p h root = Some (rootp t, h', root') \<and>
      st h0 S h' root' t (InL Black p (Node Red s g u) # k)"
    using rise_l [OF G] reads by (auto simp: rb_insert_step_def st_zoom_l)
qed

lemma insert_step_rr:
  assumes st: "st h0 S h root t (InR Red s p # InR Black u g # k)" and t: "t \<noteq> Leaf"
  shows "is_red u \<Longrightarrow> \<exists>h'. rb_insert_step (rootp t) p h root = Some (g, h', root) \<and>
      st h0 S h' root (Node Red (paint Black u) g (Node Black s p t)) k"
    and "\<not> is_red u \<Longrightarrow> \<exists>h' root'. rb_insert_step (rootp t) p h root = Some (rootp t, h', root') \<and>
      st h0 S h' root' t (InR Black (Node Red u g s) p # k)"
proof -
  note P = ur [OF st]
  note G = ur [OF P]
  note reads = st_get [OF P] st_get [OF G] st_opt [OF zl [OF G]] st_neq(2) [OF st t]
    st_neq(2) [OF P] 
  show "is_red u \<Longrightarrow> \<exists>h'. rb_insert_step (rootp t) p h root = Some (g, h', root) \<and>
      st h0 S h' root (Node Red (paint Black u) g (Node Black s p t)) k"
    using flip_r [OF G] reads by (auto simp: rb_insert_step_def)
  show "\<not> is_red u \<Longrightarrow> \<exists>h' root'. rb_insert_step (rootp t) p h root = Some (rootp t, h', root') \<and>
      st h0 S h' root' t (InR Black (Node Red u g s) p # k)"
    using rise_r [OF G] reads by (auto simp: rb_insert_step_def st_zoom_r)
qed

lemma insert_step_lr:
  assumes st: "st h0 S h root (Node Red nl n nr) (InR Red s p # InL Black g u # k)"
  shows "is_red u \<Longrightarrow> \<exists>h'. rb_insert_step n p h root = Some (g, h', root) \<and>
      st h0 S h' root (Node Red (Node Black s p (Node Red nl n nr)) g (paint Black u)) k"
    and "\<not> is_red u \<Longrightarrow> \<exists>h' root'. rb_insert_step n p h root = Some (p, h', root') \<and>
      st h0 S h' root' (Node Red s p nl) (InL Black n (Node Red nr g u) # k)"
proof -
  note P = ur [OF st]
  note G = ul [OF P]
  note reads = st_get [OF P] st_get [OF G] st_opt [OF zr [OF G]]
  show "is_red u \<Longrightarrow> \<exists>h'. rb_insert_step n p h root = Some (g, h', root) \<and>
      st h0 S h' root (Node Red (Node Black s p (Node Red nl n nr)) g (paint Black u)) k"
    using flip_l [OF G] reads by (auto simp: rb_insert_step_def)
  obtain h1 root1 where h1: "rb_rotate_left p h root = Some (h1, root1)"
    and s1: "st h0 S h1 root1 (Node Red (Node Red s p nl) n nr) (InL Black g u # k)"
    using st_rotate_left [OF P] by auto
  show "\<not> is_red u \<Longrightarrow> \<exists>h' root'. rb_insert_step n p h root = Some (p, h', root') \<and>
      st h0 S h' root' (Node Red s p nl) (InL Black n (Node Red nr g u) # k)"
    using rise_l [OF ul [OF s1]] h1 reads by (auto simp: rb_insert_step_def st_zoom_l [of _ _ _ _ Black])
qed

lemma insert_step_rl:
  assumes st: "st h0 S h root (Node Red nl n nr) (InL Red p s # InR Black u g # k)"
  shows "is_red u \<Longrightarrow> \<exists>h'. rb_insert_step n p h root = Some (g, h', root) \<and>
      st h0 S h' root (Node Red (paint Black u) g (Node Black (Node Red nl n nr) p s)) k"
    and "\<not> is_red u \<Longrightarrow> \<exists>h' root'. rb_insert_step n p h root = Some (p, h', root') \<and>
      st h0 S h' root' (Node Red nr p s) (InR Black (Node Red u g nl) n # k)"
proof -
  note P = ul [OF st]
  note G = ur [OF P]
  note reads = st_get [OF P] st_get [OF G] st_opt [OF zl [OF G]] st_neq(2) [OF P]
  show "is_red u \<Longrightarrow> \<exists>h'. rb_insert_step n p h root = Some (g, h', root) \<and>
      st h0 S h' root (Node Red (paint Black u) g (Node Black (Node Red nl n nr) p s)) k"
    using flip_r [OF G] reads by (auto simp: rb_insert_step_def)
  obtain h1 root1 where h1: "rb_rotate_right p h root = Some (h1, root1)"
    and s1: "st h0 S h1 root1 (Node Red nl n (Node Red nr p s)) (InR Black u g # k)"
    using st_rotate_right [OF P] by auto
  show "\<not> is_red u \<Longrightarrow> \<exists>h' root'. rb_insert_step n p h root = Some (p, h', root') \<and>
      st h0 S h' root' (Node Red nr p s) (InR Black (Node Red u g nl) n # k)"
    using rise_r [OF ur [OF s1]] h1 reads by (auto simp: rb_insert_step_def st_zoom_r [of _ _ _ _ Black])
qed

lemma st_parent_red:
  assumes "st h0 S h root t k"
  shows "opt_red h (cpar k) = Some (k \<noteq> [] \<and> fcolor (hd k) = Red)"
proof (cases k)
  case Nil
  then show ?thesis by (simp add: opt_red_def)
next
  case (Cons f k')
  then show ?thesis
    using assms st_opt(1) [OF ul, of h0 S h root t] st_opt(1) [OF ur, of h0 S h root t] by (cases f) auto
qed

lemma plug_Leaf: "plug t k = Leaf \<Longrightarrow> t = Leaf \<and> k = []"
proof (induction k arbitrary: t)
  case (Cons f k)
  then show ?case by (cases f) auto
qed simp

text \<open>The last statement of both loops.\<close>

lemma st_paint_root:
  assumes "st h0 S h root t []" and "t \<noteq> Leaf"
  shows "root \<noteq> 0 \<and> (\<exists>h'. rb_set_black root h = Some h' \<and> st h0 S h' root (paint Black t) [])"
proof (cases t)
  case (Node c l a r)
  with assms have "root = a" by (simp add: st_def repz_def)
  with st_paint(1) st_get(7) assms Node show ?thesis by fastforce
qed (use assms in simp)

text \<open>The loop stops below a black parent and at the root, and goes on below a red parent.\<close>

lemma insert_exit:
  assumes st: "st h0 S h root t k" and t: "t \<noteq> Leaf" and black: "\<not> (k \<noteq> [] \<and> fcolor (hd k) = Red)"
  shows "\<exists>h'. rb_insert_color (rootp t) h root = Some (h', root) \<and>
    st h0 S h' root (paint Black (plug t k)) []"
proof -
  have "rb_parent h (rootp t) = Some (cpar k)" using st t st_get(3) by (cases t) auto
  moreover have "opt_red h (cpar k) = Some False" using st_parent_red [OF st] black by simp
  moreover obtain h' where "rb_set_black root h = Some h'" "st h0 S h' root (paint Black (plug t k)) []"
    using st_paint_root [of h0 S h root "plug t k"] st t plug_Leaf by (auto simp: st_plug)
  ultimately show ?thesis by (simp add: rb_insert_color.simps)
qed

lemma insert_continue:
  assumes st: "st h0 S h root t k" and t: "t \<noteq> Leaf" and red: "k \<noteq> []" "fcolor (hd k) = Red"
    and "rb_insert_step (rootp t) (cpar k) h root = Some (n, h', root')"
  shows "rb_insert_color (rootp t) h root = rb_insert_color n h' root'"
proof -
  have "rb_parent h (rootp t) = Some (cpar k)" using st t st_get(3) by (cases t) auto
  with assms st_parent_red [OF st] show ?thesis by (subst rb_insert_color.simps) simp
qed

lemma red_not_Leaf: "is_red t \<Longrightarrow> t \<noteq> Leaf" by (cases t) auto

text \<open>\<open>insert_goal\<close>: the loop, started at the root of \<open>t\<close>, ends in a heap that holds \<open>T\<close>.\<close>

definition insert_goal :: "rb_heap \<Rightarrow> u64 set \<Rightarrow> u64 \<Rightarrow> rb_heap \<Rightarrow> u64 \<Rightarrow> rbt \<Rightarrow> bool" where
  "insert_goal h0 S node h root T =
     (\<exists>h' root'. rb_insert_color node h root = Some (h', root') \<and> st h0 S h' root' (paint Black T) [])"

lemma insert_rise:
  assumes "st h0 S h root t k" and "t \<noteq> Leaf" and "k \<noteq> []" and "fcolor (hd k) = Red"
    and "\<exists>h' root'. rb_insert_step (rootp t) (cpar k) h root = Some (rootp t', h', root') \<and>
      st h0 S h' root' t' (f # k')"
    and "t' \<noteq> Leaf" and "fcolor f = Black"
  shows "insert_goal h0 S (rootp t) h root (plug t' (f # k'))"
  using assms insert_exit [where t = t' and k = "f # k'"] insert_continue [OF assms(1-4)]
  unfolding insert_goal_def by fastforce

lemma insert_flip:
  assumes "st h0 S h root t k" and "t \<noteq> Leaf" and "k \<noteq> []" and "fcolor (hd k) = Red"
    and "\<exists>h'. rb_insert_step (rootp t) (cpar k) h root = Some (n, h', root) \<and> st h0 S h' root t' k'"
    and "\<And>h root. st h0 S h root t' k' \<Longrightarrow> insert_goal h0 S n h root T"
  shows "insert_goal h0 S (rootp t) h root T"
  using assms(5,6) insert_continue [OF assms(1-4)] unfolding insert_goal_def by fastforce

lemma insert_color_ok:
  "rb t \<Longrightarrow> is_red t \<Longrightarrow> ctx_ok (bh t) k \<Longrightarrow> st h0 S h root t k \<Longrightarrow>
     insert_goal h0 S (rootp t) h root (ins_fix t k)"
proof (induction t k arbitrary: h root rule: ins_induct)
  case (root t)
  then show ?case using insert_exit [of h0 S h root t "[]"] red_not_Leaf by (auto simp: insert_goal_def)
next
  case (parent_black t f k)
  then show ?case
    using insert_exit [of h0 S h root t "f # k"] red_not_Leaf by (auto simp: insert_goal_def ins_fix_black)
next
  case (ll t p s g u k)
  note t = red_not_Leaf [OF ll.hyps(2)]
  show ?case
  proof (cases "is_red u")
    case True
    with ll.IH insert_step_ll(1) [OF ll.prems t] show ?thesis
      by (intro insert_flip [OF ll.prems t]) auto
  next
    case False
    with insert_rise [OF ll.prems t] insert_step_ll(2) [OF ll.prems t] t show ?thesis by fastforce
  qed
next
  case (lr nl n nr p s g u k)
  show ?case
  proof (cases "is_red u")
    case True
    with lr.IH insert_step_lr(1) [OF lr.prems] show ?thesis
      by (intro insert_flip [OF lr.prems]) auto
  next
    case False
    with insert_rise [OF lr.prems, of "Node Red s p nl"] insert_step_lr(2) [OF lr.prems]
    show ?thesis by fastforce
  qed
next
  case (rl nl n nr p s g u k)
  show ?case
  proof (cases "is_red u")
    case True
    with rl.IH insert_step_rl(1) [OF rl.prems] show ?thesis
      by (intro insert_flip [OF rl.prems]) auto
  next
    case False
    with insert_rise [OF rl.prems, of "Node Red nr p s"] insert_step_rl(2) [OF rl.prems]
    show ?thesis by fastforce
  qed
next
  case (rr t p s g u k)
  note t = red_not_Leaf [OF rr.hyps(2)]
  show ?case
  proof (cases "is_red u")
    case True
    with rr.IH insert_step_rr(1) [OF rr.prems t] show ?thesis
      by (intro insert_flip [OF rr.prems t]) auto
  next
    case False
    with insert_rise [OF rr.prems t] insert_step_rr(2) [OF rr.prems t] t show ?thesis by fastforce
  qed
qed

text \<open>Linking a fresh node at an empty position.\<close>

fun link_of :: "ctx \<Rightarrow> rb_link" where
  "link_of [] = LinkRoot"
| "link_of (InL c a s # k) = LinkLeft a"
| "link_of (InR c s a # k) = LinkRight a"

lemma link_ok:
  assumes "repz h root Leaf k" and "h n \<noteq> None" and "n \<noteq> 0" and "aligned n" and "n \<notin> set (caddrs k)"
  shows "\<exists>h' root'. rb_link_node n (cpar k) (link_of k) h root = Some (h', root') \<and>
    st h (insert n (set (caddrs k))) h' root' (Node Red Leaf n Leaf) k"
proof (cases k)
  case Nil
  with assms show ?thesis
    by (auto simp: st_def repz_def rb_link_node_def field_defs pc_def cbit_def)
next
  case (Cons f k')
  with assms show ?thesis
    by (cases f) (auto simp: st_def repz_def rb_link_node_def field_defs pc_def cbit_def)
qed

lemma link_and_balance_ok:
  assumes rep: "rep h root (plug Leaf k)" and rb: "rb (plug Leaf k)" "\<not> is_red (plug Leaf k)"
    and n: "h n \<noteq> None" "n \<noteq> 0" "aligned n" "n \<notin> set (addrs (plug Leaf k))"
  shows "\<exists>h' root' t'. rb_link_and_balance root n (cpar k) (link_of k) h = Some (h', root') \<and>
    rep h' root' t' \<and> rb t' \<and> \<not> is_red t' \<and> addrs t' = ctx_before k @ n # ctx_after k \<and>
    only (insert n (set (addrs (plug Leaf k)))) h h'"
proof -
  have S: "set (addrs (plug Leaf k)) = set (caddrs k)" by (simp add: addrs_plug set_caddrs)
  obtain h1 root1 where h1: "rb_link_node n (cpar k) (link_of k) h root = Some (h1, root1)"
    and s1: "st h (insert n (set (caddrs k))) h1 root1 (Node Red Leaf n Leaf) k"
    using link_ok [of h root k n] rep n by (auto simp: rep_plug S)
  let ?t = "paint Black (ins_fix (Node Red Leaf n Leaf) k)"
  have ok: "ctx_ok 0 k" using rb_plugD [OF rb] by simp
  obtain h' root' where "rb_insert_color n h1 root1 = Some (h', root')"
    and s2: "st h (insert n (set (caddrs k))) h' root' ?t []"
    using insert_color_ok [OF _ _ _ s1] ok by (auto simp: insert_goal_def)
  moreover have "rep h' root' ?t" "only (insert n (set (caddrs k))) h h'"
    using s2 rep_plug [of h' root' ?t "[]"] by (auto simp: st_def)
  moreover have "addrs ?t = ctx_before k @ n # ctx_after k" by (simp add: addrs_ins_fix)
  moreover have "rb ?t" using ins_fix_rb [of "Node Red Leaf n Leaf" k] ok by simp
  ultimately show ?thesis using h1 S by (auto simp: rb_link_and_balance_def)
qed

section \<open>Removal\<close>

lemma final_l:
  assumes st: "st h0 S h root (Node c t p (Node d ql b qr)) k" and qr: "qr \<noteq> Leaf"
  shows "\<exists>h1 h2 h3 h4 root'. rb_set_color b (cbit c) h = Some h1 \<and> rb_set_black p h1 = Some h2 \<and>
    get_right h2 b = Some (rootp qr) \<and> rb_set_black (rootp qr) h2 = Some h3 \<and>
    rb_rotate_left p h3 root = Some (h4, root') \<and>
    st h0 S h4 root' (Node c (Node Black t p ql) b (paint Black qr)) k"
proof -
  obtain e vl v vr where v: "qr = Node e vl v vr" using qr by (cases qr) auto
  obtain h1 where h1: "rb_set_color b (cbit c) h = Some h1"
    and s1: "st h0 S h1 root (Node c ql b qr) (InR c t p # k)" using st_paint(3) [OF zr [OF st]] by auto
  obtain h2 where h2: "rb_set_black p h1 = Some h2"
    and s2: "st h0 S h2 root (Node Black t p (Node c ql b qr)) k" using st_paint(1) [OF ur [OF s1]] by auto
  obtain h3 where h3: "rb_set_black v h2 = Some h3"
    and s3: "st h0 S h3 root (Node Black vl v vr) (InR c ql b # InR Black t p # k)"
    using st_paint(1) [OF zr [OF zr [OF s2 [unfolded v]]]] by auto
  show ?thesis
    using h1 h2 h3 v st_get(2) [OF zr [OF s2]] st_rotate_left [OF ur [OF ur [OF s3]]] by auto
qed

lemma final_r:
  assumes st: "st h0 S h root (Node c (Node d ql b qr) p t) k" and ql: "ql \<noteq> Leaf"
  shows "\<exists>h1 h2 h3 h4 root'. rb_set_color b (cbit c) h = Some h1 \<and> rb_set_black p h1 = Some h2 \<and>
    get_left h2 b = Some (rootp ql) \<and> rb_set_black (rootp ql) h2 = Some h3 \<and>
    rb_rotate_right p h3 root = Some (h4, root') \<and>
    st h0 S h4 root' (Node c (paint Black ql) b (Node Black qr p t)) k"
proof -
  obtain e vl v vr where v: "ql = Node e vl v vr" using ql by (cases ql) auto
  obtain h1 where h1: "rb_set_color b (cbit c) h = Some h1"
    and s1: "st h0 S h1 root (Node c ql b qr) (InL c p t # k)" using st_paint(3) [OF zl [OF st]] by auto
  obtain h2 where h2: "rb_set_black p h1 = Some h2"
    and s2: "st h0 S h2 root (Node Black (Node c ql b qr) p t) k" using st_paint(1) [OF ul [OF s1]] by auto
  obtain h3 where h3: "rb_set_black v h2 = Some h3"
    and s3: "st h0 S h3 root (Node Black vl v vr) (InL c b qr # InL Black p t # k)"
    using st_paint(1) [OF zl [OF zl [OF s2 [unfolded v]]]] by auto
  show ?thesis
    using h1 h2 h3 v st_get(1) [OF zl [OF s2]] st_rotate_right [OF ul [OF ul [OF s3]]] by auto
qed

lemma erase_black_l:
  assumes st: "st h0 S h root (Node c t p (Node Black ql b qr)) k"
  shows "\<not> is_red ql \<Longrightarrow> \<not> is_red qr \<Longrightarrow>
      \<exists>h'. rb_erase_black_l p b h root = Some (Inl (p, cpar k), h', root) \<and>
        st h0 S h' root (Node c t p (Node Red ql b qr)) k"
    and "is_red ql \<or> is_red qr \<Longrightarrow>
      \<exists>h' root'. rb_erase_black_l p b h root = Some (Inr root', h', root') \<and>
        st h0 S h' root' (del_black_l c t p ql b qr) k"
proof -
  note Q = zr [OF st]
  note reads = st_get [OF Q] st_opt(2) [OF zl [OF Q]] st_opt(2) [OF zr [OF Q]]
  obtain h1 where h1: "rb_set_red b h = Some h1"
    and s1: "st h0 S h1 root (Node c t p (Node Red ql b qr)) k" using st_paint(2) [OF Q] ur by blast
  show "\<not> is_red ql \<Longrightarrow> \<not> is_red qr \<Longrightarrow>
      \<exists>h'. rb_erase_black_l p b h root = Some (Inl (p, cpar k), h', root) \<and>
        st h0 S h' root (Node c t p (Node Red ql b qr)) k"
    using reads h1 s1 st_get(3) [OF s1] by (auto simp: rb_erase_black_l_def)
  assume red: "is_red ql \<or> is_red qr"
  show "\<exists>h' root'. rb_erase_black_l p b h root = Some (Inr root', h', root') \<and>
        st h0 S h' root' (del_black_l c t p ql b qr) k"
  proof (cases "is_red qr")
    case True
    with final_l [OF st red_not_Leaf] reads st_get(4) [OF st] show ?thesis
      by (auto simp: rb_erase_black_l_def del_black_l_def)
  next
    case False
    with red obtain xl x xr where x: "ql = Node Red xl x xr" by (auto elim: is_redE)
    obtain g1 where g1: "rb_set_black x h = Some g1"
      and t1: "st h0 S g1 root (Node Black xl x xr) (InL Black b qr # InR c t p # k)"
      using st_paint(1) [OF zl [OF Q [unfolded x]]] by auto
    obtain g2 where g2: "rb_set_red b g1 = Some g2"
      and t2: "st h0 S g2 root (Node Red (Node Black xl x xr) b qr) (InR c t p # k)"
      using st_paint(2) [OF ul [OF t1]] by auto
    obtain g3 root3 where g3: "rb_rotate_right b g2 root = Some (g3, root3)"
      and t3: "st h0 S g3 root3 (Node c t p (Node Black xl x (Node Red xr b qr))) k"
      using st_rotate_right [OF t2] ur by blast
    show ?thesis
      using final_l [OF t3] reads g1 g2 g3 st_get [OF t3] False x red
      by (auto simp: rb_erase_black_l_def del_black_l_def)
  qed
qed

lemma erase_black_r:
  assumes st: "st h0 S h root (Node c (Node Black ql b qr) p t) k"
  shows "\<not> is_red ql \<Longrightarrow> \<not> is_red qr \<Longrightarrow>
      \<exists>h'. rb_erase_black_r p b h root = Some (Inl (p, cpar k), h', root) \<and>
        st h0 S h' root (Node c (Node Red ql b qr) p t) k"
    and "is_red ql \<or> is_red qr \<Longrightarrow>
      \<exists>h' root'. rb_erase_black_r p b h root = Some (Inr root', h', root') \<and>
        st h0 S h' root' (del_black_r c t p ql b qr) k"
proof -
  note Q = zl [OF st]
  note reads = st_get [OF Q] st_opt(2) [OF zl [OF Q]] st_opt(2) [OF zr [OF Q]]
  obtain h1 where h1: "rb_set_red b h = Some h1"
    and s1: "st h0 S h1 root (Node c (Node Red ql b qr) p t) k" using st_paint(2) [OF Q] ul by blast
  show "\<not> is_red ql \<Longrightarrow> \<not> is_red qr \<Longrightarrow>
      \<exists>h'. rb_erase_black_r p b h root = Some (Inl (p, cpar k), h', root) \<and>
        st h0 S h' root (Node c (Node Red ql b qr) p t) k"
    using reads h1 s1 st_get(3) [OF s1] by (auto simp: rb_erase_black_r_def)
  assume red: "is_red ql \<or> is_red qr"
  show "\<exists>h' root'. rb_erase_black_r p b h root = Some (Inr root', h', root') \<and>
        st h0 S h' root' (del_black_r c t p ql b qr) k"
  proof (cases "is_red ql")
    case True
    with final_r [OF st red_not_Leaf] reads st_get(4) [OF st] show ?thesis
      by (auto simp: rb_erase_black_r_def del_black_r_def)
  next
    case False
    with red obtain xl x xr where x: "qr = Node Red xl x xr" by (auto elim: is_redE)
    obtain g1 where g1: "rb_set_black x h = Some g1"
      and t1: "st h0 S g1 root (Node Black xl x xr) (InR Black ql b # InL c p t # k)"
      using st_paint(1) [OF zr [OF Q [unfolded x]]] by auto
    obtain g2 where g2: "rb_set_red b g1 = Some g2"
      and t2: "st h0 S g2 root (Node Red ql b (Node Black xl x xr)) (InL c p t # k)"
      using st_paint(2) [OF ur [OF t1]] by auto
    obtain g3 root3 where g3: "rb_rotate_left b g2 root = Some (g3, root3)"
      and t3: "st h0 S g3 root3 (Node c (Node Black (Node Red ql b xl) x xr) p t) k"
      using st_rotate_left [OF t2] ul by blast
    show ?thesis
      using final_r [OF t3] reads g1 g2 g3 st_get [OF t3] False x red
      by (auto simp: rb_erase_black_r_def del_black_r_def)
  qed
qed

lemma ctx_at_root: "ctx_at h p k root \<Longrightarrow> k \<noteq> [] \<Longrightarrow> root \<in> set (caddrs k)"
proof (induction k arbitrary: p)
  case (Cons f k)
  then show ?case by (cases f; cases k) auto
qed simp

lemma st_root: "st h0 S h root t k \<Longrightarrow> (rootp t = root) = (k = [])"
  using ctx_at_root [of h "rootp t" k root] ctx_at_nz [of h "rootp t" k root]
  by (cases "k = []"; cases t) (auto simp: st_def repz_def)

definition erase_goal :: "rb_heap \<Rightarrow> u64 set \<Rightarrow> u64 \<Rightarrow> u64 \<Rightarrow> rb_heap \<Rightarrow> u64 \<Rightarrow> rbt \<Rightarrow> bool" where
  "erase_goal h0 S node parent h root T =
     (\<exists>h' root'. rb_erase_color node parent h root = Some (h', root') \<and> st h0 S h' root' T [])"

lemma erase_finish_root:
  assumes "st h0 S h root t k" and "t \<noteq> Leaf"
  shows "\<exists>h'. rb_erase_finish root h root = Some (h', root) \<and> st h0 S h' root (paint Black (plug t k)) []"
proof -
  have "plug t k \<noteq> Leaf" using assms plug_Leaf by auto
  then show ?thesis
    using st_paint_root [of h0 S h root "plug t k"] assms by (auto simp: st_plug rb_erase_finish_def)
qed

lemma erase_exit:
  assumes st: "st h0 S h root t k" and "is_red t \<or> k = []"
  shows "erase_goal h0 S (rootp t) parent h root (plug (paint Black t) k)"
proof (cases t)
  case Leaf
  with assms have "k = []" "root = 0" by (auto simp: st_def repz_def)
  with st Leaf show ?thesis
    by (simp add: erase_goal_def rb_erase_color.simps rb_erase_finish_def opt_black_def)
next
  case (Node c l a r)
  obtain h' where "rb_set_black a h = Some h'" "st h0 S h' root (Node Black l a r) k"
    using st_paint(1) st Node by blast
  with assms Node st_opt(2) [OF st] st_root [OF st] st_get(7) [OF st [unfolded Node]] show ?thesis
    by (auto simp: erase_goal_def rb_erase_color.simps rb_erase_finish_def st_plug)
qed

lemma erase_break:
  assumes st: "st h0 S h root t k" and "\<not> is_red t" and "k \<noteq> []"
    and "\<exists>h' root'. rb_erase_step (rootp t) (cpar k) h root = Some (Inr root', h', root') \<and> st h0 S h' root' t' k'"
    and "t' \<noteq> Leaf"
  shows "erase_goal h0 S (rootp t) (cpar k) h root (paint Black (plug t' k'))"
  using assms st_opt(2) [OF st] st_root [OF st] erase_finish_root
  by (fastforce simp: erase_goal_def rb_erase_color.simps)

lemma erase_continue:
  assumes st: "st h0 S h root t k" and "\<not> is_red t" and "k \<noteq> []"
    and "\<exists>h' root'. rb_erase_step (rootp t) (cpar k) h root = Some (Inl (node, parent), h', root') \<and> st h0 S h' root' t' k'"
    and "\<And>h root. st h0 S h root t' k' \<Longrightarrow> erase_goal h0 S node parent h root T"
  shows "erase_goal h0 S (rootp t) (cpar k) h root T"
proof -
  obtain h' root' where "rb_erase_step (rootp t) (cpar k) h root = Some (Inl (node, parent), h', root')"
    and "st h0 S h' root' t' k'" using assms(4) by auto
  with assms st_opt(2) [OF st] st_root [OF st] show ?thesis
    unfolding erase_goal_def by (subst rb_erase_color.simps) simp
qed

lemma st_neq_child:
  "st h0 S h root t (InL c a s # k) \<Longrightarrow> s \<noteq> Leaf \<Longrightarrow> rootp s \<noteq> rootp t"
  "st h0 S h root t (InR c s a # k) \<Longrightarrow> s \<noteq> Leaf \<Longrightarrow> rootp s \<noteq> rootp t"
  by (cases t; cases s; auto simp: st_def repz_def)+

text \<open>The pass that starts at a black and at a red sibling.\<close>

lemma erase_step_l_black:
  assumes st: "st h0 S h root t (InL c p (Node Black ql b qr) # k)"
  shows "rb_erase_step (rootp t) p h root = rb_erase_black_l p b h root"
  using st_get [OF ul [OF st]] st_get(5) [OF zr [OF ul [OF st]]] by (simp add: rb_erase_step_def)

lemma erase_step_r_black:
  assumes st: "st h0 S h root t (InR c (Node Black ql b qr) p # k)"
  shows "rb_erase_step (rootp t) p h root = rb_erase_black_r p b h root"
  using st_get [OF ur [OF st]] st_get(5) [OF zl [OF ur [OF st]]] st_neq_child(2) [OF st]
  by (simp add: rb_erase_step_def)

lemma erase_step_l_red:
  assumes st: "st h0 S h root t (InL c p (Node Red (Node Black ql b qr) q sr) # k)"
  shows "\<exists>h' root'. rb_erase_step (rootp t) p h root = rb_erase_black_l p b h' root' \<and>
    st h0 S h' root' (Node Red t p (Node Black ql b qr)) (InL Black q sr # k)"
proof -
  note P = ul [OF st]
  obtain h1 h2 h3 root3 where "rb_set_black q h = Some h1" "rb_set_red p h1 = Some h2"
    "rb_rotate_left p h2 root = Some (h3, root3)"
    and s3: "st h0 S h3 root3 (Node Red t p (Node Black ql b qr)) (InL Black q sr # k)"
    using rise_r [OF P] zl by blast
  then show ?thesis
    using st_get [OF P] st_get(5) [OF zr [OF P]] st_get(2) [OF s3] by (auto simp: rb_erase_step_def)
qed

lemma erase_step_r_red:
  assumes st: "st h0 S h root t (InR c (Node Red sl q (Node Black ql b qr)) p # k)"
  shows "\<exists>h' root'. rb_erase_step (rootp t) p h root = rb_erase_black_r p b h' root' \<and>
    st h0 S h' root' (Node Red (Node Black ql b qr) p t) (InR Black sl q # k)"
proof -
  note P = ur [OF st]
  obtain h1 h2 h3 root3 where "rb_set_black q h = Some h1" "rb_set_red p h1 = Some h2"
    "rb_rotate_right p h2 root = Some (h3, root3)"
    and s3: "st h0 S h3 root3 (Node Red (Node Black ql b qr) p t) (InR Black sl q # k)"
    using rise_l [OF P] zr by blast
  then show ?thesis
    using st_get [OF P] st_get(5) [OF zl [OF P]] st_get(1) [OF s3] st_neq_child(2) [OF st]
    by (auto simp: rb_erase_step_def)
qed

lemma del_black_not_Leaf:
  "is_red ql \<or> is_red qr \<Longrightarrow> del_black_l c t p ql b qr \<noteq> Leaf"
  "is_red ql \<or> is_red qr \<Longrightarrow> del_black_r c t p ql b qr \<noteq> Leaf"
  by (auto simp: del_black_l_def del_black_r_def split: rbt.splits)

lemma erase_color_ok:
  "rb (paint Black t) \<Longrightarrow> ctx_ok (Suc (bh t)) k \<Longrightarrow> st h0 S h root t k \<Longrightarrow>
     erase_goal h0 S (rootp t) (cpar k) h root (del_fix t k)"
proof (induction t k arbitrary: h root rule: del_induct)
  case (red l a r k)
  then show ?case using erase_exit [OF red.prems] by simp
next
  case (root t)
  then show ?case using erase_exit [OF root.prems] by (simp add: del_fix_root)
next
  case (l_red t p ql b qr q sr k)
  obtain h1 root1 where eq: "rb_erase_step (rootp t) p h root = rb_erase_black_l p b h1 root1"
    and s1: "st h0 S h1 root1 (Node Red t p (Node Black ql b qr)) (InL Black q sr # k)"
    using erase_step_l_red [OF l_red.prems] by auto
  show ?case
  proof (cases "is_red ql \<or> is_red qr")
    case True
    with erase_break [OF l_red.prems l_red.hyps(2)] erase_black_l(2) [OF s1] eq l_red.hyps(2) del_black_not_Leaf(1) [OF True]
    show ?thesis by (simp add: del_fix_l_red del: plug.simps)
  next
    case False
    have "erase_goal h0 S p q h root (plug (paint Black (Node Red t p (Node Red ql b qr))) (InL Black q sr # k))"
      if "st h0 S h root (Node Red t p (Node Red ql b qr)) (InL Black q sr # k)" for h root
      using erase_exit [OF that] by simp
    moreover have "\<exists>h' root'. rb_erase_step (rootp t) p h root = Some (Inl (p, q), h', root') \<and>
        st h0 S h' root' (Node Red t p (Node Red ql b qr)) (InL Black q sr # k)"
      using erase_black_l(1) [OF s1] eq False by auto
    ultimately show ?thesis
      using erase_continue [OF l_red.prems l_red.hyps(2)] l_red.hyps(2) False
      by (simp add: del_fix_l_red)
  qed
next
  case (l_black t c p ql b qr k)
  note eq = erase_step_l_black [OF l_black.prems] 
  note s1 = ul [OF l_black.prems]
  show ?case
  proof (cases "is_red ql \<or> is_red qr")
    case True
    with erase_break [OF l_black.prems l_black.hyps(2)] erase_black_l(2) [OF s1] eq l_black.hyps(2) del_black_not_Leaf(1) [OF True]
    show ?thesis by (simp add: del_fix_l_black)
  next
    case False
    then have "\<exists>h' root'. rb_erase_step (rootp t) p h root = Some (Inl (p, cpar k), h', root') \<and>
        st h0 S h' root' (Node c t p (Node Red ql b qr)) k"
      using erase_black_l(1) [OF s1] eq by auto
    moreover have "erase_goal h0 S p (cpar k) h root (del_fix (Node c t p (Node Red ql b qr)) k)"
      if "st h0 S h root (Node c t p (Node Red ql b qr)) k" for h root using l_black.IH that False by auto
    ultimately show ?thesis
      using erase_continue [OF l_black.prems l_black.hyps(2)] l_black.hyps(2) False
      by (simp add: del_fix_l_black)
  qed
next
  case (r_red t p ql b qr q sl k)
  obtain h1 root1 where eq: "rb_erase_step (rootp t) p h root = rb_erase_black_r p b h1 root1"
    and s1: "st h0 S h1 root1 (Node Red (Node Black ql b qr) p t) (InR Black sl q # k)"
    using erase_step_r_red [OF r_red.prems] by auto
  show ?case
  proof (cases "is_red ql \<or> is_red qr")
    case True
    with erase_break [OF r_red.prems r_red.hyps(2)] erase_black_r(2) [OF s1] eq r_red.hyps(2) del_black_not_Leaf(2) [OF True]
    show ?thesis by (simp add: del_fix_r_red del: plug.simps)
  next
    case False
    have "erase_goal h0 S p q h root (plug (paint Black (Node Red (Node Red ql b qr) p t)) (InR Black sl q # k))"
      if "st h0 S h root (Node Red (Node Red ql b qr) p t) (InR Black sl q # k)" for h root
      using erase_exit [OF that] by simp
    moreover have "\<exists>h' root'. rb_erase_step (rootp t) p h root = Some (Inl (p, q), h', root') \<and>
        st h0 S h' root' (Node Red (Node Red ql b qr) p t) (InR Black sl q # k)"
      using erase_black_r(1) [OF s1] eq False by auto
    ultimately show ?thesis
      using erase_continue [OF r_red.prems r_red.hyps(2)] r_red.hyps(2) False
      by (simp add: del_fix_r_red)
  qed
next
  case (r_black t c p ql b qr k)
  note eq = erase_step_r_black [OF r_black.prems] 
  note s1 = ur [OF r_black.prems]
  show ?case
  proof (cases "is_red ql \<or> is_red qr")
    case True
    with erase_break [OF r_black.prems r_black.hyps(2)] erase_black_r(2) [OF s1] eq r_black.hyps(2) del_black_not_Leaf(2) [OF True]
    show ?thesis by (simp add: del_fix_r_black)
  next
    case False
    then have "\<exists>h' root'. rb_erase_step (rootp t) p h root = Some (Inl (p, cpar k), h', root') \<and>
        st h0 S h' root' (Node c (Node Red ql b qr) p t) k"
      using erase_black_r(1) [OF s1] eq by auto
    moreover have "erase_goal h0 S p (cpar k) h root (del_fix (Node c (Node Red ql b qr) p t) k)"
      if "st h0 S h root (Node c (Node Red ql b qr) p t) k" for h root using r_black.IH that False by auto
    ultimately show ?thesis
      using erase_continue [OF r_black.prems r_black.hyps(2)] r_black.hyps(2) False
      by (simp add: del_fix_r_black)
  qed
qed

section \<open>Taking a node out of the tree\<close>

lemma tree_at_only: "tree_at h par t \<Longrightarrow> only S h h' \<Longrightarrow> S \<inter> set (addrs t) = {} \<Longrightarrow> tree_at h' par t"
  by (induction t arbitrary: par) (auto simp: only_def)

lemma ctx_at_only: "ctx_at h p k root \<Longrightarrow> only S h h' \<Longrightarrow> S \<inter> set (caddrs k) = {} \<Longrightarrow> ctx_at h' p k root"
proof (induction k arbitrary: p)
  case (Cons f k)
  then show ?case by (cases f) (auto simp: only_def intro: tree_at_only)
qed simp

lemma only_mono: "only S h h' \<Longrightarrow> S \<subseteq> T \<Longrightarrow> only T h h'" by (auto simp: only_def)

lemma only_comp: "only S h h' \<Longrightarrow> only T h' h'' \<Longrightarrow> only (S \<union> T) h h''" by (simp add: only_def)

lemma onlyD: "only S h h' \<Longrightarrow> x \<notin> S \<Longrightarrow> h' x = h x" by (simp add: only_def)

lemma reparent:
  assumes "tree_at h par t" and "distinct (addrs t)" and "aligned par" and "t \<noteq> Leaf"
  shows "\<exists>h'. rb_set_parent (rootp t) q h = Some h' \<and> tree_at h' q t \<and> only {rootp t} h h'"
  using assms by (cases t) (auto simp: field_defs pc_simps)

lemma reparent_opt:
  assumes "tree_at h par t" and "distinct (addrs t)" and "aligned par"
  shows "\<exists>h'. (if rootp t \<noteq> 0 then rb_set_parent (rootp t) q h else Some h) = Some h' \<and>
    tree_at h' q t \<and> only (set (addrs t)) h h'"
proof (cases "t = Leaf")
  case False
  then have "{rootp t} \<subseteq> set (addrs t)" by simp
  with reparent [OF assms False, of q] tree_at_root [OF assms(1)] False only_mono show ?thesis
    by fastforce
qed simp

lemma change_child:
  assumes "ctx_at h p k root" and "distinct (caddrs k)" and "p \<noteq> 0" and "p \<notin> set (caddrs k)"
  shows "\<exists>h' root'. rb_change_child (cpar k) p new h root = Some (h', root') \<and>
    ctx_at h' new k root' \<and> only (set (caddrs k)) h h'"
proof (cases k)
  case (Cons f k')
  with assms show ?thesis by (cases f) (auto simp: rb_change_child_def field_defs)
qed (use assms in \<open>simp add: rb_change_child_def\<close>)

lemma repz_node:
  assumes "repz h root (Node c l a r) k"
  shows "tree_at h a l" "tree_at h a r" "ctx_at h a k root" "distinct (caddrs k)" "a \<noteq> 0"
    "a \<notin> set (caddrs k)" "aligned a" "aligned (cpar k)" "distinct (addrs l)" "distinct (addrs r)"
    "set (addrs l) \<inter> set (addrs r) = {}" "set (addrs l) \<inter> set (caddrs k) = {}"
    "set (addrs r) \<inter> set (caddrs k) = {}" "a \<notin> set (addrs l)" "a \<notin> set (addrs r)"
    "get_left h a = Some (rootp l)" "get_right h a = Some (rootp r)"
    "rb_parent h a = Some (cpar k)" "rb_color h a = Some (cbit c)"
    "h a = Some \<lparr>rb_parent_color = pc (cpar k) c, rb_right = rootp r, rb_left = rootp l\<rparr>"
proof -
  show "aligned (cpar k)" using assms ctx_at_cpar by (auto simp: repz_def)
  then show "rb_parent h a = Some (cpar k)" "rb_color h a = Some (cbit c)"
    using assms by (auto simp: repz_def field_defs pc_simps)
qed (use assms in \<open>auto simp: repz_def field_defs\<close>)

text \<open>A node with at most one child gives its place to that child.\<close>

lemma erase_simple_ok:
  assumes z: "repz h root (Node c l a r) k" and t: "l = Leaf \<and> t = r \<or> r = Leaf \<and> t = l"
  shows "\<exists>h' root'. rb_erase_simple a (rootp t) h root = Some (rootp t, cpar k, cbit c, h', root') \<and>
    st h (set (addrs t) \<union> set (caddrs k)) h' root' t k"
proof -
  note n = repz_node [OF z]
  have t': "tree_at h a t" "distinct (addrs t)" "set (addrs t) \<inter> set (caddrs k) = {}" "a \<notin> set (addrs t)"
    using n t by auto
  obtain h1 where h1: "(if rootp t \<noteq> 0 then rb_set_parent (rootp t) (cpar k) h else Some h) = Some h1"
    and t1: "tree_at h1 (cpar k) t" and o1: "only (set (addrs t)) h h1"
    using reparent_opt [OF t'(1,2) n(7), of "cpar k"] by auto
  have "ctx_at h1 a k root" using ctx_at_only [OF n(3) o1] t' by auto
  then obtain h2 root2 where h2: "rb_change_child (cpar k) a (rootp t) h1 root = Some (h2, root2)"
    and c2: "ctx_at h2 (rootp t) k root2" and o2: "only (set (caddrs k)) h1 h2"
    using change_child [of h1 a k root "rootp t"] n by auto
  have "tree_at h2 (cpar k) t" using tree_at_only [OF t1 o2] t' by auto
  with c2 t' n have "st h (set (addrs t) \<union> set (caddrs k)) h2 root2 t k"
    using only_comp [OF o1 o2] by (auto simp: st_def repz_def)
  with h1 h2 n show ?thesis by (auto simp: rb_erase_simple_def)
qed

text \<open>The leftmost node of a subtree.\<close>

definition all_left :: "ctx \<Rightarrow> bool" where
  "all_left k = (\<forall>f \<in> set k. case f of InL c a s \<Rightarrow> True | InR c s a \<Rightarrow> False)"

lemma plug_append: "plug t (k1 @ k2) = plug (plug t k1) k2"
  by (induction k1 arbitrary: t) auto

lemma leftmost_split:
  "tree_at h par t \<Longrightarrow> t \<noteq> Leaf \<Longrightarrow>
     \<exists>d n nr kr. t = plug (Node d Leaf n nr) kr \<and> all_left kr \<and> rb_leftmost h (rootp t) = Some n"
proof (induction t arbitrary: par)
  case (Node c l a r)
  show ?case
  proof (cases "l = Leaf")
    case True
    with Node.prems show ?thesis
      by (intro exI [of _ c] exI [of _ a] exI [of _ r] exI [of _ "[]"])
        (simp add: all_left_def rb_leftmost.simps get_left_def)
  next
    case False
    with Node.IH(1) [of a] Node.prems obtain d n nr kr
      where "l = plug (Node d Leaf n nr) kr" "all_left kr" "rb_leftmost h (rootp l) = Some n" by auto
    moreover have "rootp l \<noteq> 0" using False Node.prems tree_at_root by auto
    ultimately show ?thesis using Node.prems
      by (intro exI [of _ d] exI [of _ n] exI [of _ nr] exI [of _ "kr @ [InL c a r]"])
        (simp add: all_left_def plug_append rb_leftmost.simps [of h a] get_left_def)
  qed
qed simp

lemma cpar_append: "k \<noteq> [] \<Longrightarrow> cpar (k @ k') = cpar k" by (cases k) auto

lemma tree_at_plug_node:
  "tree_at h par (plug (Node d l n r) kr) \<Longrightarrow>
     h n = Some \<lparr>rb_parent_color = pc (if kr = [] then par else cpar kr) d, rb_right = rootp r, rb_left = rootp l\<rparr> \<and>
     n \<noteq> 0 \<and> aligned n"
proof (induction kr arbitrary: par rule: rev_induct)
  case (snoc f kr)
  show ?case
  proof (cases "kr = []")
    case True
    with snoc.prems show ?thesis by (cases f) simp_all
  next
    case False
    moreover have "tree_at h (faddr f) (plug (Node d l n r) kr)"
      using snoc.prems by (cases f) (simp_all add: plug_append)
    ultimately show ?thesis using snoc.IH by (simp add: cpar_append)
  qed
qed simp

lemma rootp_plug: "k \<noteq> [] \<Longrightarrow> rootp (plug t k) = rootp (plug t' k)"
proof (induction k rule: rev_induct)
  case (snoc f k)
  show ?case by (cases f) (simp_all add: plug_append)
qed simp

lemma unlink_leftmost:
  assumes "tree_at h par (plug (Node d Leaf n nr) kr)" and "kr \<noteq> []" and "all_left kr"
    and "distinct (addrs (plug (Node d Leaf n nr) kr))"
  shows "\<exists>h1 h2. (if rootp nr \<noteq> 0 then rb_set_parent (rootp nr) (cpar kr) h else Some h) = Some h1 \<and>
    set_left (cpar kr) (rootp nr) h1 = Some h2 \<and> tree_at h2 par (plug nr kr) \<and>
    only (set (addrs (plug nr kr))) h h2"
  using assms
proof (induction kr arbitrary: par rule: rev_induct)
  case (snoc f kr)
  from snoc.prems obtain c a s where f: "f = InL c a s" by (cases f) (auto simp: all_left_def)
  note T = snoc.prems(1) [unfolded f plug_append plug.simps plug1.simps tree_at.simps]
  have d: "distinct (addrs (plug (Node d Leaf n nr) kr))" "a \<notin> set (addrs (plug (Node d Leaf n nr) kr))"
    "a \<notin> set (addrs s)" "set (addrs (plug (Node d Leaf n nr) kr)) \<inter> set (addrs s) = {}"
    using snoc.prems(4) f by (auto simp: plug_append)
  show ?case
  proof (cases "kr = []")
    case True
    have "tree_at h n nr" "distinct (addrs nr)" "aligned n" using T True d by auto
    from reparent_opt [OF this, of a] obtain h1
      where h1: "(if rootp nr \<noteq> 0 then rb_set_parent (rootp nr) a h else Some h) = Some h1"
        and t1: "tree_at h1 a nr" and o1: "only (set (addrs nr)) h h1" by auto
    have "h1 a = h a" "tree_at h1 a s" using onlyD [OF o1] tree_at_only [OF _ o1] T d True by auto
    moreover have "only (set (addrs (plug nr ([] @ [f])))) h h1" by (rule only_mono [OF o1]) (auto simp: f)
    ultimately show ?thesis using h1 t1 T d True f by (auto simp: set_left_def node_upd_def)
  next
    case False
    with snoc.IH [of a] T d snoc.prems(3) obtain h1 h2
      where h12: "(if rootp nr \<noteq> 0 then rb_set_parent (rootp nr) (cpar kr) h else Some h) = Some h1"
        "set_left (cpar kr) (rootp nr) h1 = Some h2"
        and t2: "tree_at h2 a (plug nr kr)" and o2: "only (set (addrs (plug nr kr))) h h2"
      by (auto simp: all_left_def)
    have "set (addrs (plug nr kr)) \<subseteq> set (addrs (plug (Node d Leaf n nr) kr))" by (auto simp: addrs_plug)
    then have "h2 a = h a" and "tree_at h2 a s"
      using onlyD [OF o2, of a] tree_at_only [OF _ o2, of a s] T d by blast+
    moreover have "rootp (plug nr kr) = rootp (plug (Node d Leaf n nr) kr)"
      using False by (rule rootp_plug)
    moreover have "only (set (addrs (plug nr (kr @ [f])))) h h2"
      by (rule only_mono [OF o2]) (auto simp: f plug_append)
    moreover have "cpar (kr @ [f]) = cpar kr" using False by (rule cpar_append)
    moreover have "tree_at h2 par (plug nr (kr @ [f]))" using T f t2 calculation by (simp add: plug_append)
    ultimately show ?thesis using h12 by metis
  qed
qed simp

lemma st_append: "st h0 S h root (plug t k1) k2 = st h0 S h root t (k1 @ k2)"
  by (metis st_plug plug_append)

lemma cpar_plug:
  assumes "tree_at h par (plug t k)" and "k \<noteq> []"
  shows "aligned (cpar k)" and "cpar k \<in> set (addrs (plug t' k))"
proof -
  obtain f k' where k: "k = f # k'" using assms(2) by (cases k) auto
  show "aligned (cpar k)"
    using assms(1) k tree_at_plug_node [of h par "fcolor f"] by (cases f) auto
  show "cpar k \<in> set (addrs (plug t' k))" using k by (cases f) (auto simp: addrs_plug)
qed

text \<open>A node with two children gives its place and its colour to its successor.\<close>

lemma take_place:
  assumes "tree_at h x r" and "h x = Some m" and "rb_right m = rootp r"
    and "tree_at h a l" and "l \<noteq> Leaf" and "aligned a" and "ctx_at h x k root"
    and "distinct (x # addrs l @ addrs r @ caddrs k)" and "x \<noteq> 0" and "aligned x"
  shows "\<exists>h1 h2. node_upd (\<lambda>n. n\<lparr>rb_parent_color := pc (cpar k) c, rb_left := rootp l\<rparr>) x h = Some h1 \<and>
    rb_set_parent (rootp l) x h1 = Some h2 \<and> repz h2 root (Node c l x r) k \<and>
    only (insert x (set (addrs l))) h h2"
proof -
  let ?h1 = "h(x \<mapsto> m\<lparr>rb_parent_color := pc (cpar k) c, rb_left := rootp l\<rparr>)"
  have "tree_at ?h1 a l" "distinct (addrs l)" using assms by auto
  then obtain h2 where h2: "rb_set_parent (rootp l) x ?h1 = Some h2" "tree_at h2 x l"
    and o2: "only {rootp l} ?h1 h2" using reparent assms by blast
  have rl: "rootp l \<in> set (addrs l)" using assms by simp
  then have rl': "rootp l \<notin> set (addrs r)" "rootp l \<notin> set (caddrs k)" "rootp l \<noteq> x"
    using assms(8) unfolding distinct.simps distinct_append set_append by blast+
  have "tree_at h2 x r" using tree_at_only [OF _ o2, of x r] assms rl' by auto
  moreover have "ctx_at h2 x k root" using ctx_at_only [OF _ o2, of x k root] assms rl' by auto
  moreover have "h2 x = ?h1 x" using onlyD [OF o2, of x] rl' by auto
  ultimately have "repz h2 root (Node c l x r) k" using assms h2 by (cases m) (auto simp: repz_def)
  moreover have "only (insert x (set (addrs l))) h h2"
    using only_comp [OF only_updI [of x "{x}" h h] o2] only_mono rl by fastforce
  ultimately show ?thesis using assms h2 by (simp add: node_upd_def)
qed

lemma erase_succ_ok:
  assumes z: "repz h root (Node c l a r) k" and l: "l \<noteq> Leaf" and r: "r \<noteq> Leaf"
  shows "\<exists>d n nr kr h' root'. r = plug (Node d Leaf n nr) kr \<and> all_left kr \<and>
    rb_erase_succ a h root = Some (rootp nr, cpar (kr @ InR c l n # k), cbit d, h', root') \<and>
    st h (set (addrs l) \<union> set (addrs r) \<union> set (caddrs k)) h' root' nr (kr @ InR c l n # k)"
proof -
  note n = repz_node [OF z]
  obtain d x nr kr where r_eq: "r = plug (Node d Leaf x nr) kr" and al: "all_left kr"
    and lm: "rb_leftmost h (rootp r) = Some x" using leftmost_split [OF n(2) r] by auto
  let ?p = "if kr = [] then a else cpar kr" and ?r = "plug nr kr"
  have hx: "h x = Some \<lparr>rb_parent_color = pc ?p d, rb_right = rootp nr, rb_left = 0\<rparr>" "x \<noteq> 0" "aligned x"
    using tree_at_plug_node [of h a d Leaf x nr kr] n(2) r_eq by auto
  have addrs_r: "set (addrs r) = insert x (set (addrs ?r))" by (auto simp: r_eq addrs_plug)
  have dist: "distinct (x # addrs l @ addrs ?r @ caddrs k)"
    using n r_eq by (auto simp: addrs_plug)
  have p: "aligned ?p" "kr \<noteq> [] \<Longrightarrow> ?p \<noteq> a"
    using cpar_plug(1) [of h a "Node d Leaf x nr" kr] cpar_plug(2) [of h a "Node d Leaf x nr" kr "Node d Leaf x nr"]
      n(2,7,15) r_eq by auto
  obtain h1 root1 where h1: "rb_change_child (cpar k) a x h root = Some (h1, root1)"
    and c1: "ctx_at h1 x k root1" and o1: "only (set (caddrs k)) h h1"
    using change_child [OF n(3-6), of x] by auto
  have t1: "tree_at h1 a r" "tree_at h1 a l" using tree_at_only [OF _ o1] n by blast+
  have a1: "h1 a = h a" "h1 x = h x" using onlyD [OF o1] n addrs_r by blast+
  have reads: "get_right h1 x = Some (rootp nr)" "rb_parent h1 x = Some ?p" "rb_color h1 x = Some (cbit d)"
    using a1 hx p by (simp_all add: get_right_def rb_parent_def rb_color_def pc_simps)
  have "\<exists>h2. (if ?p = a then Some (x, h1)
      else do { h \<leftarrow> (if rootp nr \<noteq> 0 then rb_set_parent (rootp nr) ?p h1 else Some h1);
                h \<leftarrow> set_left ?p (rootp nr) h;
                or \<leftarrow> get_right h a;
                h \<leftarrow> set_right x or h;
                h \<leftarrow> rb_set_parent or x h;
                Some (?p, h) }) = Some (cpar (kr @ InR c l x # k), h2) \<and>
      tree_at h2 x ?r \<and> (\<exists>m. h2 x = Some m \<and> rb_right m = rootp ?r) \<and>
      only (set (addrs r)) h1 h2"
  proof (cases "kr = []")
    case True
    with t1 a1 hx r_eq show ?thesis by auto
  next
    case False
    obtain h2 h3 where h3: "(if rootp nr \<noteq> 0 then rb_set_parent (rootp nr) (cpar kr) h1 else Some h1) = Some h2"
        "set_left (cpar kr) (rootp nr) h2 = Some h3"
      and t3: "tree_at h3 a ?r" and o3: "only (set (addrs ?r)) h1 h3"
      using unlink_leftmost [OF t1(1) [unfolded r_eq] False al] n(10) r_eq by auto
    have x3: "h3 x = h x" "h3 a = h a" using onlyD [OF o3] a1 dist n addrs_r by auto
    let ?h4 = "h3(x \<mapsto> \<lparr>rb_parent_color = pc ?p d, rb_right = rootp r, rb_left = 0\<rparr>)"
    have "tree_at ?h4 a ?r" "distinct (addrs ?r)" "?r \<noteq> Leaf"
      using t3 dist False plug_Leaf by auto
    then obtain h5 where h5: "rb_set_parent (rootp ?r) x ?h4 = Some h5" and t5: "tree_at h5 x ?r"
      and o5: "only {rootp ?r} ?h4 h5" using reparent n(7) by blast
    have rr: "rootp ?r = rootp r" using False r_eq rootp_plug by metis
    have rin: "rootp ?r \<in> set (addrs ?r)" using plug_Leaf [of nr kr] False by (intro rootp_in) auto
    then have "x \<noteq> rootp ?r" using dist by auto
    then have "h5 x = ?h4 x" using onlyD [OF o5, of x] by blast
    moreover have "only (set (addrs r)) h1 h5"
      by (rule only_mono [OF only_comp [OF only_comp [OF o3 only_updI [of x "{x}" h3 h3]] o5]])
        (use rin in \<open>auto simp: addrs_r\<close>)
    ultimately show ?thesis
      using h3 h5 t5 False p rr x3 hx n(20)
      by (auto simp: get_right_def set_right_def node_upd_def cpar_append)
  qed
  then obtain h2 m where h2: "(if ?p = a then Some (x, h1)
      else do { h \<leftarrow> (if rootp nr \<noteq> 0 then rb_set_parent (rootp nr) ?p h1 else Some h1);
                h \<leftarrow> set_left ?p (rootp nr) h;
                or \<leftarrow> get_right h a;
                h \<leftarrow> set_right x or h;
                h \<leftarrow> rb_set_parent or x h;
                Some (?p, h) }) = Some (cpar (kr @ InR c l x # k), h2)"
    and t2: "tree_at h2 x ?r" "h2 x = Some m" "rb_right m = rootp ?r" and o2: "only (set (addrs r)) h1 h2"
    by blast
  have l2: "tree_at h2 a l" "ctx_at h2 x k root1" "h2 a = h a"
    using tree_at_only [OF t1(2) o2] ctx_at_only [OF c1 o2] onlyD [OF o2, of a] n a1 by auto
  obtain h3 h4 where h34: "node_upd (\<lambda>n. n\<lparr>rb_parent_color := pc (cpar k) c, rb_left := rootp l\<rparr>) x h2 = Some h3"
      "rb_set_parent (rootp l) x h3 = Some h4" and z4: "repz h4 root1 (Node c l x ?r) k"
    and o4: "only (insert x (set (addrs l))) h2 h4"
    using take_place [OF t2 l2(1) l n(7) l2(2) dist hx(2,3)] by blast
  have "only (set (addrs l) \<union> set (addrs r) \<union> set (caddrs k)) h h4"
    by (rule only_mono [OF only_comp [OF only_comp [OF o1 o2] o4]]) (auto simp: addrs_r)
  then have "st h (set (addrs l) \<union> set (addrs r) \<union> set (caddrs k)) h4 root1 (Node c l x ?r) k"
    using z4 addrs_r by (auto simp: st_def)
  then have "st h (set (addrs l) \<union> set (addrs r) \<union> set (caddrs k)) h4 root1 nr (kr @ InR c l x # k)"
    by (simp only: st_zoom_r st_append)
  moreover have "rb_erase_succ a h root = Some (rootp nr, cpar (kr @ InR c l x # k), cbit d, h4, root1)"
    using n lm h1 reads h2 l2 h34 by (simp add: rb_erase_succ_def)
  ultimately show ?thesis using r_eq al by blast
qed

text \<open>After the unlinking: the loop runs when the unlinked node was black.\<close>

lemma erase_rest:
  assumes st: "st h S h1 root1 t k" and "rb t" and ok: "ctx_ok (if d = Black then Suc (bh t) else bh t) k"
    and "d = Red \<Longrightarrow> \<not> is_red t"
  shows "\<exists>h' root' t'. (if cbit d = 1 then rb_erase_color (rootp t) (cpar k) h1 root1 else Some (h1, root1)) =
      Some (h', root') \<and> rep h' root' t' \<and> rb t' \<and> \<not> is_red t' \<and>
    addrs t' = ctx_before k @ addrs t @ ctx_after k \<and> only (set (addrs t')) h h'"
proof (cases d)
  case Red
  have "rep h1 root1 (plug t k)" "only (set (addrs (plug t k))) h h1"
    using st by (auto simp: st_def rep_plug addrs_plug set_caddrs intro: only_mono)
  with Red assms rb_plug [of t k] show ?thesis by (auto simp: addrs_plug)
next
  case Black
  note p = rb_paint_Black [OF assms(2)]
  have ok: "ctx_ok (Suc (bh t)) k" using ok Black by simp
  obtain h' root' where "rb_erase_color (rootp t) (cpar k) h1 root1 = Some (h', root')"
    and s': "st h S h' root' (del_fix t k) []"
    using erase_color_ok [OF p ok st] by (auto simp: erase_goal_def)
  moreover have "rep h' root' (del_fix t k)" "only (set (addrs (del_fix t k))) h h'"
    using s' rep_plug [of h' root' "del_fix t k" "[]"] by (auto simp: st_def)
  ultimately show ?thesis using Black del_fix_rb [OF p ok] addrs_del_fix [OF p ok] by auto
qed

lemma ctx_ok_addr: "ctx_ok n (kr @ InR c l a # k) = ctx_ok n (kr @ InR c l b # k)"
proof (induction kr arbitrary: n)
  case (Cons f kr)
  then show ?case by (cases kr) auto
qed simp

lemma hole_black_addr: "hole_black (kr @ InR c l a # k) = hole_black (kr @ InR c l b # k)"
  by (cases kr) (auto simp: hole_black_def)

lemma ctx_before_left: "all_left k \<Longrightarrow> ctx_before k = []"
  by (induction k rule: ctx_before.induct) (auto simp: all_left_def)

lemma rb_Leaf_bh: "rb t \<Longrightarrow> \<not> is_red t \<Longrightarrow> bh t = 0 \<Longrightarrow> t = Leaf" by (cases t) auto

lemma erase_ok:
  assumes rep: "rep h root (plug (Node c l a r) k)" and rb: "rb (plug (Node c l a r) k)"
    and black: "\<not> is_red (plug (Node c l a r) k)"
  shows "\<exists>h' root' t'. rb_erase a h root = Some (h', root') \<and> rep h' root' t' \<and> rb t' \<and> \<not> is_red t' \<and>
    addrs t' = ctx_before k @ addrs l @ addrs r @ ctx_after k \<and> only (set (addrs t')) h h'"
proof -
  have z: "repz h root (Node c l a r) k" using rep by (simp add: rep_plug)
  note n = repz_node [OF z] and b = rb_plugD [OF rb black]
  note zero = tree_at_root [OF n(1)] tree_at_root [OF n(2)]
  show ?thesis
  proof (cases "l = Leaf \<or> r = Leaf")
    case True
    define t where "t = (if l = Leaf then r else l)"
    have t: "l = Leaf \<and> t = r \<or> r = Leaf \<and> t = l" using True by (auto simp: t_def)
    obtain h1 root1 where h1: "rb_erase_simple a (rootp t) h root = Some (rootp t, cpar k, cbit c, h1, root1)"
      and s1: "st h (set (addrs t) \<union> set (caddrs k)) h1 root1 t k"
      using erase_simple_ok [OF z t] by auto
    have "rb_erase a h root = (if cbit c = 1 then rb_erase_color (rootp t) (cpar k) h1 root1 else Some (h1, root1))"
      using n zero h1 True by (auto simp: rb_erase_def t_def)
    moreover have "addrs t = addrs l @ addrs r" using t by auto
    ultimately show ?thesis using erase_rest [OF s1, of c] b t by auto
  next
    case False
    then obtain d x nr kr h1 root1 where r: "r = plug (Node d Leaf x nr) kr" and al: "all_left kr"
      and h1: "rb_erase_succ a h root = Some (rootp nr, cpar (kr @ InR c l x # k), cbit d, h1, root1)"
      and s1: "st h (set (addrs l) \<union> set (addrs r) \<union> set (caddrs k)) h1 root1 nr (kr @ InR c l x # k)"
      using erase_succ_ok [OF z] by blast
    have "plug (Node c l a r) k = plug (Node d Leaf x nr) (kr @ InR c l a # k)"
      by (simp add: r plug_append)
    with rb_plugD [of "Node d Leaf x nr" "kr @ InR c l a # k"] rb black
    have nb: "rb (Node d Leaf x nr)" "ctx_ok (bh (Node d Leaf x nr)) (kr @ InR c l x # k)"
      by (auto simp: ctx_ok_addr [of _ kr c l a k x])
    have "addrs (plug nr (kr @ InR c l x # k)) = ctx_before k @ addrs l @ addrs r @ ctx_after k"
      using al by (simp add: r plug_append addrs_plug ctx_before_left)
    then have "ctx_before (kr @ InR c l x # k) @ addrs nr @ ctx_after (kr @ InR c l x # k) =
        ctx_before k @ addrs l @ addrs r @ ctx_after k" by (simp only: addrs_plug)
    moreover have "rb_erase a h root = (if cbit d = 1 then rb_erase_color (rootp nr) (cpar (kr @ InR c l x # k)) h1 root1
        else Some (h1, root1))"
      using n zero h1 False by (auto simp: rb_erase_def)
    ultimately show ?thesis using erase_rest [OF s1, of d] nb by auto
  qed
qed

end
