(* ===== verification/RbtreeProps.thy ===== *)
theory RbtreeProps
  imports RbtreeHeap
begin

text \<open>
  Traversal and replacement on a represented tree, and the properties of the red-black trees.
\<close>

section \<open>Traversal\<close>

abbreviation first_or_null :: "u64 list \<Rightarrow> u64" where
  "first_or_null xs \<equiv> (case xs of [] \<Rightarrow> 0 | x # _ \<Rightarrow> x)"

abbreviation last_or_null :: "u64 list \<Rightarrow> u64" where
  "last_or_null xs \<equiv> (if xs = [] then 0 else last xs)"

lemma addrs_Nil [simp]: "(addrs t = []) = (t = Leaf)" by (cases t) auto

lemma leftmost_hd: "tree_at h par t \<Longrightarrow> t \<noteq> Leaf \<Longrightarrow> rb_leftmost h (rootp t) = Some (hd (addrs t))"
proof (induction t arbitrary: par)
  case (Node c l a r)
  then show ?case
    by (cases "l = Leaf") (auto simp: rb_leftmost.simps [of h a] get_left_def tree_at_root hd_append)
qed simp

lemma rightmost_last: "tree_at h par t \<Longrightarrow> t \<noteq> Leaf \<Longrightarrow> rb_rightmost h (rootp t) = Some (last (addrs t))"
proof (induction t arbitrary: par)
  case (Node c l a r)
  then show ?case
    by (cases "r = Leaf") (auto simp: rb_rightmost.simps [of h a] get_right_def tree_at_root)
qed simp

lemma climb_right:
  "repz h root t k \<Longrightarrow> t \<noteq> Leaf \<Longrightarrow> rb_climb_right h (rootp t) = Some (first_or_null (ctx_after k))"
proof (induction k arbitrary: t)
  case Nil
  then obtain c l a r where "t = Node c l a r" by (cases t) auto
  with Nil repz_node [of h root c l a r "[]"] show ?case by (simp add: rb_climb_right.simps)
next
  case (Cons f k)
  obtain c l a r where t: "t = Node c l a r" using Cons.prems by (cases t) auto
  note n = repz_node [OF Cons.prems(1) [unfolded t]]
  have z: "repz h root (plug1 t f) k" using Cons.prems by (simp add: repz_plug1)
  show ?case
  proof (cases f)
    case (InL d p s)
    with z repz_node [of h root d t p s k] n t show ?thesis
      by (auto simp: rb_climb_right.simps [of h a])
  next
    case (InR d s p)
    with z repz_node [of h root d s p t k] n t Cons.IH [of "plug1 t f"] show ?thesis
      by (simp add: rb_climb_right.simps [of h a])
  qed
qed

lemma climb_left:
  "repz h root t k \<Longrightarrow> t \<noteq> Leaf \<Longrightarrow> rb_climb_left h (rootp t) = Some (last_or_null (ctx_before k))"
proof (induction k arbitrary: t)
  case Nil
  then obtain c l a r where "t = Node c l a r" by (cases t) auto
  with Nil repz_node [of h root c l a r "[]"] show ?case by (simp add: rb_climb_left.simps)
next
  case (Cons f k)
  obtain c l a r where t: "t = Node c l a r" using Cons.prems by (cases t) auto
  note n = repz_node [OF Cons.prems(1) [unfolded t]]
  have z: "repz h root (plug1 t f) k" using Cons.prems by (simp add: repz_plug1)
  show ?case
  proof (cases f)
    case (InR d s p)
    with z repz_node [of h root d s p t k] n t show ?thesis
      by (auto simp: rb_climb_left.simps [of h a])
  next
    case (InL d p s)
    with z repz_node [of h root d t p s k] n t Cons.IH [of "plug1 t f"] show ?thesis
      by (simp add: rb_climb_left.simps [of h a])
  qed
qed

lemma first_append: "xs \<noteq> [] \<Longrightarrow> first_or_null (xs @ ys) = hd xs" by (cases xs) auto

lemma next_ok:
  assumes z: "repz h root (Node c l a r) k"
  shows "rb_next h a = Some (first_or_null (addrs r @ ctx_after k))"
    and "rb_prev h a = Some (last_or_null (ctx_before k @ addrs l))"
proof -
  note n = repz_node [OF z]
  have "cpar k \<noteq> a" using n(5,6) by (cases k) auto
  moreover have "rb_climb_right h a = Some (first_or_null (ctx_after k))"
    "rb_climb_left h a = Some (last_or_null (ctx_before k))"
    using climb_right [OF z] climb_left [OF z] by simp_all
  ultimately show "rb_next h a = Some (first_or_null (addrs r @ ctx_after k))"
    and "rb_prev h a = Some (last_or_null (ctx_before k @ addrs l))"
    using n(16-18) tree_at_root [OF n(1)] tree_at_root [OF n(2)] leftmost_hd [OF n(2)] rightmost_last [OF n(1)]
    by (cases "r = Leaf"; cases "l = Leaf"; simp add: rb_next_def rb_prev_def first_append)+
qed

section \<open>Replacement\<close>

lemma replace_ok:
  assumes z: "repz h root (Node c l v r) k" and n: "h new \<noteq> None" "new \<noteq> 0" "aligned new"
    and fresh: "new \<notin> set (addrs (Node c l v r))" "new \<notin> set (caddrs k)"
  shows "\<exists>h' root'. rb_replace_node v new h root = Some (h', root') \<and> repz h' root' (Node c l new r) k \<and>
    only (insert new (set (addrs l) \<union> set (addrs r) \<union> set (caddrs k))) h h'"
proof -
  note d = repz_node [OF z]
  obtain h1 root1 where h1: "rb_change_child (cpar k) v new h root = Some (h1, root1)"
    and c1: "ctx_at h1 new k root1" and o1: "only (set (caddrs k)) h h1"
    using change_child [OF d(3-6), of new] by auto
  have t1: "tree_at h1 v r" "tree_at h1 v l" using tree_at_only [OF _ o1] d by blast+
  obtain h2 where h2: "(if rootp l \<noteq> 0 then rb_set_parent (rootp l) new h1 else Some h1) = Some h2"
    and l2: "tree_at h2 new l" and o2: "only (set (addrs l)) h1 h2"
    using reparent_opt [OF t1(2) d(9) d(7), of new] by auto
  have r2: "tree_at h2 v r" using tree_at_only [OF t1(1) o2] d by auto
  obtain h3 where h3: "(if rootp r \<noteq> 0 then rb_set_parent (rootp r) new h2 else Some h2) = Some h3"
    and r3: "tree_at h3 new r" and o3: "only (set (addrs r)) h2 h3"
    using reparent_opt [OF r2 d(10) d(7), of new] by auto
  have l3: "tree_at h3 new l" using tree_at_only [OF l2 o3] d by auto
  have c3: "ctx_at h3 new k root1" using ctx_at_only [OF ctx_at_only [OF c1 o2] o3] d by auto
  have v: "h1 v = h v" "h2 v = h v" "h3 v = h v" "h3 new = h new"
    using onlyD [OF o1] onlyD [OF o2] onlyD [OF o3] d fresh by auto
  let ?h4 = "h3(new \<mapsto> \<lparr>rb_parent_color = pc (cpar k) c, rb_right = rootp r, rb_left = rootp l\<rparr>)"
  have "repz ?h4 root1 (Node c l new r) k"
    using l3 r3 c3 n d fresh by (auto simp: repz_def)
  moreover have "only (insert new (set (addrs l) \<union> set (addrs r) \<union> set (caddrs k))) h ?h4"
    by (rule only_updI) (auto intro: only_mono [OF only_comp [OF only_comp [OF o1 o2] o3]])
  moreover have "rb_replace_node v new h root = Some (?h4, root1)"
    using h1 h2 h3 v d n by (auto simp: rb_replace_node_def get_left_def get_right_def node_upd_def)
  ultimately show ?thesis by blast
qed

section \<open>Properties\<close>

text \<open>\<open>rb_tree h root xs\<close>: below \<open>root\<close> the heap holds a red-black tree, with consistent parent pointers,
  a black root, no red node below a red node and the same number of black nodes on every path,
  whose nodes are \<open>xs\<close> from left to right.\<close>

definition rb_tree :: "rb_heap \<Rightarrow> u64 \<Rightarrow> u64 list \<Rightarrow> bool" where
  "rb_tree h root xs = (\<exists>t. rep h root t \<and> rb t \<and> \<not> is_red t \<and> addrs t = xs)"

text \<open>\<open>rb_slot h root xs ys parent link\<close>: \<open>link\<close> is the null pointer below \<open>parent\<close> that lies between the
  nodes \<open>xs\<close> and the nodes \<open>ys\<close> of such a tree, as the search loop of a caller leaves it.\<close>

definition rb_slot :: "rb_heap \<Rightarrow> u64 \<Rightarrow> u64 list \<Rightarrow> u64 list \<Rightarrow> u64 \<Rightarrow> rb_link \<Rightarrow> bool" where
  "rb_slot h root xs ys parent link =
     (\<exists>k. rep h root (plug Leaf k) \<and> rb (plug Leaf k) \<and> \<not> is_red (plug Leaf k) \<and>
       ctx_before k = xs \<and> ctx_after k = ys \<and> parent = cpar k \<and> link = link_of k)"

lemma rb_treeE:
  assumes "rb_tree h root (xs @ a # ys)"
  obtains c l r k where "rep h root (plug (Node c l a r) k)" and "rb (plug (Node c l a r) k)"
    and "\<not> is_red (plug (Node c l a r) k)" and "xs = ctx_before k @ addrs l" and "ys = addrs r @ ctx_after k"
    and "repz h root (Node c l a r) k"
proof -
  obtain t where t: "rep h root t" "rb t" "\<not> is_red t" and xs: "addrs t = xs @ a # ys"
    using assms by (auto simp: rb_tree_def)
  obtain c l r k where tk: "t = plug (Node c l a r) k" using in_addrs_plug [of a t] xs by auto
  have "distinct (xs @ a # ys)" using t xs by (simp add: rep_def)
  then have "a \<notin> set xs" "a \<notin> set ys" by auto
  moreover have "xs @ a # ys = (ctx_before k @ addrs l) @ a # addrs r @ ctx_after k"
    using xs tk by (simp add: addrs_plug)
  ultimately have "xs = ctx_before k @ addrs l \<and> ys = addrs r @ ctx_after k"
    using append_Cons_eq_iff by metis
  with t tk that show thesis by (simp add: rep_plug)
qed

lemma rb_link_slot:
  assumes "rb_slot h root xs ys parent link" and "h n \<noteq> None" and "n \<noteq> 0" and "aligned n"
    and "n \<notin> set (xs @ ys)"
  shows "\<exists>h' root'. rb_link_and_balance root n parent link h = Some (h', root') \<and>
    rb_tree h' root' (xs @ n # ys) \<and> (\<forall>x. x \<notin> set (n # xs @ ys) \<longrightarrow> h' x = h x)"
proof -
  obtain k where k: "rep h root (plug Leaf k)" "rb (plug Leaf k)" "\<not> is_red (plug Leaf k)"
    "ctx_before k = xs" "ctx_after k = ys" "parent = cpar k" "link = link_of k"
    using assms(1) by (auto simp: rb_slot_def)
  with link_and_balance_ok [OF k(1-3) assms(2-4)] assms(5) show ?thesis
    by (auto simp: rb_tree_def addrs_plug only_def)
qed

text \<open>Changes elsewhere do not matter to a tree.\<close>

lemma rep_cong: "rep h root t \<Longrightarrow> (\<And>x. x \<in> set (addrs t) \<Longrightarrow> h' x = h x) \<Longrightarrow> rep h' root t"
  using tree_at_only [of h 0 t "- set (addrs t)" h'] by (auto simp: rep_def only_def)

lemma rb_tree_cong:
  assumes "rb_tree h root xs" and "\<And>x. x \<in> set xs \<Longrightarrow> h' x = h x"
  shows "rb_tree h' root xs"
proof -
  obtain t where "rep h root t" "rb t" "\<not> is_red t" "addrs t = xs" using assms(1) by (auto simp: rb_tree_def)
  with rep_cong [of h root t h'] assms(2) show ?thesis unfolding rb_tree_def by blast
qed

lemma rb_slot_cong:
  assumes "rb_slot h root xs ys p l" and "\<And>x. x \<in> set xs \<union> set ys \<Longrightarrow> h' x = h x"
  shows "rb_slot h' root xs ys p l"
proof -
  obtain k where k: "rep h root (plug Leaf k)" "rb (plug Leaf k)" "\<not> is_red (plug Leaf k)"
    "ctx_before k = xs" "ctx_after k = ys" "p = cpar k" "l = link_of k"
    using assms(1) by (auto simp: rb_slot_def)
  moreover have "rep h' root (plug Leaf k)" using rep_cong [OF k(1)] k assms(2) by (simp add: addrs_plug)
  ultimately show ?thesis unfolding rb_slot_def by blast
qed

lemma rb_slot_empty: "rb_slot h 0 [] [] 0 LinkRoot"
  unfolding rb_slot_def by (rule exI [of _ "[]"]) (simp add: rep_def)

lemma rb_tree_single: "rb_tree h root [a] \<Longrightarrow> root = a"
proof -
  assume "rb_tree h root [a]"
  then obtain t where "rep h root t" "addrs t = [a]" by (auto simp: rb_tree_def)
  then show "root = a" by (cases t) (auto simp: rep_def append_eq_Cons_conv)
qed

definition demo_heap :: rb_heap where
  "demo_heap = [8 \<mapsto> \<lparr>rb_parent_color = 1, rb_right = 16, rb_left = 0\<rparr>,
     16 \<mapsto> \<lparr>rb_parent_color = 8, rb_right = 0, rb_left = 0\<rparr>,
     24 \<mapsto> \<lparr>rb_parent_color = 0, rb_right = 0, rb_left = 0\<rparr>]"

lemma demo_tree: "rb_tree demo_heap 8 ([] @ 8 # [16])" "rb_tree demo_heap 8 ([8] @ 16 # [])"
proof -
  have "rep demo_heap 8 (Node Black Leaf 8 (Node Red Leaf 16 Leaf))"
    by (simp add: rep_def demo_heap_def pc_def cbit_def aligned_def)
  then show "rb_tree demo_heap 8 ([] @ 8 # [16])" "rb_tree demo_heap 8 ([8] @ 16 # [])"
    unfolding rb_tree_def by (auto intro!: exI [of _ "Node Black Leaf 8 (Node Red Leaf 16 Leaf)"])
qed

lemma demo_slot: "rb_slot demo_heap 8 [8, 16] [] 16 (LinkRight 16)"
proof -
  have "rep demo_heap 8 (plug Leaf [InR Red Leaf 16, InR Black Leaf 8])"
    by (simp add: rep_def demo_heap_def pc_def cbit_def aligned_def)
  then show ?thesis
    unfolding rb_slot_def by (intro exI [of _ "[InR Red Leaf 16, InR Black Leaf 8]"]) simp
qed

text \<open>C2: linking a fresh node at the null pointer a search has found never dereferences a bad pointer,
  terminates, and leaves a valid red-black tree with the node at exactly that place in the order;
  nothing outside the tree and the new node changes.\<close>

theorem rb_link_and_balance_correct:
  assumes "rb_slot h root xs ys parent link" and "h n \<noteq> None" and "n \<noteq> 0" and "aligned n"
    and "n \<notin> set (xs @ ys)"
  shows "\<exists>h' root'. rb_link_and_balance root n parent link h = Some (h', root') \<and>
    rb_tree h' root' (xs @ n # ys) \<and> (\<forall>x. x \<notin> set (n # xs @ ys) \<longrightarrow> h' x = h x)"
  using assms by (rule rb_link_slot)

theorem rb_link_and_balance_correct_witness:
  "\<exists>h' root'. rb_link_and_balance 8 24 16 (LinkRight 16) demo_heap = Some (h', root') \<and>
    rb_tree h' root' [8, 16, 24]"
  using rb_link_and_balance_correct [OF demo_slot, of 24] by (auto simp: demo_heap_def aligned_def)

text \<open>C1: removing a node of a valid tree never dereferences a bad pointer, terminates, and leaves a valid
  red-black tree of the other nodes in the same order; nothing else changes, the removed node included.\<close>

theorem rb_erase_correct:
  assumes "rb_tree h root (xs @ a # ys)"
  shows "\<exists>h' root'. rb_erase a h root = Some (h', root') \<and> rb_tree h' root' (xs @ ys) \<and>
    (\<forall>x. x \<notin> set (xs @ ys) \<longrightarrow> h' x = h x)"
  using assms
proof (rule rb_treeE)
  fix c l r k
  assume t: "rep h root (plug (Node c l a r) k)" "rb (plug (Node c l a r) k)"
    "\<not> is_red (plug (Node c l a r) k)" and xs: "xs = ctx_before k @ addrs l" "ys = addrs r @ ctx_after k"
  show ?thesis using erase_ok [OF t] xs by (auto simp: rb_tree_def only_def)
qed

theorem rb_erase_correct_witness:
  "\<exists>h' root'. rb_erase 8 demo_heap 8 = Some (h', root') \<and> rb_tree h' root' [16]"
  using rb_erase_correct [OF demo_tree(1)] by auto

text \<open>C31: the traversal functions walk the tree in order: the first and the last node, and from every node
  its successor and its predecessor, with the null pointer at the ends.\<close>

theorem rb_traversal_in_order:
  assumes "rb_tree h root zs"
  shows "rb_first h root = Some (first_or_null zs) \<and> rb_last h root = Some (last_or_null zs) \<and>
    (\<forall>xs a ys. zs = xs @ a # ys \<longrightarrow>
       rb_next h a = Some (first_or_null ys) \<and> rb_prev h a = Some (last_or_null xs))"
proof -
  obtain t where t: "root = rootp t" "tree_at h 0 t" "addrs t = zs"
    using assms by (auto simp: rb_tree_def rep_def)
  then have "rb_first h root = Some (first_or_null zs)" "rb_last h root = Some (last_or_null zs)"
    using leftmost_hd [OF t(2)] rightmost_last [OF t(2)] tree_at_root [OF t(2)]
    by (cases "t = Leaf"; cases zs; auto simp: rb_first_def rb_last_def)+
  moreover have "rb_next h a = Some (first_or_null ys) \<and> rb_prev h a = Some (last_or_null xs)"
    if "zs = xs @ a # ys" for xs a ys
    using assms [unfolded that] by (rule rb_treeE) (use next_ok in blast)
  ultimately show ?thesis by blast
qed

theorem rb_traversal_in_order_witness:
  "rb_first demo_heap 8 = Some 8 \<and> rb_next demo_heap 8 = Some 16 \<and> rb_next demo_heap 16 = Some 0 \<and>
   rb_last demo_heap 8 = Some 16 \<and> rb_prev demo_heap 16 = Some 8"
proof -
  note t = rb_traversal_in_order [OF demo_tree(1)]
  show ?thesis
    using t t [THEN conjunct2, THEN conjunct2, rule_format, of "[]" 8 "[16]"]
      t [THEN conjunct2, THEN conjunct2, rule_format, of "[8]" 16 "[]"] by simp
qed

text \<open>replacing a node puts the new node at its place in the order and keeps the tree valid.\<close>

theorem rb_replace_node_correct:
  assumes "rb_tree h root (xs @ v # ys)" and "h n \<noteq> None" and "n \<noteq> 0" and "aligned n"
    and "n \<notin> set (xs @ v # ys)"
  shows "\<exists>h' root'. rb_replace_node v n h root = Some (h', root') \<and> rb_tree h' root' (xs @ n # ys) \<and>
    (\<forall>x. x \<notin> set (xs @ n # ys) \<longrightarrow> h' x = h x)"
  using assms(1)
proof (rule rb_treeE)
  fix c l r k
  assume t: "rb (plug (Node c l v r) k)" "\<not> is_red (plug (Node c l v r) k)"
    and xs: "xs = ctx_before k @ addrs l" "ys = addrs r @ ctx_after k" and z: "repz h root (Node c l v r) k"
  have "rb (plug (Node c l n r) k) \<and> \<not> is_red (plug (Node c l n r) k)"
    using rb_plugD [OF t] rb_plug [of "Node c l n r" k] by auto
  moreover obtain h' root' where "rb_replace_node v n h root = Some (h', root')"
    "repz h' root' (Node c l n r) k" "only (insert n (set (addrs l) \<union> set (addrs r) \<union> set (caddrs k))) h h'"
    using replace_ok [OF z assms(2-4)] assms(5) xs by (auto simp: set_caddrs)
  moreover have "addrs (plug (Node c l n r) k) = xs @ n # ys" by (simp add: xs addrs_plug)
  ultimately show ?thesis
    unfolding rb_tree_def rep_plug [symmetric] by (auto simp: xs set_caddrs only_def)
qed

theorem rb_replace_node_correct_witness:
  "\<exists>h' root'. rb_replace_node 16 24 demo_heap 8 = Some (h', root') \<and> rb_tree h' root' [8, 24]"
  using rb_replace_node_correct [OF demo_tree(2), of 24] by (auto simp: demo_heap_def aligned_def)

end
