(* ===== verification/KcmpProps.thy ===== *)
theory KcmpProps
  imports KcmpIds RbtreeProps
begin

text \<open>
  The identifiers of \<^verbatim>\<open>criu/kcmp-ids.c\<close> stand for kernel objects: the search loops on a valid tree, the
  invariant of the two levels of trees, and what \<^verbatim>\<open>kid_generate_gen\<close> returns.
\<close>

section \<open>Searching a red-black tree\<close>

fun rank :: "dir \<Rightarrow> nat" where
  "rank GoRight = 0"
| "rank Stop = 1"
| "rank _ = 2"

text \<open>The comparison leads towards one place of the order.\<close>

definition directed :: "(u64 \<Rightarrow> dir) \<Rightarrow> u64 list \<Rightarrow> bool" where
  "directed d xs =
     ((\<forall>x \<in> set xs. d x \<noteq> Fail) \<and>
      sorted_wrt (\<lambda>x y. rank (d x) < rank (d y) \<or> d x = d y \<and> d x \<noteq> Stop) xs)"

lemma directed_Node:
  assumes "directed d (addrs (Node c l a r))"
  shows "directed d (addrs l)" "directed d (addrs r)" "d a \<noteq> Fail"
    "d a = GoRight \<Longrightarrow> x \<in> set (addrs l) \<Longrightarrow> d x = GoRight"
    "d a = GoLeft \<Longrightarrow> x \<in> set (addrs r) \<Longrightarrow> d x = GoLeft"
    "d a = Stop \<Longrightarrow> x \<in> set (addrs l) \<Longrightarrow> d x = GoRight"
    "d a = Stop \<Longrightarrow> x \<in> set (addrs r) \<Longrightarrow> d x = GoLeft"
proof -
  show "directed d (addrs l)" "directed d (addrs r)" "d a \<noteq> Fail"
    using assms by (auto simp: directed_def sorted_wrt_append)
  show "d a = GoRight \<Longrightarrow> x \<in> set (addrs l) \<Longrightarrow> d x = GoRight"
    using assms by (cases "d x") (auto simp: directed_def sorted_wrt_append)
  show "d a = GoLeft \<Longrightarrow> x \<in> set (addrs r) \<Longrightarrow> d x = GoLeft"
    using assms by (cases "d x") (auto simp: directed_def sorted_wrt_append)
  show "d a = Stop \<Longrightarrow> x \<in> set (addrs l) \<Longrightarrow> d x = GoRight"
    using assms by (cases "d x") (auto simp: directed_def sorted_wrt_append)
  show "d a = Stop \<Longrightarrow> x \<in> set (addrs r) \<Longrightarrow> d x = GoLeft"
    using assms by (cases "d x") (auto simp: directed_def sorted_wrt_append)
qed

lemma link_get_ok: "repz h root t k \<Longrightarrow> link_get h root (link_of k) = Some (rootp t)"
proof (cases k)
  case (Cons f k')
  then show "repz h root t k \<Longrightarrow> link_get h root (link_of k) = Some (rootp t)"
    by (cases f) (auto simp: repz_def link_get_def field_defs)
qed (simp add: repz_def link_get_def)

lemma rb_search_ok:
  assumes "repz h root t k" and "\<And>x. x \<in> set (addrs t) \<Longrightarrow> cmp x = Some (d x)"
    and "directed d (addrs t)"
  shows "(\<exists>x \<in> set (addrs t). d x = Stop \<and>
       rb_search cmp h root (rootp t) (link_of k) (cpar k) = Some (Found x)) \<or>
     (\<forall>x \<in> set (addrs t). d x \<noteq> Stop) \<and>
       (\<exists>k'. rb_search cmp h root (rootp t) (link_of k) (cpar k) = Some (Missing (cpar k') (link_of k')) \<and>
         plug Leaf k' = plug t k \<and>
         ctx_before k' = ctx_before k @ filter (\<lambda>x. d x = GoRight) (addrs t) \<and>
         ctx_after k' = filter (\<lambda>x. d x = GoLeft) (addrs t) @ ctx_after k)"
  using assms
proof (induction t arbitrary: k)
  case Leaf
  then show ?case by (auto simp: rb_search.simps intro!: exI [of _ k])
next
  case (Node c l a r)
  note n = repz_node [OF Node.prems(1)] and d = directed_Node [OF Node.prems(3)]
  have lk: "link_get h root (link_of k) = Some a" using link_get_ok [OF Node.prems(1)] by simp
  have unf: "rb_search cmp h root a (link_of k) (cpar k) =
      (case d a of
          GoLeft \<Rightarrow> rb_search cmp h root (rootp l) (LinkLeft a) a
        | GoRight \<Rightarrow> rb_search cmp h root (rootp r) (LinkRight a) a
        | Stop \<Rightarrow> Some (Found a)
        | Fail \<Rightarrow> Some Failed)"
    using n lk Node.prems(2) by (subst rb_search.simps) (simp split: dir.split)
  have zl: "repz h root l (InL c a r # k)" and zr: "repz h root r (InR c l a # k)"
    using Node.prems(1) repz_plug1 [of h root l "InL c a r" k] repz_plug1 [of h root r "InR c l a" k] by simp_all
  show ?case
  proof (cases "d a")
    case GoLeft
    have "filter (\<lambda>x. d x = GoLeft) (addrs r) = addrs r" "filter (\<lambda>x. d x = GoRight) (addrs r) = []"
      using d(5) GoLeft by (auto simp: filter_id_conv filter_empty_conv)
    with Node.IH(1) [OF zl] Node.prems(2) d GoLeft unf show ?thesis by fastforce
  next
    case GoRight
    have "filter (\<lambda>x. d x = GoRight) (addrs l) = addrs l" "filter (\<lambda>x. d x = GoLeft) (addrs l) = []"
      using d(4) GoRight by (auto simp: filter_id_conv filter_empty_conv)
    with Node.IH(2) [OF zr] Node.prems(2) d GoRight unf show ?thesis by fastforce
  next
    case Stop
    with unf show ?thesis by auto
  qed (use d(3) in simp)
qed

lemma tree_at_dom: "tree_at h p t \<Longrightarrow> x \<in> set (addrs t) \<Longrightarrow> h x \<noteq> None"
  by (induction t arbitrary: p) auto

lemma rb_tree_dom: "rb_tree h root xs \<Longrightarrow> x \<in> set xs \<Longrightarrow> h x \<noteq> None"
  by (auto simp: rb_tree_def rep_def dest: tree_at_dom)

lemma rb_tree_null:
  assumes "rb_tree h 0 xs" shows "xs = []"
proof -
  obtain t where "rootp t = 0" "tree_at h 0 t" "addrs t = xs" using assms by (auto simp: rb_tree_def rep_def)
  then show ?thesis using tree_at_root by fastforce
qed

text \<open>The same for a valid tree: the search finds the node, or the null pointer at its place.\<close>

lemma rb_search_tree:
  assumes "rb_tree h root xs" and "\<And>x. x \<in> set xs \<Longrightarrow> cmp x = Some (d x)" and "directed d xs"
  shows "(\<exists>x \<in> set xs. d x = Stop \<and> rb_search cmp h root root LinkRoot 0 = Some (Found x)) \<or>
     (\<forall>x \<in> set xs. d x \<noteq> Stop) \<and>
       (\<exists>p link. rb_search cmp h root root LinkRoot 0 = Some (Missing p link) \<and>
         rb_slot h root (filter (\<lambda>x. d x = GoRight) xs) (filter (\<lambda>x. d x = GoLeft) xs) p link)"
proof -
  obtain t where t: "rep h root t" "rb t" "\<not> is_red t" "addrs t = xs"
    using assms(1) by (auto simp: rb_tree_def)
  have z: "repz h root t []" using t rep_plug [of h root t "[]"] by simp
  have r: "rootp t = root" using t by (simp add: rep_def)
  have "\<exists>p link. rb_search cmp h root root LinkRoot 0 = Some (Missing p link) \<and>
         rb_slot h root (filter (\<lambda>x. d x = GoRight) xs) (filter (\<lambda>x. d x = GoLeft) xs) p link"
    if "rb_search cmp h root root LinkRoot 0 = Some (Missing (cpar k') (link_of k'))" "plug Leaf k' = t"
      "ctx_before k' = filter (\<lambda>x. d x = GoRight) xs" "ctx_after k' = filter (\<lambda>x. d x = GoLeft) xs" for k'
    using that t unfolding rb_slot_def by blast
  with rb_search_ok [OF z, of cmp d] assms(2,3) t(4) r show ?thesis by auto
qed

section \<open>The invariant\<close>

text \<open>What \<^verbatim>\<open>kcmp(2)\<close> documents: the objects of one type are totally ordered, \<open>obj\<close> being the place of
  the object that a task has under an index.\<close>

definition kcmp_ok :: "(int \<Rightarrow> u32 \<Rightarrow> nat) \<Rightarrow> u32 \<Rightarrow> kcmp_call \<Rightarrow> bool" where
  "kcmp_ok obj type kcmp =
     (\<forall>p q i j. kcmp p q type i j =
        (if obj p i = obj q j then 0 else if obj p i < obj q j then 1 else 2))"

text \<open>What \<^verbatim>\<open>malloc(3)\<close> documents: the block is aligned, is not null and is not in use.\<close>

definition xmalloc_ok :: "(kid_mem \<Rightarrow> u64 option) \<Rightarrow> bool" where
  "xmalloc_ok xmalloc = (\<forall>m e. xmalloc m = Some e \<longrightarrow> e \<noteq> 0 \<and> aligned e \<and> entries m e = None)"

definition key_of :: "(int \<Rightarrow> u32 \<Rightarrow> nat) \<Rightarrow> kid_elem \<Rightarrow> nat" where
  "key_of obj el = obj (ke_pid el) (idx el)"

abbreviation elem_at :: "kid_mem \<Rightarrow> u64 \<Rightarrow> kid_elem" where
  "elem_at m x \<equiv> elem (the (entries m x))"

text \<open>The entries in the main tree are \<open>gs\<close>, in the order of their \<^verbatim>\<open>genid\<close>; the subtree of an entry
  \<open>e\<close> is \<open>ss e\<close>, whose members have the same \<^verbatim>\<open>genid\<close> and descend in the order of their objects.\<close>

definition sub_ok :: "(int \<Rightarrow> u32 \<Rightarrow> nat) \<Rightarrow> kid_mem \<Rightarrow> u64 \<Rightarrow> u64 list \<Rightarrow> bool" where
  "sub_ok obj m e xs =
     (\<exists>en. entries m e = Some en \<and> rb_tree (sub_heap m) (subtree_root en) xs \<and> e \<in> set xs \<and>
       sorted_wrt (\<lambda>x y. key_of obj (elem_at m y) < key_of obj (elem_at m x)) xs \<and>
       (\<forall>x \<in> set xs. entries m x \<noteq> None \<and> genid (elem_at m x) = genid (elem en)))"

definition subids_ok :: "kid_mem \<Rightarrow> kid_tree \<Rightarrow> bool" where
  "subids_ok m tree =
     ((\<forall>x y a b. entries m x = Some a \<longrightarrow> entries m y = Some b \<longrightarrow> subid a = subid b \<longrightarrow> x = y) \<and>
      (\<forall>x a. entries m x = Some a \<longrightarrow> subid a \<noteq> 0 \<and> unat (subid a) < unat (kt_subid tree)) \<and>
      0 < kt_subid tree)"

definition kid_shape :: "(int \<Rightarrow> u32 \<Rightarrow> nat) \<Rightarrow> kid_mem \<Rightarrow> kid_tree \<Rightarrow> u64 list \<Rightarrow> (u64 \<Rightarrow> u64 list) \<Rightarrow> bool" where
  "kid_shape obj m tree gs ss =
     (rb_tree (node_heap m) (kt_root tree) gs \<and>
      sorted_wrt (\<lambda>x y. genid (elem_at m x) < genid (elem_at m y)) gs \<and>
      (\<forall>e \<in> set gs. sub_ok obj m e (ss e)) \<and>
      dom (entries m) = (\<Union>e \<in> set gs. set (ss e)))"

definition kid_inv :: "(int \<Rightarrow> u32 \<Rightarrow> nat) \<Rightarrow> kid_mem \<Rightarrow> kid_tree \<Rightarrow> bool" where
  "kid_inv obj m tree = ((\<exists>gs ss. kid_shape obj m tree gs ss) \<and> subids_ok m tree)"

text \<open>The identifiers in use: the \<^verbatim>\<open>genid\<close> and the object of every entry, with its identifier.\<close>

definition kid_ids :: "(int \<Rightarrow> u32 \<Rightarrow> nat) \<Rightarrow> kid_mem \<Rightarrow> ((u32 \<times> nat) \<times> u32) set" where
  "kid_ids obj m = {((genid (elem en), key_of obj (elem en)), subid en) |x en. entries m x = Some en}"

section \<open>A new entry\<close>

lemma init_node_ok:
  "rb_init_node e (h(e \<mapsto> n)) = Some (h(e \<mapsto> \<lparr>rb_parent_color = e, rb_right = 0, rb_left = 0\<rparr>))"
  by (simp add: rb_init_node_def node_upd_def rb_set_parent_def)

lemma alloc_ok:
  assumes "xmalloc m = Some e" and "xmalloc_ok xmalloc" and "0 < kt_subid tree" and "unat (kt_subid tree) < 2 ^ 32"
  shows "\<exists>m'. alloc_kid_entry xmalloc m tree el = Some (Some e, m', tree\<lparr>kt_subid := kt_subid tree + 1\<rparr>) \<and>
    entries m' = (entries m)(e \<mapsto> \<lparr>subtree_root = e, subid = ucast (kt_subid tree), elem = el\<rparr>) \<and>
    rb_tree (sub_heap m') e [e] \<and> node_heap m' e \<noteq> None \<and> sub_heap m' e \<noteq> None \<and>
    (\<forall>x. x \<noteq> e \<longrightarrow> sub_heap m' x = sub_heap m x \<and> node_heap m' x = node_heap m x)"
proof -
  let ?n = "\<lparr>rb_parent_color = e, rb_right = 0, rb_left = 0\<rparr>"
  have e: "e \<noteq> 0" "aligned e" using assms by (auto simp: xmalloc_ok_def)
  have "unat (ucast (kt_subid tree) :: u32) = unat (kt_subid tree)" using assms(4) by (simp add: unsigned_ucast_eq take_bit_nat_eq_self)
  then have nz: "(ucast (kt_subid tree) :: u32) \<noteq> 0" using assms(3) by (auto simp: word_less_nat_alt)
  obtain sh root where l: "rb_link_and_balance 0 e 0 LinkRoot ((sub_heap m)(e \<mapsto> ?n)) = Some (sh, root)"
    and t: "rb_tree sh root [e]" and f: "\<And>x. x \<noteq> e \<Longrightarrow> sh x = sub_heap m x"
    using rb_link_slot [OF rb_slot_empty, of "(sub_heap m)(e \<mapsto> ?n)" e] e by auto
  have "sh e \<noteq> None" using rb_tree_dom [OF t] by simp
  with rb_tree_single [OF t] assms l t f nz show ?thesis
    by (simp add: alloc_kid_entry_def init_node_ok)
qed

text \<open>Adding one entry: \<open>same_but x m m'\<close> says that the other entries keep what identifies them.\<close>

definition view :: "kid_mem \<Rightarrow> u64 \<Rightarrow> (kid_elem \<times> u32) option" where
  "view m y = map_option (\<lambda>en. (elem en, subid en)) (entries m y)"

definition added :: "u64 \<Rightarrow> kid_elem \<Rightarrow> u32 \<Rightarrow> kid_mem \<Rightarrow> kid_mem \<Rightarrow> bool" where
  "added x el sid m m' = (entries m x = None \<and> view m' = (view m)(x \<mapsto> (el, sid)))"

lemma kid_ids_view: "kid_ids obj m = {((genid el, key_of obj el), sid) |x el sid. view m x = Some (el, sid)}"
  by (auto simp: kid_ids_def view_def; blast)

lemma kid_ids_added:
  assumes "added x el sid m m'"
  shows "kid_ids obj m' = insert ((genid el, key_of obj el), sid) (kid_ids obj m)"
proof -
  have "view m x = None" using assms by (simp add: added_def view_def)
  then show ?thesis using assms unfolding kid_ids_view added_def by (auto simp: fun_upd_apply; metis option.distinct(1))
qed

lemma subids_ok_view: "subids_ok m tree =
     ((\<forall>x y a b sid. view m x = Some (a, sid) \<longrightarrow> view m y = Some (b, sid) \<longrightarrow> x = y) \<and>
      (\<forall>x a sid. view m x = Some (a, sid) \<longrightarrow> sid \<noteq> 0 \<and> unat sid < unat (kt_subid tree)) \<and>
      0 < kt_subid tree)"
  unfolding subids_ok_def view_def by (auto; metis)

lemma ucast_subid: "unat (w :: u64) < 2 ^ 32 \<Longrightarrow> unat (ucast w :: u32) = unat w"
  by (simp add: unsigned_ucast_eq take_bit_nat_eq_self)

lemma subids_ok_added:
  assumes "subids_ok m tree" and "added x el (ucast (kt_subid tree)) m m'" and "unat (kt_subid tree) < 2 ^ 32"
    and "kt_subid tree' = kt_subid tree + 1"
  shows "subids_ok m' tree'"
proof -
  let ?s = "ucast (kt_subid tree) :: u32"
  have u: "unat ?s = unat (kt_subid tree)" using assms(3) by (rule ucast_subid)
  have n: "unat (kt_subid tree') = unat (kt_subid tree) + 1"
    using assms(3,4) unat_plus_eq [of "kt_subid tree" 1] by simp
  have "?s \<noteq> 0" using assms(1) u by (auto simp: subids_ok_def word_less_nat_alt)
  moreover have "sid \<noteq> ?s" if "view m y = Some (a, sid)" for y a sid
    using assms(1) that u unfolding subids_ok_view by fastforce
  moreover have "0 < kt_subid tree'" using n by (simp add: word_less_nat_alt)
  ultimately show ?thesis
    using assms(1,2) n u unfolding subids_ok_view added_def
    by (auto simp: fun_upd_apply less_Suc_eq split: if_splits)
qed

lemma addedD:
  "added x el sid m m' \<Longrightarrow> view m' x = Some (el, sid)"
  "added x el sid m m' \<Longrightarrow> y \<noteq> x \<Longrightarrow> view m' y = view m y"
  "added x el sid m m' \<Longrightarrow> entries m x = None"
  by (simp_all add: added_def)

lemma view_entries: "(view m y = None) = (entries m y = None)" "entries m y \<noteq> None \<Longrightarrow> elem_at m y = fst (the (view m y))"
  by (auto simp: view_def)

lemma elem_at_added:
  assumes "added x el sid m m'"
  shows "elem_at m' x = el" and "y \<noteq> x \<Longrightarrow> entries m y \<noteq> None \<Longrightarrow> elem_at m' y = elem_at m y"
    and "(entries m' y = None) = (y \<noteq> x \<and> entries m y = None)"
proof -
  have x: "entries m' x \<noteq> None" using addedD(1) [OF assms] view_entries(1) [of m' x] by auto
  with addedD(1) [OF assms] view_entries(2) [of m' x] show "elem_at m' x = el" by simp
  show y: "(entries m' y = None) = (y \<noteq> x \<and> entries m y = None)"
    using addedD(2) [OF assms, of y] x view_entries(1) [of m y] view_entries(1) [of m' y] by metis
  show "elem_at m' y = elem_at m y" if "y \<noteq> x" "entries m y \<noteq> None"
    using addedD(2) [OF assms that(1)] that view_entries(2) [of m y] view_entries(2) [of m' y] y by simp
qed

section \<open>Where the searches lead\<close>

lemma sub_search_dir:
  assumes "kcmp_ok obj (kcmp_type tree) kcmp" and "entries m x \<noteq> None"
  shows "sub_cmp kcmp m tree el x =
    Some (if key_of obj (elem_at m x) = key_of obj el then Stop
          else if key_of obj (elem_at m x) < key_of obj el then GoLeft else GoRight)"
  using assms by (auto simp: sub_cmp_def kcmp_ok_def kcmp_dir_def key_of_def)

lemma gen_search_dir:
  assumes "entries m x \<noteq> None"
  shows "gen_cmp m el x =
    Some (if genid (elem_at m x) = genid el then Stop
          else if genid el < genid (elem_at m x) then GoLeft else GoRight)"
  using assms by (auto simp: gen_cmp_def)

lemma directed_desc:
  fixes f :: "u64 \<Rightarrow> 'a :: linorder"
  assumes "sorted_wrt (\<lambda>x y. f y < f x) xs"
  shows "directed (\<lambda>x. if f x = k then Stop else if f x < k then GoLeft else GoRight) xs"
  unfolding directed_def by (auto intro!: sorted_wrt_mono_rel [OF _ assms])

lemma directed_asc:
  fixes f :: "u64 \<Rightarrow> 'a :: linorder"
  assumes "sorted_wrt (\<lambda>x y. f x < f y) xs"
  shows "directed (\<lambda>x. if f x = k then Stop else if k < f x then GoLeft else GoRight) xs"
  unfolding directed_def by (auto intro!: sorted_wrt_mono_rel [OF _ assms])

section \<open>Generating an identifier\<close>

definition kid_post ::
  "(int \<Rightarrow> u32 \<Rightarrow> nat) \<Rightarrow> (kid_mem \<Rightarrow> u64 option) \<Rightarrow> kid_mem \<Rightarrow> kid_tree \<Rightarrow> kid_elem \<Rightarrow> kid_result \<Rightarrow> bool" where
  "kid_post obj xmalloc m tree el r =
     (\<exists>i new m' tree'. r = Some (i, new, m', tree') \<and> kid_inv obj m' tree' \<and> kcmp_type tree' = kcmp_type tree \<and>
       (((genid el, key_of obj el), i) \<in> kid_ids obj m \<and> \<not> new \<and> m' = m \<and> tree' = tree \<or>
        (genid el, key_of obj el) \<notin> fst ` kid_ids obj m \<and> xmalloc m = None \<and>
          i = 0 \<and> \<not> new \<and> m' = m \<and> tree' = tree \<or>
        (genid el, key_of obj el) \<notin> fst ` kid_ids obj m \<and> new \<and> i = ucast (kt_subid tree) \<and>
          kid_ids obj m' = insert ((genid el, key_of obj el), i) (kid_ids obj m) \<and>
          kt_subid tree' = kt_subid tree + 1))"

lemma sub_ok_frame:
  assumes "sub_ok obj m f xs" and a: "added x el sid m m'"
    and "\<And>y. y \<in> set xs \<Longrightarrow> sub_heap m' y = sub_heap m y" and "entries m' f = entries m f"
  shows "sub_ok obj m' f xs"
proof -
  obtain en where en: "entries m f = Some en" "rb_tree (sub_heap m) (subtree_root en) xs" "f \<in> set xs"
    "sorted_wrt (\<lambda>x y. key_of obj (elem_at m y) < key_of obj (elem_at m x)) xs"
    "\<forall>x \<in> set xs. entries m x \<noteq> None \<and> genid (elem_at m x) = genid (elem en)"
    using assms(1) by (auto simp: sub_ok_def)
  have same: "y \<noteq> x \<and> elem_at m' y = elem_at m y \<and> entries m' y \<noteq> None" if "y \<in> set xs" for y
    using elem_at_added(2,3) [OF a, of y] addedD(3) [OF a] en(5) that by metis
  have "sorted_wrt (\<lambda>x y. key_of obj (elem_at m' y) < key_of obj (elem_at m' x)) xs"
    by (rule sorted_wrt_mono_rel [OF _ en(4)]) (use same in simp)
  moreover have "rb_tree (sub_heap m') (subtree_root en) xs" using rb_tree_cong [OF en(2)] assms(3) by blast
  ultimately show ?thesis using en same assms(4) unfolding sub_ok_def by auto
qed

text \<open>The members of two subtrees have different \<^verbatim>\<open>genid\<close>.\<close>

lemma shape_member:
  assumes "kid_shape obj m tree gs ss" and "f \<in> set gs" and "x \<in> set (ss f)"
  shows "genid (elem_at m x) = genid (elem_at m f)" and "entries m x \<noteq> None"
  using assms by (auto simp: kid_shape_def sub_ok_def)

lemma shape_gen_inj:
  assumes "kid_shape obj m tree gs ss" and "f \<in> set gs" and "g \<in> set gs" and "genid (elem_at m f) = genid (elem_at m g)"
  shows "f = g"
proof (rule ccontr)
  assume "f \<noteq> g"
  then obtain i j where ij: "i < length gs" "j < length gs" "gs ! i = f" "gs ! j = g" "i \<noteq> j"
    using assms(2,3) by (metis in_set_conv_nth)
  have "sorted_wrt (\<lambda>x y. genid (elem_at m x) < genid (elem_at m y)) gs"
    using assms(1) by (simp add: kid_shape_def)
  then show False using ij assms(4) unfolding sorted_wrt_iff_nth_less
    by (metis linorder_neqE_nat less_irrefl)
qed

lemma shape_ids:
  assumes "kid_shape obj m tree gs ss"
  shows "(k \<in> fst ` kid_ids obj m) =
    (\<exists>f \<in> set gs. genid (elem_at m f) = fst k \<and> (\<exists>x \<in> set (ss f). key_of obj (elem_at m x) = snd k))"
proof -
  have "(k \<in> fst ` kid_ids obj m) = (\<exists>x \<in> dom (entries m). genid (elem_at m x) = fst k \<and> key_of obj (elem_at m x) = snd k)"
    by (cases k) (force simp: kid_ids_def image_iff)
  also have "\<dots> = (\<exists>f \<in> set gs. \<exists>x \<in> set (ss f). genid (elem_at m x) = fst k \<and> key_of obj (elem_at m x) = snd k)"
    using assms by (auto simp: kid_shape_def)
  also have "\<dots> = (\<exists>f \<in> set gs. genid (elem_at m f) = fst k \<and> (\<exists>x \<in> set (ss f). key_of obj (elem_at m x) = snd k))"
    using shape_member(1) [OF assms] by (auto; metis)
  finally show ?thesis .
qed

lemma shape_ids_at:
  assumes sh: "kid_shape obj m tree gs ss" and e: "e \<in> set gs" and g: "genid (elem_at m e) = k"
  shows "((k, v) \<in> fst ` kid_ids obj m) = (\<exists>x \<in> set (ss e). key_of obj (elem_at m x) = v)"
proof -
  have "(genid (elem_at m f) = k) = (f = e)" if "f \<in> set gs" for f
    using shape_gen_inj [OF sh that e] g by auto
  then show ?thesis using shape_ids [OF sh, of "(k, v)"] e by auto
qed

lemma kid_idsI: "entries m x = Some xn \<Longrightarrow> ((genid (elem xn), key_of obj (elem xn)), subid xn) \<in> kid_ids obj m"
  by (auto simp: kid_ids_def)

text \<open>A new member of the subtree of \<open>e\<close>.\<close>

lemma sorted_split:
  fixes f :: "u64 \<Rightarrow> 'a :: linorder"
  assumes "sorted_wrt (\<lambda>x y. f y < f x) xs" and "\<And>y. y \<in> set xs \<Longrightarrow> f' y = f y"
    and "f' x = k"
  shows "sorted_wrt (\<lambda>x y. f' y < f' x) (filter (\<lambda>y. k < f y) xs @ x # filter (\<lambda>y. f y < k) xs)"
proof -
  have "sorted_wrt (\<lambda>x y. f' y < f' x) xs"
    by (rule sorted_wrt_mono_rel [OF _ assms(1)]) (use assms(2) in simp)
  then show ?thesis using assms(2,3) by (auto simp: sorted_wrt_append intro: sorted_wrt_filter)
qed

lemma shape_add_sub:
  assumes sh: "kid_shape obj m tree gs ss" and e: "e \<in> set gs" "entries m e = Some en"
    and g: "genid (elem en) = genid el" and new: "\<And>y. y \<in> set (ss e) \<Longrightarrow> key_of obj (elem_at m y) \<noteq> key_of obj el"
    and a: "added x el sid m m'" and nh: "\<And>y. y \<noteq> x \<Longrightarrow> node_heap m' y = node_heap m y"
    and en': "entries m' e = Some (en\<lparr>subtree_root := r\<rparr>)"
    and oth: "\<And>f. f \<noteq> e \<Longrightarrow> f \<noteq> x \<Longrightarrow> entries m' f = entries m f"
    and t: "rb_tree (sub_heap m') r (filter (\<lambda>y. key_of obj el < key_of obj (elem_at m y)) (ss e) @ x #
      filter (\<lambda>y. key_of obj (elem_at m y) < key_of obj el) (ss e))" (is "rb_tree _ _ ?xs")
    and fr: "\<And>y. y \<notin> set (x # ss e) \<Longrightarrow> sub_heap m' y = sub_heap m y"
    and tr: "kt_root tree' = kt_root tree"
  shows "kid_shape obj m' tree' gs (ss(e := ?xs))"
proof -
  note same = elem_at_added(2,3) [OF a] and x = addedD(3) [OF a]
  have dom: "entries m y \<noteq> None \<and> y \<noteq> x" if "f \<in> set gs" "y \<in> set (ss f)" for f y
    using shape_member(2) [OF sh that] x by auto
  have self: "f \<in> set (ss f)" if "f \<in> set gs" for f using sh that by (auto simp: kid_shape_def sub_ok_def)
  have gs: "entries m f \<noteq> None \<and> f \<noteq> x" if "f \<in> set gs" for f using dom self that by blast
  have xs: "set ?xs = insert x (set (ss e))" using new by (auto simp: neq_iff)
  have "rb_tree (node_heap m') (kt_root tree') gs"
    using rb_tree_cong [of "node_heap m" "kt_root tree" gs "node_heap m'"] sh nh gs tr by (auto simp: kid_shape_def)
  moreover have "sorted_wrt (\<lambda>x y. genid (elem_at m' x) < genid (elem_at m' y)) gs"
    by (rule sorted_wrt_mono_rel [of gs "\<lambda>x y. genid (elem_at m x) < genid (elem_at m y)"])
      (use sh gs same(1) in \<open>auto simp: kid_shape_def\<close>)
  moreover have "sub_ok obj m' e ?xs"
  proof -
    have "sorted_wrt (\<lambda>x y. key_of obj (elem_at m' y) < key_of obj (elem_at m' x)) ?xs"
      by (rule sorted_split [of "\<lambda>y. key_of obj (elem_at m y)"])
        (use sh e dom same elem_at_added(1) [OF a] in \<open>auto simp: kid_shape_def sub_ok_def\<close>)
    moreover have "entries m' y \<noteq> None \<and> genid (elem_at m' y) = genid (elem en)" if "y \<in> set ?xs" for y
      using that xs same [of y] dom [OF e(1), of y] shape_member(1) [OF sh e(1), of y] e g elem_at_added(1) [OF a]
      by (cases "y = x") auto
    ultimately show ?thesis using t en' self [OF e(1)] xs unfolding sub_ok_def by auto
  qed
  moreover have "sub_ok obj m' f (ss f)" if f: "f \<in> set gs" "f \<noteq> e" for f
  proof (rule sub_ok_frame [OF _ a])
    show "sub_ok obj m f (ss f)" using sh f by (simp add: kid_shape_def)
    show "entries m' f = entries m f" using oth f gs by blast
    fix y assume y: "y \<in> set (ss f)"
    have "y \<notin> set (ss e)" using shape_member(1) [OF sh f(1) y] shape_member(1) [OF sh e(1)] shape_gen_inj [OF sh f(1) e(1)] f by metis
    then show "sub_heap m' y = sub_heap m y" using fr dom [OF f(1) y] by simp
  qed
  moreover have "dom (entries m') = insert x (dom (entries m))"
    using same(2) by (auto simp: dom_def simp del: not_None_eq)
  moreover define ys where "ys = ?xs"
  moreover have "(\<Union>f \<in> set gs. set ((ss(e := ys)) f)) = insert x (\<Union>f \<in> set gs. set (ss f))"
    using e(1) xs unfolding ys_def [symmetric] by (auto simp: fun_upd_apply split: if_splits)
  ultimately show ?thesis using sh unfolding ys_def [symmetric] by (auto simp: kid_shape_def fun_upd_apply)
qed

text \<open>A new entry of the main tree, alone in its subtree.\<close>

lemma shape_add_gen:
  assumes sh: "kid_shape obj m tree gs ss"
    and new: "\<And>f. f \<in> set gs \<Longrightarrow> genid (elem_at m f) \<noteq> genid el"
    and a: "added x el sid m m'" and en': "entries m' x = Some en'" "subtree_root en' = x"
    and oth: "\<And>f. f \<noteq> x \<Longrightarrow> entries m' f = entries m f"
    and t: "rb_tree (node_heap m') (kt_root tree') (filter (\<lambda>y. genid (elem_at m y) < genid el) gs @ x #
      filter (\<lambda>y. genid el < genid (elem_at m y)) gs)" (is "rb_tree _ _ ?gs")
    and single: "rb_tree (sub_heap m') x [x]"
    and fr: "\<And>y. y \<noteq> x \<Longrightarrow> sub_heap m' y = sub_heap m y"
  shows "kid_shape obj m' tree' ?gs (ss(x := [x]))"
proof -
  note same = elem_at_added(2,3) [OF a] and x = addedD(3) [OF a]
  have dom: "entries m y \<noteq> None \<and> y \<noteq> x" if "f \<in> set gs" "y \<in> set (ss f)" for f y
    using shape_member(2) [OF sh that] x by auto
  have gs: "entries m f \<noteq> None \<and> f \<noteq> x" if "f \<in> set gs" for f
    using sh dom that by (auto simp: kid_shape_def sub_ok_def)
  have xs: "set ?gs = insert x (set gs)" using new by (auto simp: neq_iff)
  have "elem en' = el" using elem_at_added(1) [OF a] en' by simp
  then have "sub_ok obj m' x [x]" using single en' by (auto simp: sub_ok_def)
  moreover have "sub_ok obj m' f (ss f)" if f: "f \<in> set gs" for f
    by (rule sub_ok_frame [OF _ a]) (use sh f fr dom [OF f] oth gs in \<open>auto simp: kid_shape_def\<close>)
  moreover have "sorted_wrt (\<lambda>x y. genid (elem_at m' x) < genid (elem_at m' y)) ?gs"
  proof -
    have "sorted_wrt (\<lambda>x y. genid (elem_at m' x) < genid (elem_at m' y)) gs"
      by (rule sorted_wrt_mono_rel [of gs "\<lambda>x y. genid (elem_at m x) < genid (elem_at m y)"])
        (use sh gs same(1) in \<open>auto simp: kid_shape_def\<close>)
    then show ?thesis using gs same(1) elem_at_added(1) [OF a]
      by (auto simp: sorted_wrt_append intro: sorted_wrt_filter)
  qed
  moreover have "dom (entries m') = insert x (dom (entries m))"
    using same(2) by (auto simp: dom_def simp del: not_None_eq)
  ultimately show ?thesis using sh xs t gs by (auto simp: kid_shape_def)
qed

lemma kid_generate_sub_ok:
  assumes sh: "kid_shape obj m tree gs ss" and si: "subids_ok m tree" and e: "e \<in> set gs"
    and g: "genid (elem_at m e) = genid el" and kc: "kcmp_ok obj (kcmp_type tree) kcmp"
    and xm: "xmalloc_ok xmalloc" and lim: "unat (kt_subid tree) < 2 ^ 32"
  shows "kid_post obj xmalloc m tree el (kid_generate_sub kcmp xmalloc m tree e el)"
proof -
  let ?f = "\<lambda>x. key_of obj (elem_at m x)" and ?k = "key_of obj el"
  let ?d = "\<lambda>x. if ?f x = ?k then Stop else if ?f x < ?k then GoLeft else GoRight"
  let ?s = "ucast (kt_subid tree) :: u32"
  obtain en where en: "entries m e = Some en" and t: "rb_tree (sub_heap m) (subtree_root en) (ss e)"
    and es: "e \<in> set (ss e)" and so: "sorted_wrt (\<lambda>x y. ?f y < ?f x) (ss e)"
    and mem: "\<And>x. x \<in> set (ss e) \<Longrightarrow> entries m x \<noteq> None \<and> genid (elem_at m x) = genid (elem en)"
    using sh e by (auto simp: kid_shape_def sub_ok_def)
  have inv: "kid_inv obj m tree" using sh si by (auto simp: kid_inv_def)
  have root: "subtree_root en \<noteq> 0" using t es rb_tree_null by force
  have ids: "((genid el, ?k) \<in> fst ` kid_ids obj m) = (\<exists>x \<in> set (ss e). ?f x = ?k)"
    using shape_ids_at [OF sh e g] by simp
  have search: "(\<exists>x \<in> set (ss e). ?d x = Stop \<and>
        rb_search (sub_cmp kcmp m tree el) (sub_heap m) (subtree_root en) (subtree_root en) LinkRoot 0 = Some (Found x)) \<or>
     (\<forall>x \<in> set (ss e). ?d x \<noteq> Stop) \<and>
       (\<exists>p link. rb_search (sub_cmp kcmp m tree el) (sub_heap m) (subtree_root en) (subtree_root en) LinkRoot 0 = Some (Missing p link) \<and>
         rb_slot (sub_heap m) (subtree_root en) (filter (\<lambda>x. ?d x = GoRight) (ss e)) (filter (\<lambda>x. ?d x = GoLeft) (ss e)) p link)"
    by (rule rb_search_tree [OF t _ directed_desc [OF so]]) (use mem sub_search_dir [OF kc] in blast)
  have stop: "(?d x = Stop) = (?f x = ?k)" for x by simp
  show ?thesis
  proof (cases "\<exists>x \<in> set (ss e). ?f x = ?k")
    case True
    then obtain x where x: "x \<in> set (ss e)" "?f x = ?k"
        "rb_search (sub_cmp kcmp m tree el) (sub_heap m) (subtree_root en) (subtree_root en) LinkRoot 0 = Some (Found x)"
      using search stop by blast
    obtain xn where xn: "entries m x = Some xn" using mem [OF x(1)] by auto
    then have "((genid el, ?k), subid xn) \<in> kid_ids obj m"
      using mem [OF x(1)] x(2) en g kid_idsI [OF xn, of obj] by simp
    with en root x xn inv show ?thesis by (auto simp: kid_post_def kid_generate_sub_def)
  next
    case False
    then obtain p link where sr:
        "rb_search (sub_cmp kcmp m tree el) (sub_heap m) (subtree_root en) (subtree_root en) LinkRoot 0 = Some (Missing p link)"
      and slot: "rb_slot (sub_heap m) (subtree_root en) (filter (\<lambda>x. ?d x = GoRight) (ss e)) (filter (\<lambda>x. ?d x = GoLeft) (ss e)) p link"
      using search stop by blast
    show ?thesis
    proof (cases "xmalloc m")
      case None
      with en root sr inv ids False show ?thesis
        by (auto simp: kid_post_def kid_generate_sub_def alloc_kid_entry_def)
    next
      case (Some x)
      have x: "x \<noteq> 0" "aligned x" "entries m x = None" using xm Some by (auto simp: xmalloc_ok_def)
      let ?xs = "filter (\<lambda>y. ?k < ?f y) (ss e)" and ?ys = "filter (\<lambda>y. ?f y < ?k) (ss e)"
      let ?tree = "tree\<lparr>kt_subid := kt_subid tree + 1\<rparr>"
      obtain m1 where al: "alloc_kid_entry xmalloc m tree el = Some (Some x, m1, ?tree)"
        and e1: "entries m1 = (entries m)(x \<mapsto> \<lparr>subtree_root = x, subid = ?s, elem = el\<rparr>)"
        and h1: "sub_heap m1 x \<noteq> None" "\<And>y. y \<noteq> x \<Longrightarrow> sub_heap m1 y = sub_heap m y \<and> node_heap m1 y = node_heap m y"
        using alloc_ok [OF Some xm _ lim, of el] si unfolding subids_ok_def by blast
      have out: "x \<notin> set (ss e)" using mem x(3) by blast
      have "filter (\<lambda>x. ?d x = GoRight) (ss e) = ?xs" "filter (\<lambda>x. ?d x = GoLeft) (ss e) = ?ys"
        by (auto intro!: filter_cong)
      with slot have "rb_slot (sub_heap m) (subtree_root en) ?xs ?ys p link" by simp
      then have "rb_slot (sub_heap m1) (subtree_root en) ?xs ?ys p link"
        using h1(2) out by (elim rb_slot_cong) (auto simp del: not_None_eq; metis)
      then obtain sh r where l: "rb_link_and_balance (subtree_root en) x p link (sub_heap m1) = Some (sh, r)"
        and t': "rb_tree sh r (?xs @ x # ?ys)" and fr: "\<And>y. y \<notin> set (x # ?xs @ ?ys) \<Longrightarrow> sh y = sub_heap m1 y"
        using rb_link_slot [of "sub_heap m1" "subtree_root en" ?xs ?ys p link x] h1 x out by auto
      let ?m = "m1\<lparr>sub_heap := sh, entries := (entries m1)(e \<mapsto> en\<lparr>subtree_root := r\<rparr>)\<rparr>"
      have ex: "e \<noteq> x" using en x by auto
      have a: "added x el ?s m ?m" using x e1 en ex by (auto simp: added_def view_def fun_eq_iff fun_upd_apply)
      have "kid_shape obj ?m ?tree gs (ss(e := ?xs @ x # ?ys))"
      proof (rule shape_add_sub [OF \<open>kid_shape obj m tree gs ss\<close> e en _ _ a])
        show "sub_heap ?m y = sub_heap m y" if "y \<notin> set (x # ss e)" for y
          using fr [of y] h1(2) [of y] that by auto
      qed (use en g False e1 h1 t' ex in \<open>auto simp: fun_upd_apply\<close>)
      then have "kid_inv obj ?m ?tree" using subids_ok_added [OF si a lim] by (auto simp: kid_inv_def)
      moreover have "kid_generate_sub kcmp xmalloc m tree e el = Some (?s, True, ?m, ?tree)"
        using en root sr al l e1 ex by (simp add: kid_generate_sub_def)
      ultimately show ?thesis
        using kid_ids_added [OF a, of obj] ids False unfolding kid_post_def by auto
    qed
  qed
qed

lemma kid_generate_gen_ok:
  assumes sh: "kid_shape obj m tree gs ss" and si: "subids_ok m tree"
    and kc: "kcmp_ok obj (kcmp_type tree) kcmp"
    and xm: "xmalloc_ok xmalloc" and lim: "unat (kt_subid tree) < 2 ^ 32"
  shows "kid_post obj xmalloc m tree el (kid_generate_gen kcmp xmalloc m tree el)"
proof -
  let ?f = "\<lambda>x. genid (elem_at m x)" and ?k = "genid el"
  let ?d = "\<lambda>x. if ?f x = ?k then Stop else if ?k < ?f x then GoLeft else GoRight"
  let ?s = "ucast (kt_subid tree) :: u32"
  have t: "rb_tree (node_heap m) (kt_root tree) gs" and so: "sorted_wrt (\<lambda>x y. ?f x < ?f y) gs"
    and mem: "\<And>x. x \<in> set gs \<Longrightarrow> entries m x \<noteq> None"
    using sh by (auto simp: kid_shape_def sub_ok_def)
  have inv: "kid_inv obj m tree" using sh si by (auto simp: kid_inv_def)
  have search: "(\<exists>x \<in> set gs. ?d x = Stop \<and>
        rb_search (gen_cmp m el) (node_heap m) (kt_root tree) (kt_root tree) LinkRoot 0 = Some (Found x)) \<or>
     (\<forall>x \<in> set gs. ?d x \<noteq> Stop) \<and>
       (\<exists>p link. rb_search (gen_cmp m el) (node_heap m) (kt_root tree) (kt_root tree) LinkRoot 0 = Some (Missing p link) \<and>
         rb_slot (node_heap m) (kt_root tree) (filter (\<lambda>x. ?d x = GoRight) gs) (filter (\<lambda>x. ?d x = GoLeft) gs) p link)"
    by (rule rb_search_tree [OF t _ directed_asc [OF so]]) (use mem gen_search_dir in blast)
  have stop: "(?d x = Stop) = (?f x = ?k)" for x by simp
  show ?thesis
  proof (cases "\<exists>x \<in> set gs. ?f x = ?k")
    case True
    then obtain x where "x \<in> set gs" "?f x = ?k"
        "rb_search (gen_cmp m el) (node_heap m) (kt_root tree) (kt_root tree) LinkRoot 0 = Some (Found x)"
      using search stop by blast
    then show ?thesis using kid_generate_sub_ok [OF sh si _ _ kc xm lim] by (simp add: kid_generate_gen_def)
  next
    case False
    then obtain p link where sr:
        "rb_search (gen_cmp m el) (node_heap m) (kt_root tree) (kt_root tree) LinkRoot 0 = Some (Missing p link)"
      and slot: "rb_slot (node_heap m) (kt_root tree) (filter (\<lambda>x. ?d x = GoRight) gs) (filter (\<lambda>x. ?d x = GoLeft) gs) p link"
      using search stop by blast
    have ids: "(genid el, key_of obj el) \<notin> fst ` kid_ids obj m"
      using shape_ids [OF sh, of "(genid el, key_of obj el)"] False by auto
    show ?thesis
    proof (cases "xmalloc m")
      case None
      with sr inv ids show ?thesis by (auto simp: kid_post_def kid_generate_gen_def alloc_kid_entry_def)
    next
      case (Some x)
      have x: "x \<noteq> 0" "aligned x" "entries m x = None" using xm Some by (auto simp: xmalloc_ok_def)
      let ?xs = "filter (\<lambda>y. ?f y < ?k) gs" and ?ys = "filter (\<lambda>y. ?k < ?f y) gs"
      let ?tree = "tree\<lparr>kt_subid := kt_subid tree + 1\<rparr>"
      obtain m1 where al: "alloc_kid_entry xmalloc m tree el = Some (Some x, m1, ?tree)"
        and e1: "entries m1 = (entries m)(x \<mapsto> \<lparr>subtree_root = x, subid = ?s, elem = el\<rparr>)"
        and h1: "node_heap m1 x \<noteq> None" "\<And>y. y \<noteq> x \<Longrightarrow> sub_heap m1 y = sub_heap m y \<and> node_heap m1 y = node_heap m y"
        and single: "rb_tree (sub_heap m1) x [x]"
        using alloc_ok [OF Some xm _ lim, of el] si unfolding subids_ok_def by blast
      have out: "x \<notin> set gs" using mem x(3) by blast
      have "filter (\<lambda>x. ?d x = GoRight) gs = ?xs" "filter (\<lambda>x. ?d x = GoLeft) gs = ?ys"
        by (auto intro!: filter_cong)
      with slot have "rb_slot (node_heap m) (kt_root tree) ?xs ?ys p link" by simp
      then have "rb_slot (node_heap m1) (kt_root tree) ?xs ?ys p link"
        using h1(2) out by (elim rb_slot_cong) (auto simp del: not_None_eq; metis)
      then obtain nh r where l: "rb_link_and_balance (kt_root tree) x p link (node_heap m1) = Some (nh, r)"
        and t': "rb_tree nh r (?xs @ x # ?ys)"
        using rb_link_slot [of "node_heap m1" "kt_root tree" ?xs ?ys p link x] h1 x out by auto
      let ?m = "m1\<lparr>node_heap := nh\<rparr>" and ?t = "?tree\<lparr>kt_root := r\<rparr>"
      have a: "added x el ?s m ?m" using x e1 by (auto simp: added_def view_def fun_eq_iff fun_upd_apply)
      have "kid_shape obj ?m ?t (?xs @ x # ?ys) (ss(x := [x]))"
        by (rule shape_add_gen [OF sh _ a]) (use False e1 h1 t' single in auto)
      then have "kid_inv obj ?m ?t" using subids_ok_added [OF si a lim, of ?t] by (auto simp: kid_inv_def)
      moreover have "kid_generate_gen kcmp xmalloc m tree el = Some (?s, True, ?m, ?t)"
        using sr al l e1 by (simp add: kid_generate_gen_def)
      ultimately show ?thesis
        using kid_ids_added [OF a, of obj] ids unfolding kid_post_def by auto
    qed
  qed
qed

section \<open>Identifiers and objects\<close>

lemma sorted_key_inj:
  fixes f :: "u64 \<Rightarrow> 'a :: linorder"
  assumes "sorted_wrt (\<lambda>x y. f y < f x) xs" and "x \<in> set xs" and "y \<in> set xs" and "f x = f y"
  shows "x = y"
proof (rule ccontr)
  assume "x \<noteq> y"
  then obtain i j where ij: "i < length xs" "j < length xs" "xs ! i = x" "xs ! j = y" "i \<noteq> j"
    using assms(2,3) by (metis in_set_conv_nth)
  then show False using assms(1,4) unfolding sorted_wrt_iff_nth_less
    by (metis linorder_neqE_nat less_irrefl)
qed

lemma kid_ids_inj:
  assumes "kid_inv obj m tree" and "(k, i) \<in> kid_ids obj m" and "(l, j) \<in> kid_ids obj m"
  shows "(i = j) = (k = l)"
proof -
  obtain gs ss where sh: "kid_shape obj m tree gs ss" and si: "subids_ok m tree"
    using assms(1) by (auto simp: kid_inv_def)
  obtain x y xn yn where x: "entries m x = Some xn" "k = (genid (elem xn), key_of obj (elem xn))" "i = subid xn"
    and y: "entries m y = Some yn" "l = (genid (elem yn), key_of obj (elem yn))" "j = subid yn"
    using assms(2,3) by (auto simp: kid_ids_def)
  have "x \<in> (\<Union>f \<in> set gs. set (ss f))" "y \<in> (\<Union>f \<in> set gs. set (ss f))"
    using sh x y by (auto simp: kid_shape_def)
  then obtain f g where f: "f \<in> set gs" "x \<in> set (ss f)" and g: "g \<in> set gs" "y \<in> set (ss g)" by auto
  have "x = y" if "k = l"
  proof -
    have el: "genid (elem_at m x) = genid (elem_at m y)" "key_of obj (elem_at m x) = key_of obj (elem_at m y)"
      using x y that by simp_all
    then have "f = g" using shape_gen_inj [OF sh f(1) g(1)] shape_member(1) [OF sh f] shape_member(1) [OF sh g] by metis
    moreover have "sorted_wrt (\<lambda>x y. key_of obj (elem_at m y) < key_of obj (elem_at m x)) (ss f)"
      using sh f by (auto simp: kid_shape_def sub_ok_def)
    ultimately show ?thesis
      using sorted_key_inj [of "\<lambda>x. key_of obj (elem_at m x)" "ss f" x y] f(2) g(2) el(2) by blast
  qed
  moreover have "x = y" if "i = j" using si x(1,3) y(1,3) that unfolding subids_ok_def by metis
  moreover have "i = j \<and> k = l" if "x = y" using x y that by simp
  ultimately show ?thesis by blast
qed

lemma kid_ids_nz: "kid_inv obj m tree \<Longrightarrow> (k, i) \<in> kid_ids obj m \<Longrightarrow> i \<noteq> 0"
  by (auto simp: kid_inv_def subids_ok_def kid_ids_def)

definition empty_mem :: kid_mem where
  "empty_mem = \<lparr>node_heap = Map.empty, sub_heap = Map.empty, entries = Map.empty\<rparr>"

lemma kid_inv_init: "kid_inv obj empty_mem (DECLARE_KCMP_TREE type)"
proof -
  have "rb_tree Map.empty 0 []" unfolding rb_tree_def by (rule exI [of _ Leaf]) (simp add: rep_def)
  then show ?thesis
    by (auto simp: kid_inv_def kid_shape_def DECLARE_KCMP_TREE_def empty_mem_def subids_ok_def intro!: exI [of _ "[]"])
qed



section \<open>Properties\<close>

text \<open>C3: on trees that satisfy the invariant, \<^verbatim>\<open>kid_generate_gen\<close> never aborts, terminates and keeps the
  invariant.  If the object is known under its \<^verbatim>\<open>genid\<close>, it returns the identifier of that object and
  changes nothing.  Otherwise it returns 0 and changes nothing when memory runs out, or it returns a
  fresh identifier, sets \<^verbatim>\<open>new_id\<close>, and adds exactly this object to the known ones.\<close>

theorem kid_generate_gen_correct:
  assumes "kid_inv obj m tree" and "kcmp_ok obj (kcmp_type tree) kcmp" and "xmalloc_ok xmalloc"
    and "unat (kt_subid tree) < 2 ^ 32"
  shows "\<exists>i new m' tree'. kid_generate_gen kcmp xmalloc m tree el = Some (i, new, m', tree') \<and>
    kid_inv obj m' tree' \<and>
    (let k = (genid el, key_of obj el) in
       (k, i) \<in> kid_ids obj m \<and> \<not> new \<and> m' = m \<and> tree' = tree \<or>
       k \<notin> fst ` kid_ids obj m \<and> xmalloc m = None \<and> i = 0 \<and> \<not> new \<and> m' = m \<and> tree' = tree \<or>
       k \<notin> fst ` kid_ids obj m \<and> new \<and> i \<noteq> 0 \<and> i \<notin> snd ` kid_ids obj m \<and>
         kid_ids obj m' = insert (k, i) (kid_ids obj m))"
proof -
  obtain gs ss where sh: "kid_shape obj m tree gs ss" and si: "subids_ok m tree"
    using assms(1) by (auto simp: kid_inv_def)
  obtain i new m' tree' where g: "kid_generate_gen kcmp xmalloc m tree el = Some (i, new, m', tree')"
    and inv: "kid_inv obj m' tree'"
    and c: "((genid el, key_of obj el), i) \<in> kid_ids obj m \<and> \<not> new \<and> m' = m \<and> tree' = tree \<or>
        (genid el, key_of obj el) \<notin> fst ` kid_ids obj m \<and> xmalloc m = None \<and>
          i = 0 \<and> \<not> new \<and> m' = m \<and> tree' = tree \<or>
        (genid el, key_of obj el) \<notin> fst ` kid_ids obj m \<and> new \<and>
          kid_ids obj m' = insert ((genid el, key_of obj el), i) (kid_ids obj m)"
    using kid_generate_gen_ok [OF sh si assms(2-4), of el] unfolding kid_post_def by blast
  let ?k = "(genid el, key_of obj el)"
  have "i \<noteq> 0 \<and> i \<notin> snd ` kid_ids obj m"
    if new: "?k \<notin> fst ` kid_ids obj m" and ids: "kid_ids obj m' = insert (?k, i) (kid_ids obj m)"
  proof -
    have ki: "(?k, i) \<in> kid_ids obj m'" using ids by simp
    moreover have "l \<noteq> ?k" if "(l, j) \<in> kid_ids obj m" for l j using new that by (metis fst_conv image_eqI)
    ultimately show ?thesis using kid_ids_nz [OF inv ki] kid_ids_inj [OF inv ki] ids by fastforce
  qed
  then show ?thesis using g inv c unfolding Let_def by (intro exI conjI) (assumption | rule g inv | blast)+
qed

definition demo_xmalloc :: "kid_mem \<Rightarrow> u64 option" where
  "demo_xmalloc m = (if entries m 8 = None then Some 8 else if entries m 16 = None then Some 16 else None)"

definition demo_obj :: "int \<Rightarrow> u32 \<Rightarrow> nat" where
  "demo_obj p i = (if p = 1 then 5 else 7)"

definition demo_kcmp :: kcmp_call where
  "demo_kcmp p q type i j =
     (if demo_obj p i = demo_obj q j then 0 else if demo_obj p i < demo_obj q j then 1 else 2)"

lemma demo_kid_ok: "kcmp_ok demo_obj t demo_kcmp" "xmalloc_ok demo_xmalloc"
  by (simp add: kcmp_ok_def demo_kcmp_def) (auto simp: xmalloc_ok_def demo_xmalloc_def aligned_def split: if_splits)

theorem kid_generate_gen_correct_witness:
  "\<exists>i m' tree'. kid_generate_gen demo_kcmp demo_xmalloc empty_mem (DECLARE_KCMP_TREE 0)
     \<lparr>ke_pid = 1, genid = 3, idx = 4\<rparr> = Some (i, True, m', tree') \<and>
     i \<noteq> 0 \<and> kid_ids demo_obj m' = {((3, 5), i)}"
proof -
  have "kid_ids demo_obj empty_mem = {}" "demo_xmalloc empty_mem \<noteq> None"
    by (simp_all add: kid_ids_def empty_mem_def demo_xmalloc_def)
  then show ?thesis
    using kid_generate_gen_correct [OF kid_inv_init [of demo_obj 0] demo_kid_ok, of "\<lparr>ke_pid = 1, genid = 3, idx = 4\<rparr>"]
    by (auto simp: Let_def DECLARE_KCMP_TREE_def key_of_def demo_obj_def)
qed



text \<open>What \<^verbatim>\<open>kcmp(2)\<close> documents for \<^verbatim>\<open>KCMP_EPOLL_TFD\<close>: \<open>target q slot\<close> is the object that the slot
  of the task \<open>q\<close> watches, in the same order.\<close>

definition tfd_ok :: "(int \<Rightarrow> u32 \<Rightarrow> nat) \<Rightarrow> (int \<Rightarrow> 's \<Rightarrow> nat) \<Rightarrow> (int \<Rightarrow> int \<Rightarrow> u32 \<Rightarrow> 's \<Rightarrow> int) \<Rightarrow> bool" where
  "tfd_ok obj target kcmp_tfd =
     (\<forall>p q i s. kcmp_tfd p q i s =
        (if obj p i = target q s then 0 else if obj p i < target q s then 1 else 2))"

lemma tfd_search_dir:
  assumes "tfd_ok obj target kcmp_tfd" and "entries m x \<noteq> None"
  shows "tfd_cmp kcmp_tfd m el slot x =
    Some (if key_of obj (elem_at m x) = target (ke_pid el) slot then Stop
          else if key_of obj (elem_at m x) < target (ke_pid el) slot then GoLeft else GoRight)"
  using assms by (auto simp: tfd_cmp_def tfd_ok_def kcmp_dir_def key_of_def)

lemma kid_lookup_sub_ok:
  assumes sub: "sub_ok obj m e xs" and tfd: "tfd_ok obj target kcmp_tfd"
  shows "\<exists>r. kid_lookup_epoll_tfd_sub kcmp_tfd m e el slot = Some r \<and>
    (case r of
       Some el' \<Rightarrow> \<exists>x \<in> set xs. el' = elem_at m x \<and> key_of obj el' = target (ke_pid el) slot
     | None \<Rightarrow> \<forall>x \<in> set xs. key_of obj (elem_at m x) \<noteq> target (ke_pid el) slot)"
proof -
  let ?f = "\<lambda>x. key_of obj (elem_at m x)" and ?k = "target (ke_pid el) slot"
  let ?d = "\<lambda>x. if ?f x = ?k then Stop else if ?f x < ?k then GoLeft else GoRight"
  obtain en where en: "entries m e = Some en" and t: "rb_tree (sub_heap m) (subtree_root en) xs" and es: "e \<in> set xs"
    and so: "sorted_wrt (\<lambda>x y. ?f y < ?f x) xs" and mem: "\<And>x. x \<in> set xs \<Longrightarrow> entries m x \<noteq> None"
    using sub by (auto simp: sub_ok_def)
  have root: "subtree_root en \<noteq> 0" using t es rb_tree_null by force
  have "(\<exists>x \<in> set xs. ?d x = Stop \<and>
        rb_search (tfd_cmp kcmp_tfd m el slot) (sub_heap m) (subtree_root en) (subtree_root en) LinkRoot 0 = Some (Found x)) \<or>
     (\<forall>x \<in> set xs. ?d x \<noteq> Stop) \<and>
       (\<exists>p link. rb_search (tfd_cmp kcmp_tfd m el slot) (sub_heap m) (subtree_root en) (subtree_root en) LinkRoot 0 = Some (Missing p link) \<and>
         rb_slot (sub_heap m) (subtree_root en) (filter (\<lambda>x. ?d x = GoRight) xs) (filter (\<lambda>x. ?d x = GoLeft) xs) p link)"
    by (rule rb_search_tree [OF t _ directed_desc [OF so]]) (use mem tfd_search_dir [OF tfd] in blast)
  then show ?thesis
  proof
    assume "\<exists>x \<in> set xs. ?d x = Stop \<and>
        rb_search (tfd_cmp kcmp_tfd m el slot) (sub_heap m) (subtree_root en) (subtree_root en) LinkRoot 0 = Some (Found x)"
    then obtain x where x: "x \<in> set xs" "?d x = Stop"
      and sr: "rb_search (tfd_cmp kcmp_tfd m el slot) (sub_heap m) (subtree_root en) (subtree_root en) LinkRoot 0 = Some (Found x)"
      by blast
    obtain xn where "entries m x = Some xn" using mem [OF x(1)] by auto
    with en root sr x show ?thesis
      by (auto simp: kid_lookup_epoll_tfd_sub_def split: if_splits intro!: bexI [of _ x])
  next
    assume "(\<forall>x \<in> set xs. ?d x \<noteq> Stop) \<and>
       (\<exists>p link. rb_search (tfd_cmp kcmp_tfd m el slot) (sub_heap m) (subtree_root en) (subtree_root en) LinkRoot 0 = Some (Missing p link) \<and>
         rb_slot (sub_heap m) (subtree_root en) (filter (\<lambda>x. ?d x = GoRight) xs) (filter (\<lambda>x. ?d x = GoLeft) xs) p link)"
    then obtain p link where ns: "\<forall>x \<in> set xs. ?d x \<noteq> Stop"
      and sr: "rb_search (tfd_cmp kcmp_tfd m el slot) (sub_heap m) (subtree_root en) (subtree_root en) LinkRoot 0 = Some (Missing p link)"
      by blast
    have "\<forall>x \<in> set xs. ?f x \<noteq> ?k" using ns by metis
    with sr en root show ?thesis by (simp add: kid_lookup_epoll_tfd_sub_def)
  qed
qed

text \<open>\<^verbatim>\<open>kid_lookup_epoll_tfd\<close> terminates without a bad access; it returns the element of a known file
  with the given \<^verbatim>\<open>genid\<close> that is the one the epoll slot watches, and null only if no such file is known.\<close>

theorem kid_lookup_epoll_tfd_correct:
  assumes "kid_inv obj m tree" and "tfd_ok obj target kcmp_tfd"
  shows "\<exists>r. kid_lookup_epoll_tfd kcmp_tfd m tree el slot = Some r \<and>
    (case r of
       Some el' \<Rightarrow> genid el' = genid el \<and> key_of obj el' = target (ke_pid el) slot \<and>
         (genid el', key_of obj el') \<in> fst ` kid_ids obj m
     | None \<Rightarrow> (genid el, target (ke_pid el) slot) \<notin> fst ` kid_ids obj m)"
proof -
  let ?f = "\<lambda>x. genid (elem_at m x)" and ?k = "genid el"
  let ?d = "\<lambda>x. if ?f x = ?k then Stop else if ?k < ?f x then GoLeft else GoRight"
  obtain gs ss where sh: "kid_shape obj m tree gs ss" using assms(1) by (auto simp: kid_inv_def)
  have t: "rb_tree (node_heap m) (kt_root tree) gs" and so: "sorted_wrt (\<lambda>x y. ?f x < ?f y) gs"
    and mem: "\<And>x. x \<in> set gs \<Longrightarrow> entries m x \<noteq> None"
    using sh by (auto simp: kid_shape_def sub_ok_def)
  have search: "(\<exists>x \<in> set gs. ?d x = Stop \<and>
        rb_search (gen_cmp m el) (node_heap m) (kt_root tree) (kt_root tree) LinkRoot 0 = Some (Found x)) \<or>
     (\<forall>x \<in> set gs. ?d x \<noteq> Stop) \<and>
       (\<exists>p link. rb_search (gen_cmp m el) (node_heap m) (kt_root tree) (kt_root tree) LinkRoot 0 = Some (Missing p link) \<and>
         rb_slot (node_heap m) (kt_root tree) (filter (\<lambda>x. ?d x = GoRight) gs) (filter (\<lambda>x. ?d x = GoLeft) gs) p link)"
    by (rule rb_search_tree [OF t _ directed_asc [OF so]]) (use mem gen_search_dir in blast)
  have stop: "(?d x = Stop) = (?f x = ?k)" for x by simp
  show ?thesis
  proof (cases "\<exists>x \<in> set gs. ?f x = ?k")
    case True
    then obtain e where e: "e \<in> set gs" "?f e = ?k"
      and sr: "rb_search (gen_cmp m el) (node_heap m) (kt_root tree) (kt_root tree) LinkRoot 0 = Some (Found e)"
      using search stop by blast
    obtain r where r: "kid_lookup_epoll_tfd_sub kcmp_tfd m e el slot = Some r"
      "case r of Some el' \<Rightarrow> \<exists>x \<in> set (ss e). el' = elem_at m x \<and> key_of obj el' = target (ke_pid el) slot
       | None \<Rightarrow> \<forall>x \<in> set (ss e). key_of obj (elem_at m x) \<noteq> target (ke_pid el) slot"
      using kid_lookup_sub_ok [OF _ assms(2), of m e "ss e" el slot] sh e unfolding kid_shape_def by blast
    have ids: "((?k, v) \<in> fst ` kid_ids obj m) = (\<exists>x \<in> set (ss e). key_of obj (elem_at m x) = v)" for v
      using shape_ids_at [OF sh e] by simp
    show ?thesis
    proof (cases r)
      case None
      with r sr ids show ?thesis by (auto simp: kid_lookup_epoll_tfd_def)
    next
      case (Some el')
      with r obtain x where x: "x \<in> set (ss e)" "el' = elem_at m x" "key_of obj el' = target (ke_pid el) slot" by auto
      have "genid el' = ?k" using shape_member(1) [OF sh e(1) x(1)] e x by simp
      with Some r(1) sr x ids show ?thesis by (auto simp: kid_lookup_epoll_tfd_def)
    qed
  next
    case False
    then obtain p link where
      "rb_search (gen_cmp m el) (node_heap m) (kt_root tree) (kt_root tree) LinkRoot 0 = Some (Missing p link)"
      using search stop by blast
    then show ?thesis using shape_ids [OF sh, of "(?k, target (ke_pid el) slot)"] False
      by (auto simp: kid_lookup_epoll_tfd_def)
  qed
qed

theorem kid_lookup_epoll_tfd_correct_witness:
  "kid_lookup_epoll_tfd (\<lambda>p q i s. if demo_obj p i = s then 0 else if demo_obj p i < s then 1 else 2)
     empty_mem (DECLARE_KCMP_TREE 0) \<lparr>ke_pid = 1, genid = 3, idx = 4\<rparr> 5 = Some None"
proof -
  have "kid_ids demo_obj empty_mem = {}" by (simp add: kid_ids_def empty_mem_def)
  then show ?thesis
    using kid_lookup_epoll_tfd_correct [OF kid_inv_init [of demo_obj 0], of "\<lambda>q s. s"
      "\<lambda>p q i s. if demo_obj p i = s then 0 else if demo_obj p i < s then 1 else 2" "\<lparr>ke_pid = 1, genid = 3, idx = 4\<rparr>" 5]
    by (auto simp: tfd_ok_def split: option.splits)
qed

end
