(* ===== verification/FileIds.thy ===== *)
theory FileIds
  imports KcmpProps
begin

text \<open>
  The identifiers of dumped files, \<^verbatim>\<open>criu/file-ids.c\<close>: the tree \<^verbatim>\<open>fd_tree\<close> of \<^verbatim>\<open>kcmp-ids.c\<close> for open
  descriptors, and a hash table from (mount, device, inode) to identifiers for the files that are
  reached in another way.  \<^verbatim>\<open>xmalloc\<close> of a table entry is a flag: whether it succeeds.
\<close>

section \<open>Data\<close>

record fd_id =
  fd_mnt_id :: int
  dev :: u32
  ino :: u64
  fid :: u32

text \<open>The fields of \<^verbatim>\<open>struct fd_parms\<close> that the code reads.\<close>

record fd_parms =
  st_dev :: u64
  st_ino :: u64
  st_mode :: u32
  mnt_id :: int

record file_ids =
  fd_tree :: kid_tree
  fd_mem :: kid_mem
  fd_id_cache :: "fd_id list list"

definition FDID_SIZE :: nat where "FDID_SIZE = 32"

definition S_IFCHR :: u32 where "S_IFCHR = 0x2000"
definition S_IFBLK :: u32 where "S_IFBLK = 0x6000"
definition S_IFDIR :: u32 where "S_IFDIR = 0x4000"
definition S_IFREG :: u32 where "S_IFREG = 0x8000"

definition file_ids_init :: "u32 \<Rightarrow> file_ids" where
  "file_ids_init KCMP_FILE =
     \<lparr>fd_tree = DECLARE_KCMP_TREE KCMP_FILE, fd_mem = empty_mem, fd_id_cache = replicate FDID_SIZE []\<rparr>"

section \<open>Operations\<close>

definition fdid_hashfn :: "u32 \<Rightarrow> u64 \<Rightarrow> nat" where
  "fdid_hashfn s_dev i_ino = unat ((ucast s_dev + i_ino) AND 31)"

definition fd_id_cache_one :: "bool \<Rightarrow> u32 \<Rightarrow> fd_parms \<Rightarrow> fd_id list list \<Rightarrow> fd_id list list" where
  "fd_id_cache_one alloc i p cache =
     (if alloc then
        let fi = \<lparr>fd_mnt_id = mnt_id p, dev = ucast (st_dev p), ino = st_ino p, fid = i\<rparr>;
            hv = fdid_hashfn (ucast (st_dev p)) (st_ino p)
        in cache[hv := fi # cache ! hv]
      else cache)"

definition fd_id_cache_lookup :: "fd_parms \<Rightarrow> fd_id list list \<Rightarrow> fd_id option" where
  "fd_id_cache_lookup p cache =
     List.find (\<lambda>fi. ucast (dev fi) = st_dev p \<and> ino fi = st_ino p \<and> fd_mnt_id fi = mnt_id p)
       (cache ! fdid_hashfn (ucast (st_dev p)) (st_ino p))"

text \<open>\<^verbatim>\<open>fd_tree.subid++\<close>, stored to a \<^verbatim>\<open>u32\<close>.\<close>

definition next_subid :: "file_ids \<Rightarrow> u32 \<times> file_ids" where
  "next_subid s =
     (ucast (kt_subid (fd_tree s)), s\<lparr>fd_tree := (fd_tree s)\<lparr>kt_subid := kt_subid (fd_tree s) + 1\<rparr>\<rparr>)"

definition fd_id_new_special :: "bool \<Rightarrow> fd_parms option \<Rightarrow> file_ids \<Rightarrow> int \<times> u32 \<times> file_ids" where
  "fd_id_new_special alloc p s =
     (let (i, s) = next_subid s
      in (1, i, case p of
                  None \<Rightarrow> s
                | Some p \<Rightarrow> s\<lparr>fd_id_cache := fd_id_cache_one alloc i p (fd_id_cache s)\<rparr>))"

text \<open>The return value, \<^verbatim>\<open>*id\<close> and the new state.\<close>

definition fd_id_generate_special :: "bool \<Rightarrow> fd_parms option \<Rightarrow> file_ids \<Rightarrow> int \<times> u32 \<times> file_ids" where
  "fd_id_generate_special alloc p s =
     (case p of
        None \<Rightarrow> fd_id_new_special alloc p s
      | Some q \<Rightarrow>
          (case fd_id_cache_lookup q (fd_id_cache s) of
             None \<Rightarrow> fd_id_new_special alloc p s
           | Some fi \<Rightarrow>
               if st_mode q AND (S_IFCHR OR S_IFBLK) \<noteq> 0 then
                 (let (i, s) = next_subid s in (1, i, s))
               else (0, fid fi, s)))"

text \<open>The return value, \<^verbatim>\<open>fe->id\<close> and the new state; \<open>fe_id\<close> and \<open>fe_fd\<close> are the fields of the entry.\<close>

definition fd_id_generate ::
  "kcmp_call \<Rightarrow> (kid_mem \<Rightarrow> u64 option) \<Rightarrow> bool \<Rightarrow> int \<Rightarrow> u32 \<Rightarrow> u32 \<Rightarrow> fd_parms \<Rightarrow> file_ids \<Rightarrow>
    (int \<times> u32 \<times> file_ids) option" where
  "fd_id_generate kcmp xmalloc alloc pid fe_id fe_fd p s =
     do {
       (i, new_id, m, tree) \<leftarrow> kid_generate_gen kcmp xmalloc (fd_mem s) (fd_tree s)
          \<lparr>ke_pid = pid, genid = fe_id, idx = fe_fd\<rparr>;
       let s = s\<lparr>fd_mem := m, fd_tree := tree\<rparr>;
       if i = 0 then Some (- 12, fe_id, s)
       else
         let s = (if new_id then s\<lparr>fd_id_cache := fd_id_cache_one alloc i p (fd_id_cache s)\<rparr> else s)
         in Some (if new_id then 1 else 0, i, s)
     }"

section \<open>Properties\<close>

text \<open>Every identifier that has been handed out is below the counter, and the known objects satisfy the
  invariant of the tree.\<close>

definition file_ids_ok :: "(int \<Rightarrow> u32 \<Rightarrow> nat) \<Rightarrow> file_ids \<Rightarrow> bool" where
  "file_ids_ok obj s =
     (kid_inv obj (fd_mem s) (fd_tree s) \<and> length (fd_id_cache s) = FDID_SIZE \<and>
      (\<forall>c \<in> set (fd_id_cache s). \<forall>fi \<in> set c. fid fi \<noteq> 0 \<and> unat (fid fi) < unat (kt_subid (fd_tree s))))"

lemma hash_bound: "fdid_hashfn d i < FDID_SIZE"
proof -
  have "(ucast d + i) AND 31 \<le> (31 :: u64)" by (rule word_and_le1)
  then show ?thesis by (simp add: fdid_hashfn_def FDID_SIZE_def word_le_nat_alt)
qed

text \<open>The table as a map: the identifier that the lookup finds.\<close>

definition cached :: "fd_parms \<Rightarrow> fd_id list list \<Rightarrow> u32 option" where
  "cached p cache = map_option fid (fd_id_cache_lookup p cache)"

definition same_file :: "fd_parms \<Rightarrow> fd_parms \<Rightarrow> bool" where
  "same_file p q = (st_dev p = st_dev q \<and> st_ino p = st_ino q \<and> mnt_id p = mnt_id q)"

lemma dev_round: "unat (d :: u64) < 2 ^ 32 \<Longrightarrow> ucast (ucast d :: u32) = d"
proof -
  assume "unat d < 2 ^ 32"
  then have "unat (ucast (ucast d :: u32) :: u64) = unat d"
    by (simp add: unsigned_ucast_eq unsigned_take_bit_eq take_bit_nat_eq_self)
  then show "ucast (ucast d :: u32) = d" by (rule unsigned_word_eqI)
qed

lemma cached_cache_one:
  assumes "length cache = FDID_SIZE" and "unat (st_dev p) < 2 ^ 32"
  shows "cached q (fd_id_cache_one True i p cache) = (if same_file p q then Some i else cached q cache)"
proof (cases "fdid_hashfn (ucast (st_dev p)) (st_ino p) = fdid_hashfn (ucast (st_dev q)) (st_ino q)")
  case True
  with assms hash_bound [of "ucast (st_dev q)" "st_ino q"] dev_round [OF assms(2)] show ?thesis
    by (auto simp: cached_def fd_id_cache_one_def fd_id_cache_lookup_def same_file_def Let_def)
next
  case False
  then show ?thesis
    by (auto simp: cached_def fd_id_cache_one_def fd_id_cache_lookup_def same_file_def Let_def)
qed

lemma file_ids_ok_init: "file_ids_ok obj (file_ids_init t)"
  by (auto simp: file_ids_ok_def file_ids_init_def kid_inv_init)

lemma next_subid_ok:
  assumes "file_ids_ok obj s" and "unat (kt_subid (fd_tree s)) < 2 ^ 32" and "next_subid s = (i, s')"
  shows "file_ids_ok obj s'" and "i \<noteq> 0" and "unat i = unat (kt_subid (fd_tree s))"
    and "kid_ids obj (fd_mem s') = kid_ids obj (fd_mem s)" and "fd_id_cache s' = fd_id_cache s"
    and "unat (kt_subid (fd_tree s')) = unat (kt_subid (fd_tree s)) + 1"
proof -
  let ?n = "kt_subid (fd_tree s)"
  have s': "s' = s\<lparr>fd_tree := (fd_tree s)\<lparr>kt_subid := ?n + 1\<rparr>\<rparr>" and i: "i = ucast ?n"
    using assms(3) by (auto simp: next_subid_def)
  have n: "unat (?n + 1) = unat ?n + 1" using assms(2) unat_plus_eq [of ?n 1] by simp
  show u: "unat i = unat ?n" using ucast_subid [OF assms(2)] i by simp
  have "0 < ?n" using assms(1) by (auto simp: file_ids_ok_def kid_inv_def subids_ok_def)
  then show "i \<noteq> 0" using u by (auto simp: word_less_nat_alt)
  show "kid_ids obj (fd_mem s') = kid_ids obj (fd_mem s)" "fd_id_cache s' = fd_id_cache s"
    "unat (kt_subid (fd_tree s')) = unat ?n + 1" using s' n by simp_all
  obtain gs ss where "kid_shape obj (fd_mem s) (fd_tree s) gs ss" and si: "subids_ok (fd_mem s) (fd_tree s)"
    using assms(1) by (auto simp: file_ids_ok_def kid_inv_def)
  then have "kid_shape obj (fd_mem s') (fd_tree s') gs ss" using s' by (simp add: kid_shape_def)
  moreover have "subids_ok (fd_mem s') (fd_tree s')"
    using si s' n unfolding subids_ok_def by (auto simp: less_Suc_eq word_less_nat_alt)
  ultimately have "kid_inv obj (fd_mem s') (fd_tree s')" by (auto simp: kid_inv_def)
  then show "file_ids_ok obj s'" using assms(1) s' n by (fastforce simp: file_ids_ok_def less_Suc_eq)
qed

lemma cache_one_ok:
  assumes ok: "file_ids_ok obj s" and i: "i \<noteq> 0" "unat i < unat (kt_subid (fd_tree s))"
  shows "file_ids_ok obj (s\<lparr>fd_id_cache := fd_id_cache_one a i p (fd_id_cache s)\<rparr>)"
proof (cases a)
  case True
  let ?c = "fd_id_cache s" and ?hv = "fdid_hashfn (ucast (st_dev p)) (st_ino p)"
  let ?fi = "\<lparr>fd_mnt_id = mnt_id p, dev = ucast (st_dev p), ino = st_ino p, fid = i\<rparr>"
  have eq: "fd_id_cache_one a i p ?c = ?c[?hv := ?fi # ?c ! ?hv]"
    using True by (simp add: fd_id_cache_one_def Let_def)
  have hv: "?hv < length ?c" using ok hash_bound [of "ucast (st_dev p)" "st_ino p"] by (simp add: file_ids_ok_def)
  have good: "\<forall>fi \<in> set c. fid fi \<noteq> 0 \<and> unat (fid fi) < unat (kt_subid (fd_tree s))" if "c \<in> set ?c" for c
    using ok that by (simp add: file_ids_ok_def)
  have "\<forall>fi \<in> set c. fid fi \<noteq> 0 \<and> unat (fid fi) < unat (kt_subid (fd_tree s))"
    if "c \<in> set (?c[?hv := ?fi # ?c ! ?hv])" for c
  proof -
    have "c = ?fi # ?c ! ?hv \<or> c \<in> set ?c" using that set_update_subset_insert by fast
    then show ?thesis using good [of c] good [OF nth_mem [OF hv]] i by auto
  qed
  then show ?thesis using ok eq by (simp add: file_ids_ok_def)
qed (use ok in \<open>simp add: fd_id_cache_one_def\<close>)



text \<open>a file that got its identifier as an open descriptor is found under the same identifier when it is
  reached in another way (as an executable, a working directory or a mapping), for a regular file.\<close>

theorem special_after_generate:
  assumes "file_ids_ok obj s" and "kcmp_ok obj (kcmp_type (fd_tree s)) kcmp" and "xmalloc_ok xmalloc"
    and "unat (kt_subid (fd_tree s)) < 2 ^ 32"
    and "fd_id_generate kcmp xmalloc True pid fe_id fe_fd p s = Some (1, i, s')"
    and "same_file p q" and "unat (st_dev p) < 2 ^ 32" and "st_mode q AND (S_IFCHR OR S_IFBLK) = 0"
  shows "file_ids_ok obj s' \<and> fd_id_generate_special alloc (Some q) s' = (0, i, s')"
proof -
  let ?el = "\<lparr>ke_pid = pid, genid = fe_id, idx = fe_fd\<rparr>"
  obtain gs ss where sh: "kid_shape obj (fd_mem s) (fd_tree s) gs ss" and si: "subids_ok (fd_mem s) (fd_tree s)"
    using assms(1) by (auto simp: file_ids_ok_def kid_inv_def)
  obtain j new m t where g: "kid_generate_gen kcmp xmalloc (fd_mem s) (fd_tree s) ?el = Some (j, new, m, t)"
    and inv: "kid_inv obj m t" and c: "new \<Longrightarrow> j = ucast (kt_subid (fd_tree s)) \<and> kt_subid t = kt_subid (fd_tree s) + 1"
    using kid_generate_gen_ok [OF sh si assms(2-4), of ?el] unfolding kid_post_def by blast
  have new: new "j \<noteq> 0" "i = j"
    and s': "s' = s\<lparr>fd_mem := m, fd_tree := t, fd_id_cache := fd_id_cache_one True j p (fd_id_cache s)\<rparr>"
    using assms(5) g by (auto simp: fd_id_generate_def Let_def split: if_splits)
  have u: "unat j = unat (kt_subid (fd_tree s))" "unat (kt_subid t) = unat j + 1"
    using c [OF new(1)] ucast_subid [OF assms(4)] assms(4) unat_plus_eq [of "kt_subid (fd_tree s)" 1] by simp_all
  have "file_ids_ok obj (s\<lparr>fd_mem := m, fd_tree := t\<rparr>)"
    using assms(1) inv u by (fastforce simp: file_ids_ok_def less_Suc_eq)
  then have "file_ids_ok obj s'" using cache_one_ok [of obj "s\<lparr>fd_mem := m, fd_tree := t\<rparr>" j True p] new u s' by simp
  moreover have "cached q (fd_id_cache s') = Some i"
    using cached_cache_one [of "fd_id_cache s" p q j] assms(1,6,7) s' new by (simp add: file_ids_ok_def)
  ultimately show ?thesis using assms(8) by (auto simp: cached_def fd_id_generate_special_def)
qed

theorem special_after_generate_witness:
  "\<exists>i s'. fd_id_generate demo_kcmp demo_xmalloc True 1 3 4 \<lparr>st_dev = 7, st_ino = 9, st_mode = S_IFREG, mnt_id = 1\<rparr>
       (file_ids_init 0) = Some (1, i, s') \<and>
     fd_id_generate_special True (Some \<lparr>st_dev = 7, st_ino = 9, st_mode = S_IFREG, mnt_id = 1\<rparr>) s' = (0, i, s')"
proof -
  let ?p = "\<lparr>st_dev = 7, st_ino = 9, st_mode = S_IFREG, mnt_id = 1\<rparr>"
  obtain gs ss where sh: "kid_shape demo_obj empty_mem (DECLARE_KCMP_TREE 0) gs ss"
    and si: "subids_ok empty_mem (DECLARE_KCMP_TREE 0)"
    using kid_inv_init [of demo_obj 0] by (auto simp: kid_inv_def)
  have "kid_post demo_obj demo_xmalloc empty_mem (DECLARE_KCMP_TREE 0) \<lparr>ke_pid = 1, genid = 3, idx = 4\<rparr>
      (kid_generate_gen demo_kcmp demo_xmalloc empty_mem (DECLARE_KCMP_TREE 0) \<lparr>ke_pid = 1, genid = 3, idx = 4\<rparr>)"
    by (rule kid_generate_gen_ok [OF sh si demo_kid_ok]) (simp add: DECLARE_KCMP_TREE_def)
  moreover have "kid_ids demo_obj empty_mem = {}" "demo_xmalloc empty_mem \<noteq> None"
    by (simp_all add: kid_ids_def empty_mem_def demo_xmalloc_def)
  ultimately obtain i m t where "kid_generate_gen demo_kcmp demo_xmalloc empty_mem (DECLARE_KCMP_TREE 0)
      \<lparr>ke_pid = 1, genid = 3, idx = 4\<rparr> = Some (i, True, m, t)" and i: "i = 1"
    unfolding kid_post_def by (auto simp: DECLARE_KCMP_TREE_def)
  then obtain s' where g: "fd_id_generate demo_kcmp demo_xmalloc True 1 3 4 ?p (file_ids_init 0) = Some (1, i, s')"
    by (simp add: fd_id_generate_def file_ids_init_def)
  have "fd_id_generate_special True (Some ?p) s' = (0, i, s')"
    using special_after_generate [OF file_ids_ok_init demo_kid_ok _ g, of ?p]
    by (simp add: file_ids_init_def DECLARE_KCMP_TREE_def same_file_def S_IFREG_def S_IFCHR_def S_IFBLK_def)
  with g show ?thesis by blast
qed

text \<open>C38: the test that is meant to exempt devices from the table also matches directories: \<^verbatim>\<open>S_IFDIR\<close> and
  \<^verbatim>\<open>S_IFBLK\<close> share a bit.  A directory that is reached twice gets two different identifiers and is
  reported as new both times.\<close>

theorem directory_gets_two_ids:
  assumes "file_ids_ok obj s" and "unat (kt_subid (fd_tree s)) + 1 < 2 ^ 32" and "st_mode p AND S_IFDIR \<noteq> 0"
    and "fd_id_generate_special a (Some p) s = (r1, i1, s1)" and "fd_id_generate_special b (Some p) s1 = (r2, i2, s2)"
  shows "r1 = 1 \<and> r2 = 1 \<and> i1 \<noteq> i2"
proof -
  have mode: "st_mode p AND (S_IFCHR OR S_IFBLK) \<noteq> 0"
  proof
    assume "st_mode p AND (S_IFCHR OR S_IFBLK) = 0"
    then have "(st_mode p AND 0x6000) AND S_IFDIR = 0" by (simp add: S_IFCHR_def S_IFBLK_def)
    with assms(3) show False by (simp add: and.assoc S_IFDIR_def)
  qed
  obtain j1 t1 where n1: "next_subid s = (j1, t1)" by fastforce
  note k1 = next_subid_ok [OF assms(1) _ n1]
  have 1: "r1 = 1" "i1 = j1" "file_ids_ok obj s1" "fd_tree s1 = fd_tree t1"
    using assms(4) mode n1 k1 cache_one_ok [of obj t1 j1 a p] assms(2)
    by (auto simp: fd_id_generate_special_def fd_id_new_special_def split: option.splits)
  obtain j2 t2 where n2: "next_subid s1 = (j2, t2)" by fastforce
  have "unat (kt_subid (fd_tree s1)) < 2 ^ 32" using 1 k1 assms(2) by simp
  note k2 = next_subid_ok [OF 1(3) this n2]
  have 2: "r2 = 1" "i2 = j2"
    using assms(5) mode n2 by (auto simp: fd_id_generate_special_def fd_id_new_special_def split: option.splits)
  have "unat i1 \<noteq> unat i2" using 1 2 k1 k2 assms(2) by simp
  with 1 2 show ?thesis by auto
qed

theorem directory_gets_two_ids_witness:
  "\<exists>i1 s1 i2 s2. fd_id_generate_special True (Some \<lparr>st_dev = 7, st_ino = 9, st_mode = S_IFDIR, mnt_id = 1\<rparr>) (file_ids_init 0) =
       (1, i1, s1) \<and>
     fd_id_generate_special True (Some \<lparr>st_dev = 7, st_ino = 9, st_mode = S_IFDIR, mnt_id = 1\<rparr>) s1 = (1, i2, s2) \<and> i1 \<noteq> i2"
proof -
  let ?p = "\<lparr>st_dev = 7, st_ino = 9, st_mode = S_IFDIR, mnt_id = 1\<rparr>"
  obtain r1 i1 s1 where g1: "fd_id_generate_special True (Some ?p) (file_ids_init 0) = (r1, i1, s1)" by (metis prod_cases3)
  obtain r2 i2 s2 where g2: "fd_id_generate_special True (Some ?p) s1 = (r2, i2, s2)" by (metis prod_cases3)
  have "r1 = 1 \<and> r2 = 1 \<and> i1 \<noteq> i2"
    by (rule directory_gets_two_ids [OF file_ids_ok_init _ _ g1 g2])
      (simp_all add: file_ids_init_def DECLARE_KCMP_TREE_def S_IFDIR_def)
  with g1 g2 show ?thesis by auto
qed

end
