(* ===== verification/Bfd.thy ===== *)
theory Bfd
  imports Prelude
begin

text \<open>
  Buffered files, \<^verbatim>\<open>criu/bfd.c\<close>, with \<^verbatim>\<open>read_all\<close> and \<^verbatim>\<open>write_all\<close> of \<^verbatim>\<open>criu/util.c\<close>.  The system calls and
  the allocator are the parameter \<open>bfd_ops\<close>, functions on a world; a call that fails has an \<^verbatim>\<open>errno\<close>,
  of which only the interruption matters.  A buffer is its address, its bytes, and the offset of
  \<^verbatim>\<open>data\<close> in it; reads and writes outside of it are \<open>None\<close>.
\<close>

section \<open>Data\<close>

datatype 'a io = Intr | Error | Got 'a

record 'w bfd_ops =
  op_read :: "int \<Rightarrow> nat \<Rightarrow> 'w \<Rightarrow> u8 list io \<times> 'w"
  op_write :: "int \<Rightarrow> u8 list \<Rightarrow> 'w \<Rightarrow> nat io \<times> 'w"
  op_writev :: "int \<Rightarrow> u8 list list \<Rightarrow> 'w \<Rightarrow> nat io \<times> 'w"
  op_mmap :: "nat \<Rightarrow> 'w \<Rightarrow> u64 option \<times> 'w"
  op_mremap :: "u64 \<Rightarrow> nat \<Rightarrow> nat \<Rightarrow> 'w \<Rightarrow> u64 option \<times> 'w"
  op_munmap :: "u64 \<Rightarrow> nat \<Rightarrow> 'w \<Rightarrow> 'w"
  op_xmalloc :: "'w \<Rightarrow> bool \<times> 'w"
  op_close :: "int \<Rightarrow> 'w \<Rightarrow> 'w"
  op_page :: "u64 \<Rightarrow> 'w \<Rightarrow> u8 list"

text \<open>\<open>buf\<close> is the \<^verbatim>\<open>struct bfd_buf\<close> of a standard buffer, known by its \<^verbatim>\<open>mem\<close>; \<open>data\<close> is an offset.\<close>

record xbuf =
  mem :: u64
  data :: nat
  sz :: nat
  bsize :: nat
  buf :: "u64 option"
  bytes :: "u8 list"

record bfd =
  bfd_fd :: int
  writable :: bool
  bfd_b :: xbuf

text \<open>The free buffers \<^verbatim>\<open>bufs\<close>, and \<^verbatim>\<open>flush_failed\<close>.\<close>

record 'w bfd_state =
  bufs :: "u64 list"
  flush_failed :: bool
  world :: 'w

definition BUFSIZE :: nat where "BUFSIZE = 4096"
definition BFD_MAX_DYNAMIC_SIZE :: nat where "BFD_MAX_DYNAMIC_SIZE = 2 * 1024 * 1024"
definition BUFBATCH :: nat where "BUFBATCH = 16"

definition mem_read :: "u8 list \<Rightarrow> nat \<Rightarrow> nat \<Rightarrow> u8 list option" where
  "mem_read bs off n = (if off + n \<le> length bs then Some (take n (drop off bs)) else None)"

definition mem_write :: "u8 list \<Rightarrow> nat \<Rightarrow> u8 list \<Rightarrow> u8 list option" where
  "mem_write bs off xs =
     (if off + length xs \<le> length bs then Some (take off bs @ xs @ drop (off + length xs) bs) else None)"

section \<open>Reading and writing without partial transfers\<close>

text \<open>The return value, the bytes that are in the buffer, and the world.\<close>

partial_function (option) read_all ::
  "'w bfd_ops \<Rightarrow> int \<Rightarrow> nat \<Rightarrow> 'w \<Rightarrow> (int \<times> u8 list \<times> 'w) option" where
  "read_all k f len w =
     (if len > 0 then
        case op_read k f len w of
          (Intr, w) \<Rightarrow> read_all k f len w
        | (Error, w) \<Rightarrow> Some (- 1, [], w)
        | (Got bs, w) \<Rightarrow>
            if bs = [] then Some (0, [], w)
            else do { (n, bs', w) \<leftarrow> read_all k f (len - length bs) w;
                      Some (if n < 0 then n else n + int (length bs), bs @ bs', w) }
      else Some (0, [], w))"

partial_function (option) write_all ::
  "'w bfd_ops \<Rightarrow> int \<Rightarrow> u8 list \<Rightarrow> 'w \<Rightarrow> (int \<times> 'w) option" where
  "write_all k f bs w =
     (if bs \<noteq> [] then
        case op_write k f bs w of
          (Intr, w) \<Rightarrow> write_all k f bs w
        | (Error, w) \<Rightarrow> Some (- 1, w)
        | (Got ret, w) \<Rightarrow>
            do { (n, w) \<leftarrow> write_all k f (drop ret bs) w;
                 Some (if n < 0 then n else n + int ret, w) }
      else Some (0, w))"

section \<open>Buffers\<close>

text \<open>The loop that adds the parts \<open>i, ..., BUFBATCH - 1\<close> of a mapping to the free buffers; it stops at the first
  failure of \<^verbatim>\<open>xmalloc\<close>.\<close>

fun bufs_refill :: "'w bfd_ops \<Rightarrow> u64 \<Rightarrow> nat list \<Rightarrow> 'w \<Rightarrow> u64 list \<times> 'w" where
  "bufs_refill k m [] w = ([], w)"
| "bufs_refill k m (i # js) w =
     (case op_xmalloc k w of
        (False, w) \<Rightarrow> ([], w)
      | (True, w) \<Rightarrow> let (bs, w) = bufs_refill k m js w in ((m + of_nat (i * BUFSIZE)) # bs, w))"

definition bufs_take :: "'w bfd_ops \<Rightarrow> 'w bfd_state \<Rightarrow> xbuf \<Rightarrow> int \<times> xbuf \<times> 'w bfd_state" where
  "bufs_take k s xb =
     (case bufs s of
        [] \<Rightarrow> (- 1, xb, s)
      | m # bs \<Rightarrow>
          (0, \<lparr>mem = m, data = 0, sz = 0, bsize = BUFSIZE, buf = Some m, bytes = op_page k m (world s)\<rparr>,
           s\<lparr>bufs := bs\<rparr>))"

definition buf_get :: "'w bfd_ops \<Rightarrow> 'w bfd_state \<Rightarrow> xbuf \<Rightarrow> int \<times> xbuf \<times> 'w bfd_state" where
  "buf_get k s xb =
     (if bufs s = [] then
        case op_mmap k (BUFBATCH * BUFSIZE) (world s) of
          (None, w) \<Rightarrow> (- 1, xb, s\<lparr>world := w\<rparr>)
        | (Some m, w) \<Rightarrow>
            let (bs, w) = bufs_refill k m [0..<BUFBATCH] w
            in bufs_take k (s\<lparr>bufs := bs, world := w\<rparr>) xb
      else bufs_take k s xb)"

definition buf_put :: "'w bfd_ops \<Rightarrow> 'w bfd_state \<Rightarrow> xbuf \<Rightarrow> xbuf \<times> 'w bfd_state" where
  "buf_put k s xb =
     (xb\<lparr>buf := None, mem := 0, data := 0\<rparr>,
      case buf xb of
        Some m \<Rightarrow> s\<lparr>bufs := m # bufs s\<rparr>
      | None \<Rightarrow> s\<lparr>world := op_munmap k (mem xb) (bsize xb) (world s)\<rparr>)"

definition bfd_buffered :: "bfd \<Rightarrow> bool" where
  "bfd_buffered f = (mem (bfd_b f) \<noteq> 0)"

definition bfd_setraw :: "bfd \<Rightarrow> bfd" where
  "bfd_setraw f = f\<lparr>bfd_b := (bfd_b f)\<lparr>mem := 0\<rparr>\<rparr>"

text \<open>\<^verbatim>\<open>close_safe\<close> of \<^verbatim>\<open>criu/include/util.h\<close>: the descriptor becomes -1.\<close>

definition close_safe :: "'w bfd_ops \<Rightarrow> bfd \<Rightarrow> 'w bfd_state \<Rightarrow> bfd \<times> 'w bfd_state" where
  "close_safe k f s =
     (if bfd_fd f \<ge> 0 then (f\<lparr>bfd_fd := - 1\<rparr>, s\<lparr>world := op_close k (bfd_fd f) (world s)\<rparr>) else (f, s))"

definition bfdopen :: "'w bfd_ops \<Rightarrow> bfd \<Rightarrow> bool \<Rightarrow> 'w bfd_state \<Rightarrow> int \<times> bfd \<times> 'w bfd_state" where
  "bfdopen k f wr s =
     (let (ret, xb, s) = buf_get k s (bfd_b f); f = f\<lparr>bfd_b := xb\<rparr>
      in if ret \<noteq> 0 then let (f, s) = close_safe k f s in (- 1, f, s)
         else (0, f\<lparr>writable := wr\<rparr>, s))"

definition bfdopenr :: "'w bfd_ops \<Rightarrow> bfd \<Rightarrow> 'w bfd_state \<Rightarrow> int \<times> bfd \<times> 'w bfd_state" where
  "bfdopenr k f s = bfdopen k f False s"

definition bfdopenw :: "'w bfd_ops \<Rightarrow> bfd \<Rightarrow> 'w bfd_state \<Rightarrow> int \<times> bfd \<times> 'w bfd_state" where
  "bfdopenw k f s = bfdopen k f True s"

definition bfd_flush_images :: "'w bfd_state \<Rightarrow> int" where
  "bfd_flush_images s = (if flush_failed s then - 1 else 0)"

section \<open>Reading\<close>

definition brefill :: "'w bfd_ops \<Rightarrow> bfd \<Rightarrow> 'w bfd_state \<Rightarrow> (int \<times> bfd \<times> 'w bfd_state) option" where
  "brefill k f s =
     do {
       let x = bfd_b f;
       xs \<leftarrow> mem_read (bytes x) (data x) (sz x);
       bs \<leftarrow> mem_write (bytes x) 0 xs;
       (ret, got, w) \<leftarrow> read_all k (bfd_fd f) (bsize x - sz x) (world s);
       bs \<leftarrow> mem_write bs (sz x) got;
       let x = x\<lparr>bytes := bs, data := 0\<rparr>;
       let s = s\<lparr>world := w\<rparr>;
       Some (if ret < 0 then (- 1, f\<lparr>bfd_b := x\<rparr>, s)
             else if ret = 0 then (0, f\<lparr>bfd_b := x\<rparr>, s)
             else (1, f\<lparr>bfd_b := x\<lparr>sz := sz x + nat ret\<rparr>\<rparr>, s))
     }"

text \<open>The offset of the character from \<^verbatim>\<open>str\<close>, or null.\<close>

fun strnchr :: "u8 list \<Rightarrow> u8 \<Rightarrow> nat option" where
  "strnchr [] c = None"
| "strnchr (x # xs) c = (if x = c then Some 0 else map_option Suc (strnchr xs c))"

definition bextend :: "'w bfd_ops \<Rightarrow> bfd \<Rightarrow> 'w bfd_state \<Rightarrow> (int \<times> bfd \<times> 'w bfd_state) option" where
  "bextend k f s =
     (let x = bfd_b f; newsize = bsize x * 2 in
      if newsize > BFD_MAX_DYNAMIC_SIZE then Some (- 1, f, s)
      else
        case buf x of
          Some m \<Rightarrow>
            (case op_mmap k newsize (world s) of
               (None, w) \<Rightarrow> Some (- 1, f, s\<lparr>world := w\<rparr>)
             | (Some newbuf, w) \<Rightarrow>
                 do { xs \<leftarrow> mem_read (bytes x) 0 (sz x);
                      bs \<leftarrow> mem_write (replicate newsize 0) 0 xs;
                      Some (0, f\<lparr>bfd_b := x\<lparr>buf := None, mem := newbuf, data := 0, bsize := newsize, bytes := bs\<rparr>\<rparr>,
                            s\<lparr>bufs := m # bufs s, world := w\<rparr>) })
        | None \<Rightarrow>
            (case op_mremap k (mem x) (bsize x) newsize (world s) of
               (None, w) \<Rightarrow> Some (- 1, f, s\<lparr>world := w\<rparr>)
             | (Some newbuf, w) \<Rightarrow>
                 Some (0, f\<lparr>bfd_b := x\<lparr>mem := newbuf, data := 0, bsize := newsize,
                                    bytes := bytes x @ replicate (newsize - bsize x) 0\<rparr>\<rparr>,
                       s\<lparr>world := w\<rparr>)))"

text \<open>What \<^verbatim>\<open>breadchr\<close> returns: the bytes up to the terminating null, the null pointer, or \<^verbatim>\<open>ERR_PTR(-EIO)\<close>.\<close>

datatype line = Line "u8 list" | NoLine | EIO

text \<open>The code from the label \<^verbatim>\<open>again\<close>, with \<open>ss\<close> and \<open>refilled\<close>.\<close>

partial_function (option) breadchr_again ::
  "'w bfd_ops \<Rightarrow> bfd \<Rightarrow> u8 \<Rightarrow> bool \<Rightarrow> nat \<Rightarrow> 'w bfd_state \<Rightarrow> (line \<times> bfd \<times> 'w bfd_state) option" where
  "breadchr_again k f c refilled ss s =
     do {
       let x = bfd_b f;
       xs \<leftarrow> mem_read (bytes x) (data x + ss) (sz x - ss);
       case strnchr xs c of
         Some n \<Rightarrow>
           do { let n = data x + ss + n;
                bs \<leftarrow> mem_write (bytes x) n [0];
                ret \<leftarrow> mem_read bs (data x) (n - data x);
                Some (Line ret, f\<lparr>bfd_b := x\<lparr>bytes := bs, data := n + 1, sz := sz x - (n + 1 - data x)\<rparr>\<rparr>, s) }
       | None \<Rightarrow>
           if refilled \<and> sz x = 0 then Some (NoLine, f, s)
           else if refilled \<and> sz x \<noteq> bsize x then
             do { bs \<leftarrow> mem_write (bytes x) (data x + sz x) [0];
                  ret \<leftarrow> mem_read bs (data x) (sz x);
                  Some (Line ret, f\<lparr>bfd_b := x\<lparr>bytes := bs, sz := 0\<rparr>\<rparr>, s) }
           else
             do { (e, f, s) \<leftarrow> (if refilled then bextend k f s else Some (0, f, s));
                  if e \<noteq> 0 then Some (EIO, f, s)
                  else do { let ss = sz (bfd_b f);
                            (r, f, s) \<leftarrow> brefill k f s;
                            if r < 0 then Some (EIO, f, s)
                            else breadchr_again k f c True ss s } }
     }"

definition breadchr :: "'w bfd_ops \<Rightarrow> bfd \<Rightarrow> u8 \<Rightarrow> 'w bfd_state \<Rightarrow> (line \<times> bfd \<times> 'w bfd_state) option" where
  "breadchr k f c s = breadchr_again k f c False 0 s"

definition breadline :: "'w bfd_ops \<Rightarrow> bfd \<Rightarrow> 'w bfd_state \<Rightarrow> (line \<times> bfd \<times> 'w bfd_state) option" where
  "breadline k f s = breadchr k f 10 s"

text \<open>The loop of \<^verbatim>\<open>bread\<close>: the return value and the bytes that are in the destination.\<close>

partial_function (option) bread_loop ::
  "'w bfd_ops \<Rightarrow> bfd \<Rightarrow> nat \<Rightarrow> u8 list \<Rightarrow> 'w bfd_state \<Rightarrow> (int \<times> u8 list \<times> bfd \<times> 'w bfd_state) option" where
  "bread_loop k f len acc s =
     do {
       let x = bfd_b f;
       let chunk = min (len - length acc) (sz x);
       xs \<leftarrow> mem_read (bytes x) (data x) chunk;
       let f = f\<lparr>bfd_b := x\<lparr>data := data x + chunk, sz := sz x - chunk\<rparr>\<rparr>;
       let acc = acc @ xs;
       if length acc < len then
         do { (more, f, s) \<leftarrow> brefill k f s;
              if more > 0 then bread_loop k f len acc s
              else Some (if more < 0 then more else int (length acc), acc, f, s) }
       else Some (int (length acc), acc, f, s)
     }"

definition bread :: "'w bfd_ops \<Rightarrow> bfd \<Rightarrow> nat \<Rightarrow> 'w bfd_state \<Rightarrow> (int \<times> u8 list \<times> bfd \<times> 'w bfd_state) option" where
  "bread k f len s =
     (if \<not> bfd_buffered f then
        do { (ret, bs, w) \<leftarrow> read_all k (bfd_fd f) len (world s); Some (ret, bs, f, s\<lparr>world := w\<rparr>) }
      else bread_loop k f len [] s)"

section \<open>Writing\<close>

definition bflush :: "'w bfd_ops \<Rightarrow> bfd \<Rightarrow> 'w bfd_state \<Rightarrow> (int \<times> bfd \<times> 'w bfd_state) option" where
  "bflush k f s =
     (let x = bfd_b f in
      if sz x = 0 then Some (0, f, s)
      else do { xs \<leftarrow> mem_read (bytes x) (data x) (sz x);
                (ret, w) \<leftarrow> write_all k (bfd_fd f) xs (world s);
                let s = s\<lparr>world := w\<rparr>;
                Some (if ret \<noteq> int (sz x) then (- 1, f, s) else (0, f\<lparr>bfd_b := x\<lparr>sz := 0\<rparr>\<rparr>, s)) })"

definition bwrite_buf :: "'w bfd_ops \<Rightarrow> bfd \<Rightarrow> u8 list \<Rightarrow> 'w bfd_state \<Rightarrow> (int \<times> bfd \<times> 'w bfd_state) option" where
  "bwrite_buf k f bs s =
     do {
       (ret, f, s) \<leftarrow> (if sz (bfd_b f) + length bs > bsize (bfd_b f) then bflush k f s else Some (0, f, s));
       if ret < 0 then Some (ret, f, s)
       else if length bs > bsize (bfd_b f) then
         do { (ret, w) \<leftarrow> write_all k (bfd_fd f) bs (world s); Some (ret, f, s\<lparr>world := w\<rparr>) }
       else
         do { let x = bfd_b f;
              m \<leftarrow> mem_write (bytes x) (data x + sz x) bs;
              Some (int (length bs), f\<lparr>bfd_b := x\<lparr>bytes := m, sz := sz x + length bs\<rparr>\<rparr>, s) }
     }"

definition bwrite :: "'w bfd_ops \<Rightarrow> bfd \<Rightarrow> u8 list \<Rightarrow> 'w bfd_state \<Rightarrow> (int \<times> bfd \<times> 'w bfd_state) option" where
  "bwrite k f bs s =
     (if \<not> bfd_buffered f then
        do { (ret, w) \<leftarrow> write_all k (bfd_fd f) bs (world s); Some (ret, f, s\<lparr>world := w\<rparr>) }
      else bwrite_buf k f bs s)"

text \<open>The inner loop of \<^verbatim>\<open>bwritev\<close> after \<open>ret\<close> bytes from the start of the first vector: the vectors that are left
  and the offset in the first.  Running past the last vector is \<open>None\<close>.\<close>

fun iov_advance :: "u8 list list \<Rightarrow> nat \<Rightarrow> nat \<Rightarrow> (u8 list list \<times> nat) option" where
  "iov_advance iov off 0 = Some (iov, off)"
| "iov_advance [] off (Suc n) = None"
| "iov_advance (v # vs) off (Suc n) =
     (if length v > Suc n then Some (v # vs, Suc n) else iov_advance vs 0 (Suc n - length v))"

partial_function (option) bwritev_raw ::
  "'w bfd_ops \<Rightarrow> int \<Rightarrow> u8 list list \<Rightarrow> nat \<Rightarrow> nat \<Rightarrow> 'w \<Rightarrow> (int \<times> 'w) option" where
  "bwritev_raw k f iov off written w =
     (case iov of
        [] \<Rightarrow> Some (int written, w)
      | v # vs \<Rightarrow>
          (case op_writev k f (drop off v # vs) w of
             (Intr, w) \<Rightarrow> Some (- 1, w)
           | (Error, w) \<Rightarrow> Some (- 1, w)
           | (Got ret, w) \<Rightarrow>
               if ret = 0 then Some (- 1, w)
               else do { (iov, off) \<leftarrow> iov_advance iov off (ret + off);
                         bwritev_raw k f iov off (written + ret) w }))"

fun bwritev_buf ::
  "'w bfd_ops \<Rightarrow> bfd \<Rightarrow> u8 list list \<Rightarrow> int \<Rightarrow> 'w bfd_state \<Rightarrow> (int \<times> bfd \<times> 'w bfd_state) option" where
  "bwritev_buf k f [] written s = Some (written, f, s)"
| "bwritev_buf k f (v # vs) written s =
     do { (ret, f, s) \<leftarrow> bwrite_buf k f v s;
          if ret < 0 then Some (ret, f, s)
          else if ret < int (length v) then Some (written + ret, f, s)
          else bwritev_buf k f vs (written + ret) s }"

definition bwritev :: "'w bfd_ops \<Rightarrow> bfd \<Rightarrow> u8 list list \<Rightarrow> 'w bfd_state \<Rightarrow> (int \<times> bfd \<times> 'w bfd_state) option" where
  "bwritev k f iov s =
     (if \<not> bfd_buffered f then
        do { (ret, w) \<leftarrow> bwritev_raw k (bfd_fd f) iov 0 0 (world s); Some (ret, f, s\<lparr>world := w\<rparr>) }
      else bwritev_buf k f iov 0 s)"

definition bclose :: "'w bfd_ops \<Rightarrow> bfd \<Rightarrow> 'w bfd_state \<Rightarrow> (bfd \<times> 'w bfd_state) option" where
  "bclose k f s =
     do {
       (f, s) \<leftarrow>
         (if bfd_buffered f then
            do { (f, s) \<leftarrow>
                   (if writable f then
                      do { (ret, f, s) \<leftarrow> bflush k f s;
                           Some (f, if ret < 0 then s\<lparr>flush_failed := True\<rparr> else s) }
                    else Some (f, s));
                 let (x, s) = buf_put k s (bfd_b f);
                 Some (f\<lparr>bfd_b := x\<rparr>, s) }
          else Some (f, s));
       Some (close_safe k f s)
     }"

end
