(* ===== verification/BfdProps.thy ===== *)
theory BfdProps
  imports Bfd "HOL-Library.Sublist"
begin

text \<open>
  Properties of the buffered files: what a reader gets is the byte stream of the descriptor, cut in
  lines by \<^verbatim>\<open>breadline\<close>, whatever the kernel returns in one \<^verbatim>\<open>read\<close>; what a writer puts in is what
  reaches the descriptor, in order.
\<close>

section \<open>The descriptor\<close>

text \<open>What \<^verbatim>\<open>read(2)\<close> says: the bytes that are read are the next of the file, no bytes are the end of the file,
  and \<open>lim\<close> bounds the interruptions still to come.\<close>

definition source_ok :: "'w bfd_ops \<Rightarrow> int \<Rightarrow> ('w \<Rightarrow> u8 list) \<Rightarrow> ('w \<Rightarrow> nat) \<Rightarrow> bool" where
  "source_ok k f stream lim \<longleftrightarrow>
     (\<forall>n w. case op_read k f n w of
        (Intr, w') \<Rightarrow> stream w' = stream w \<and> lim w' < lim w
      | (Error, w') \<Rightarrow> True
      | (Got bs, w') \<Rightarrow> length bs \<le> n \<and> stream w = bs @ stream w' \<and> lim w' \<le> lim w
                        \<and> (bs = [] \<and> n > 0 \<longrightarrow> stream w = []))"


definition vsink_ok :: "'w bfd_ops \<Rightarrow> int \<Rightarrow> ('w \<Rightarrow> u8 list) \<Rightarrow> bool" where
  "vsink_ok k f out \<longleftrightarrow>
     (\<forall>iov w. case op_writev k f iov w of
        (Intr, w') \<Rightarrow> out w' = out w
      | (Error, w') \<Rightarrow> out w' = out w
      | (Got n, w') \<Rightarrow> n \<le> length (concat iov) \<and> out w' = out w @ take n (concat iov)
                       \<and> (concat iov \<noteq> [] \<longrightarrow> n > 0))"

text \<open>Memory management does not touch the file.\<close>

definition memory_ok :: "'w bfd_ops \<Rightarrow> ('w \<Rightarrow> 'a) \<Rightarrow> bool" where
  "memory_ok k view \<longleftrightarrow>
     (\<forall>n w. view (snd (op_mmap k n w)) = view w) \<and>
     (\<forall>m n n' w. view (snd (op_mremap k m n n' w)) = view w)"

text \<open>No system call fails.\<close>

definition reliable :: "'w bfd_ops \<Rightarrow> int \<Rightarrow> bool" where
  "reliable k f \<longleftrightarrow>
     (\<forall>n w. fst (op_read k f n w) \<noteq> Error) \<and>
     (\<forall>n w. fst (op_mmap k n w) \<noteq> None) \<and> (\<forall>m n n' w. fst (op_mremap k m n n' w) \<noteq> None)"

section \<open>Transfers\<close>

lemma read_all_ok:
  assumes ok: "source_ok k f stream lim"
  shows "\<exists>r bs w'. read_all k f n w = Some (r, bs, w') \<and> length bs \<le> n \<and>
           (r = - 1 \<and> \<not> reliable k f \<or>
            r = int (length bs) \<and> stream w = bs @ stream w' \<and> lim w' \<le> lim w \<and>
            (length bs < n \<longrightarrow> stream w' = []))"
proof (induction "n + lim w" arbitrary: n w rule: less_induct)
  case less
  show ?case
  proof (cases "n > 0")
    case True
    obtain r w1 where rd: "op_read k f n w = (r, w1)" by force
    note law = ok [unfolded source_ok_def, rule_format, of w n, unfolded rd prod.case]
    show ?thesis
    proof (cases r)
      case Intr
      then have "stream w1 = stream w" "lim w1 < lim w" using law by simp_all
      with less [of n w1] Intr rd True show ?thesis by (subst read_all.simps) fastforce
    next
      case Error
      then have "\<not> reliable k f" using rd unfolding reliable_def by (metis fst_conv)
      with Error rd True show ?thesis by (subst read_all.simps) simp
    next
      case (Got bs)
      then have bs: "length bs \<le> n" "stream w = bs @ stream w1" "lim w1 \<le> lim w" "bs = [] \<Longrightarrow> stream w = []"
        using law True by auto
      show ?thesis
      proof (cases "bs = []")
        case True
        then show ?thesis using rd Got bs \<open>n > 0\<close> by (subst read_all.simps) simp
      next
        case False
        then have "n - length bs + lim w1 < n + lim w" using bs(3) \<open>n > 0\<close> by (cases bs) auto
        from less [OF this] obtain r' bs' w' where r: "read_all k f (n - length bs) w1 = Some (r', bs', w')"
          and len: "length bs' \<le> n - length bs"
          and post: "r' = - 1 \<and> \<not> reliable k f \<or> r' = int (length bs') \<and> stream w1 = bs' @ stream w' \<and>
            lim w' \<le> lim w1 \<and> (length bs' < n - length bs \<longrightarrow> stream w' = [])" by blast
        have eq: "read_all k f n w = Some (if r' < 0 then r' else r' + int (length bs), bs @ bs', w')"
          using rd Got r False \<open>n > 0\<close> by (subst read_all.simps) simp
        show ?thesis
          by (rule exI, rule exI, rule exI, rule conjI [OF eq]) (use post len bs in auto)
      qed
    qed
  qed (subst read_all.simps, simp)
qed


section \<open>Reading\<close>

text \<open>The buffer is in its mapping, whose length is one of the sizes \<^verbatim>\<open>bextend\<close> goes through.\<close>

definition bfd_ok :: "bfd \<Rightarrow> bool" where
  "bfd_ok f \<longleftrightarrow> data (bfd_b f) + sz (bfd_b f) \<le> bsize (bfd_b f) \<and> length (bytes (bfd_b f)) = bsize (bfd_b f) \<and>
     (\<exists>i\<le>9. bsize (bfd_b f) = BUFSIZE * 2 ^ i)"

definition buffered :: "bfd \<Rightarrow> u8 list" where
  "buffered f = take (sz (bfd_b f)) (drop (data (bfd_b f)) (bytes (bfd_b f)))"

text \<open>What is still to be read.\<close>

definition pending :: "('w \<Rightarrow> u8 list) \<Rightarrow> bfd \<Rightarrow> 'w bfd_state \<Rightarrow> u8 list" where
  "pending stream f s = buffered f @ stream (world s)"

lemma bfd_ok_bsize: "bfd_ok f \<Longrightarrow> 0 < bsize (bfd_b f) \<and> bsize (bfd_b f) \<le> BFD_MAX_DYNAMIC_SIZE"
proof -
  assume "bfd_ok f"
  then obtain i where i: "i \<le> 9" "bsize (bfd_b f) = 4096 * 2 ^ i" by (auto simp: bfd_ok_def BUFSIZE_def)
  have "(2::nat) ^ i \<le> 2 ^ 9" using i(1) by (intro power_increasing) auto
  with i show ?thesis by (simp add: BFD_MAX_DYNAMIC_SIZE_def)
qed

lemma bfd_ok_double:
  assumes "bfd_ok f" and "bsize (bfd_b f) * 2 \<le> BFD_MAX_DYNAMIC_SIZE"
  shows "\<exists>i\<le>9. bsize (bfd_b f) * 2 = BUFSIZE * 2 ^ i"
proof -
  from assms(1) obtain i where i: "i \<le> 9" "bsize (bfd_b f) = 4096 * 2 ^ i" by (auto simp: bfd_ok_def BUFSIZE_def)
  with assms(2) have "(2::nat) ^ (Suc i) \<le> 2 ^ 9" by (simp add: BFD_MAX_DYNAMIC_SIZE_def)
  then have "Suc i \<le> 9" by (subst (asm) power_increasing_iff) auto
  with i show ?thesis by (intro exI [of _ "Suc i"]) (simp add: BUFSIZE_def)
qed

lemma bfd_ok_full:
  assumes "bfd_ok f" and "bsize (bfd_b f) * 2 > BFD_MAX_DYNAMIC_SIZE"
  shows "bsize (bfd_b f) = BFD_MAX_DYNAMIC_SIZE"
proof -
  from assms(1) obtain i where i: "i \<le> 9" "bsize (bfd_b f) = 4096 * 2 ^ i" by (auto simp: bfd_ok_def BUFSIZE_def)
  with assms(2) have "(2::nat) ^ 9 < 2 ^ Suc i" by (simp add: BFD_MAX_DYNAMIC_SIZE_def)
  then have "9 < Suc i" by (subst (asm) power_strict_increasing_iff) auto
  with i have "i = 9" by simp
  with i show ?thesis by (simp add: BFD_MAX_DYNAMIC_SIZE_def)
qed

lemma length_buffered [simp]: "bfd_ok f \<Longrightarrow> length (buffered f) = sz (bfd_b f)"
  by (auto simp: bfd_ok_def buffered_def)

lemma buffered_upd: "buffered (f\<lparr>bfd_b := x\<rparr>) = take (sz x) (drop (data x) (bytes x))"
  by (simp add: buffered_def)

lemma brefill_ok:
  assumes src: "source_ok k (bfd_fd f) stream lim" and f: "bfd_ok f"
  shows "\<exists>r f' s'. brefill k f s = Some (r, f', s') \<and> bfd_ok f' \<and> bfd_fd f' = bfd_fd f \<and>
     bsize (bfd_b f') = bsize (bfd_b f) \<and> data (bfd_b f') = 0 \<and> buf (bfd_b f') = buf (bfd_b f) \<and>
     mem (bfd_b f') = mem (bfd_b f) \<and> flush_failed s' = flush_failed s \<and> bufs s' = bufs s \<and>
     (if r < 0 then r = - 1 \<and> \<not> reliable k (bfd_fd f)
      else pending stream f' s' = pending stream f s \<and> prefix (buffered f) (buffered f') \<and>
           (sz (bfd_b f') < bsize (bfd_b f') \<longrightarrow> stream (world s') = []) \<and>
           (r = 0 \<longrightarrow> buffered f' = buffered f) \<and> (r > 0 \<longrightarrow> sz (bfd_b f) < sz (bfd_b f')))"
proof -
  let ?x = "bfd_b f"
  have ok: "data ?x + sz ?x \<le> bsize ?x" "length (bytes ?x) = bsize ?x" using f by (auto simp: bfd_ok_def)
  obtain r bs w' where rd: "read_all k (bfd_fd f) (bsize ?x - sz ?x) (world s) = Some (r, bs, w')"
    and len: "length bs \<le> bsize ?x - sz ?x"
    and post: "r = - 1 \<and> \<not> reliable k (bfd_fd f) \<or> r = int (length bs) \<and> stream (world s) = bs @ stream w' \<and>
      lim w' \<le> lim (world s) \<and> (length bs < bsize ?x - sz ?x \<longrightarrow> stream w' = [])"
    using read_all_ok [OF src] by blast
  let ?m = "buffered f @ bs @ drop (length bs + sz ?x) (bytes ?x)"
  let ?f = "\<lambda>n. f\<lparr>bfd_b := ?x\<lparr>bytes := ?m, data := 0, sz := n\<rparr>\<rparr>"
  have lb: "length (buffered f) = sz ?x" using f by simp
  have eq: "brefill k f s = Some (if r < 0 then (- 1, ?f (sz ?x), s\<lparr>world := w'\<rparr>)
      else if r = 0 then (0, ?f (sz ?x), s\<lparr>world := w'\<rparr>)
      else (1, ?f (sz ?x + nat r), s\<lparr>world := w'\<rparr>))"
    using ok rd len lb by (auto simp: brefill_def mem_read_def mem_write_def Let_def buffered_def [symmetric])
  have okf: "bfd_ok (?f n)" if "n \<le> bsize ?x" for n
    using that f ok len lb by (auto simp: bfd_ok_def)
  have bf: "buffered (?f (sz ?x)) = buffered f" "buffered (?f (sz ?x + length bs)) = buffered f @ bs"
    using lb by (simp_all add: buffered_upd)
  have sz: "sz ?x \<le> bsize ?x" using ok by simp
  consider "r = - 1" "\<not> reliable k (bfd_fd f)"
    | "r = 0" "bs = []" "stream (world s) = stream w'" "0 < bsize ?x - sz ?x \<longrightarrow> stream w' = []"
    | "r > 0" "r = int (length bs)" "stream (world s) = bs @ stream w'" "length bs < bsize ?x - sz ?x \<longrightarrow> stream w' = []"
    using post by fastforce
  then show ?thesis
  proof cases
    case 1
    then show ?thesis using eq okf [OF sz] by simp
  next
    case 2
    then show ?thesis using eq okf [OF sz] bf by (simp add: pending_def)
  next
    case 3
    then have "sz ?x + length bs \<le> bsize ?x" using len sz by linarith
    from okf [OF this] 3 show ?thesis using eq bf len by (simp add: pending_def)
  qed
qed

lemma bextend_ok:
  assumes mm: "memory_ok k stream" and f: "bfd_ok f" and full: "sz (bfd_b f) = bsize (bfd_b f)"
  shows "\<exists>r f' s'. bextend k f s = Some (r, f', s') \<and> bfd_ok f' \<and> bfd_fd f' = bfd_fd f \<and> flush_failed s' = flush_failed s \<and>
     (if r \<noteq> 0 then \<not> reliable k (bfd_fd f) \<or> bsize (bfd_b f) = BFD_MAX_DYNAMIC_SIZE
      else pending stream f' s' = pending stream f s \<and> buffered f' = buffered f \<and> data (bfd_b f') = 0 \<and>
           bsize (bfd_b f') = bsize (bfd_b f) * 2)"
proof -
  let ?x = "bfd_b f"
  have ok: "data ?x = 0" "length (bytes ?x) = bsize ?x" using f full by (auto simp: bfd_ok_def)
  have bf: "buffered f = bytes ?x" using ok full by (simp add: buffered_def)
  show ?thesis
  proof (cases "bsize ?x * 2 > BFD_MAX_DYNAMIC_SIZE")
    case True
    then show ?thesis using bfd_ok_full [OF f] f by (simp add: bextend_def Let_def)
  next
    case False
    then obtain i where i: "i \<le> 9" "bsize ?x * 2 = BUFSIZE * 2 ^ i" using bfd_ok_double [OF f] by auto
    show ?thesis
    proof (cases "buf ?x")
      case None
      obtain r w where mr: "op_mremap k (mem ?x) (bsize ?x) (bsize ?x * 2) (world s) = (r, w)" by force
      have st: "stream w = stream (world s)" using mm mr by (metis memory_ok_def snd_conv)
      show ?thesis
      proof (cases r)
        case r: None
        have "\<not> reliable k (bfd_fd f)" using mr r unfolding reliable_def by (metis fst_conv)
        then show ?thesis using None mr r False f by (simp add: bextend_def Let_def)
      next
        case (Some m)
        then show ?thesis using None mr False ok full i st bf
          by (auto simp: bextend_def Let_def bfd_ok_def pending_def buffered_def)
      qed
    next
      case (Some h)
      obtain r w where mr: "op_mmap k (bsize ?x * 2) (world s) = (r, w)" by force
      have st: "stream w = stream (world s)" using mm mr by (metis memory_ok_def snd_conv)
      show ?thesis
      proof (cases r)
        case r: None
        have "\<not> reliable k (bfd_fd f)" using mr r unfolding reliable_def by (metis fst_conv)
        then show ?thesis using Some mr r False f by (simp add: bextend_def Let_def)
      next
        case r: (Some m)
        then show ?thesis using Some mr False ok full i st bf
          by (auto simp: bextend_def Let_def bfd_ok_def pending_def buffered_def mem_read_def mem_write_def)
      qed
    qed
  qed
qed

lemma strnchr_None: "strnchr xs c = None \<longleftrightarrow> c \<notin> set xs"
  by (induction xs) auto

lemma strnchr_Some: "strnchr xs c = Some n \<Longrightarrow> n < length xs \<and> xs ! n = c \<and> c \<notin> set (take n xs)"
  by (induction xs arbitrary: n) (auto split: if_splits)

text \<open>The next line of a stream, and the rest.\<close>

definition spec_line :: "u8 \<Rightarrow> u8 list \<Rightarrow> line \<times> u8 list" where
  "spec_line c bs = (if bs = [] then (NoLine, []) else (Line (takeWhile (\<lambda>x. x \<noteq> c) bs), tl (dropWhile (\<lambda>x. x \<noteq> c) bs)))"

lemma spec_line_found: "c \<notin> set xs \<Longrightarrow> spec_line c (xs @ c # ys) = (Line xs, ys)"
  by (induction xs) (auto simp: spec_line_def split: if_splits)

lemma spec_line_last: "c \<notin> set xs \<Longrightarrow> xs \<noteq> [] \<Longrightarrow> spec_line c xs = (Line xs, [])"
  by (auto simp: spec_line_def dropWhile_eq_Nil_conv takeWhile_eq_all_conv intro!: arg_cong [of _ "[]" tl, simplified])

text \<open>The three ways out of a scan of the buffer.\<close>

lemma scan_split:
  assumes "length bs = n" and "ss \<le> n" and "c \<notin> set (take ss bs)" and "strnchr (drop ss bs) c = Some i"
  shows "bs = take (ss + i) bs @ c # drop (ss + i + 1) bs \<and> c \<notin> set (take (ss + i) bs) \<and> ss + i < n"
proof -
  have i: "i < length (drop ss bs)" "drop ss bs ! i = c" "c \<notin> set (take i (drop ss bs))"
    using strnchr_Some [OF assms(4)] by auto
  then have "ss + i < n" "bs ! (ss + i) = c" using assms by (auto simp: nth_drop)
  then have "bs = take (ss + i) bs @ c # drop (ss + i + 1) bs" using assms(1) id_take_nth_drop [of "ss + i" bs] by simp
  moreover have "c \<notin> set (take (ss + i) bs)" using i(3) assms(3) by (auto simp: take_add)
  ultimately show ?thesis using \<open>ss + i < n\<close> by blast
qed

lemma buffered_scan:
  "bfd_ok f \<Longrightarrow> ss \<le> sz (bfd_b f) \<Longrightarrow>
   mem_read (bytes (bfd_b f)) (data (bfd_b f) + ss) (sz (bfd_b f) - ss) = Some (drop ss (buffered f))"
  by (auto simp: mem_read_def bfd_ok_def buffered_def drop_take add.commute)

lemma breadchr_found:
  assumes f: "bfd_ok f" and ss: "ss \<le> sz (bfd_b f)" "c \<notin> set (take ss (buffered f))"
    and n: "strnchr (drop ss (buffered f)) c = Some n"
  shows "\<exists>r f'. breadchr_again k f c refilled ss s = Some (r, f', s) \<and> bfd_ok f' \<and> bfd_fd f' = bfd_fd f \<and> r \<noteq> EIO \<and>
           (r, pending stream f' s) = spec_line c (pending stream f s)"
proof -
  let ?x = "bfd_b f" and ?l = "ss + n"
  have sp: "buffered f = take ?l (buffered f) @ c # drop (?l + 1) (buffered f)" "c \<notin> set (take ?l (buffered f))"
      "?l < sz ?x"
    using scan_split [OF length_buffered [OF f] ss n] by auto
  have ok: "data ?x + sz ?x \<le> bsize ?x" "length (bytes ?x) = bsize ?x" using f by (auto simp: bfd_ok_def)
  let ?bs = "take (data ?x + ?l) (bytes ?x) @ 0 # drop (data ?x + ?l + 1) (bytes ?x)"
  have wr: "mem_write (bytes ?x) (data ?x + ss + n) [0] = Some ?bs"
    using ok sp(3) by (simp add: mem_write_def add.assoc)
  have rd: "mem_read ?bs (data ?x) (data ?x + ss + n - data ?x) = Some (take ?l (buffered f))"
    using ok sp(3) by (simp add: mem_read_def buffered_def add.assoc min_def take_drop)
  let ?f = "f\<lparr>bfd_b := ?x\<lparr>bytes := ?bs, data := data ?x + ss + n + 1, sz := sz ?x - (?l + 1)\<rparr>\<rparr>"
  have bf: "buffered ?f = drop (?l + 1) (buffered f)"
    using ok sp(3) by (simp add: buffered_def drop_take add.commute add.left_commute min_def)
  have "breadchr_again k f c refilled ss s = Some (Line (take ?l (buffered f)), ?f, s)"
    using buffered_scan [OF f ss(1)] n wr rd by (subst breadchr_again.simps) (simp add: Let_def add.assoc)
  moreover have "bfd_ok ?f" using f ok sp(3) by (auto simp: bfd_ok_def)
  moreover have "spec_line c (pending stream f s) = (Line (take ?l (buffered f)), pending stream ?f s)"
    using spec_line_found [OF sp(2)] bf sp(1) by (metis append.assoc append_Cons pending_def)
  ultimately show ?thesis by fastforce
qed

lemma breadchr_last:
  assumes f: "bfd_ok f" and ss: "ss \<le> sz (bfd_b f)" "c \<notin> set (buffered f)"
    and eof: "data (bfd_b f) = 0" "sz (bfd_b f) < bsize (bfd_b f)" "stream (world s) = []"
  shows "\<exists>r f'. breadchr_again k f c True ss s = Some (r, f', s) \<and> bfd_ok f' \<and> bfd_fd f' = bfd_fd f \<and> r \<noteq> EIO \<and>
           (r, pending stream f' s) = spec_line c (pending stream f s)"
proof -
  let ?x = "bfd_b f"
  have none: "strnchr (drop ss (buffered f)) c = None" using ss(2) by (auto simp: strnchr_None dest: in_set_dropD)
  have ok: "data ?x + sz ?x \<le> bsize ?x" "length (bytes ?x) = bsize ?x" using f by (auto simp: bfd_ok_def)
  show ?thesis
  proof (cases "sz ?x = 0")
    case True
    then have "pending stream f s = []" using eof(3) by (simp add: pending_def buffered_def)
    then show ?thesis using buffered_scan [OF f ss(1)] none True f
      by (subst breadchr_again.simps) (simp add: Let_def spec_line_def)
  next
    case False
    let ?bs = "take (sz ?x) (bytes ?x) @ 0 # drop (sz ?x + 1) (bytes ?x)"
    let ?f = "f\<lparr>bfd_b := ?x\<lparr>bytes := ?bs, sz := 0\<rparr>\<rparr>"
    have "mem_write (bytes ?x) (data ?x + sz ?x) [0] = Some ?bs" using ok eof by (simp add: mem_write_def)
    moreover have "mem_read ?bs (data ?x) (sz ?x) = Some (buffered f)"
      using ok eof by (simp add: mem_read_def buffered_def)
    ultimately have "breadchr_again k f c True ss s = Some (Line (buffered f), ?f, s)"
      using buffered_scan [OF f ss(1)] none False eof(2) by (subst breadchr_again.simps) (simp add: Let_def)
    moreover have "bfd_ok ?f" using f ok eof by (auto simp: bfd_ok_def)
    moreover have "pending stream f s = buffered f" "pending stream ?f s = []" "buffered f \<noteq> []"
      using eof False length_buffered [OF f] by (auto simp: pending_def buffered_upd)
    ultimately show ?thesis using spec_line_last [OF ss(2)] by fastforce
  qed
qed

definition line_post :: "'w bfd_ops \<Rightarrow> ('w \<Rightarrow> u8 list) \<Rightarrow> int \<Rightarrow> u8 \<Rightarrow> u8 list \<Rightarrow> line \<times> bfd \<times> 'w bfd_state \<Rightarrow> bool" where
  "line_post k stream d c old = (\<lambda>(r, f, s). bfd_ok f \<and> bfd_fd f = d \<and>
     (if r = EIO then \<not> reliable k d \<or> BFD_MAX_DYNAMIC_SIZE \<le> length old \<and> c \<notin> set (take BFD_MAX_DYNAMIC_SIZE old)
      else (r, pending stream f s) = spec_line c old))"

lemma breadchr_refill:
  assumes src: "source_ok k (bfd_fd f) stream lim" and f: "bfd_ok f" and c: "c \<notin> set (buffered f)"
    and again: "\<And>f' s'. bfd_ok f' \<Longrightarrow> bfd_fd f' = bfd_fd f \<Longrightarrow> bsize (bfd_b f') = bsize (bfd_b f) \<Longrightarrow>
      data (bfd_b f') = 0 \<Longrightarrow> (sz (bfd_b f') < bsize (bfd_b f') \<Longrightarrow> stream (world s') = []) \<Longrightarrow>
      sz (bfd_b f) \<le> sz (bfd_b f') \<Longrightarrow> c \<notin> set (take (sz (bfd_b f)) (buffered f')) \<Longrightarrow>
      pending stream f' s' = pending stream f s \<Longrightarrow>
      \<exists>z. breadchr_again k f' c True (sz (bfd_b f)) s' = Some z \<and> line_post k stream (bfd_fd f) c (pending stream f s) z"
  shows "\<exists>z. (do { (r, f', s') \<leftarrow> brefill k f s;
                 if r < 0 then Some (EIO, f', s') else breadchr_again k f' c True (sz (bfd_b f)) s' }) = Some z \<and>
           line_post k stream (bfd_fd f) c (pending stream f s) z"
proof -
  obtain r f' s' where rf: "brefill k f s = Some (r, f', s')" and f': "bfd_ok f'" "bfd_fd f' = bfd_fd f"
      "bsize (bfd_b f') = bsize (bfd_b f)" "data (bfd_b f') = 0"
    and post: "if r < 0 then r = - 1 \<and> \<not> reliable k (bfd_fd f)
      else pending stream f' s' = pending stream f s \<and> prefix (buffered f) (buffered f') \<and>
           (sz (bfd_b f') < bsize (bfd_b f') \<longrightarrow> stream (world s') = []) \<and>
           (r = 0 \<longrightarrow> buffered f' = buffered f) \<and> (r > 0 \<longrightarrow> sz (bfd_b f) < sz (bfd_b f'))"
    using brefill_ok [OF src f, of s] by blast
  show ?thesis
  proof (cases "r < 0")
    case True
    then show ?thesis using rf f' post by (simp add: line_post_def)
  next
    case False
    then have p: "pending stream f' s' = pending stream f s" "prefix (buffered f) (buffered f')"
        "sz (bfd_b f') < bsize (bfd_b f') \<Longrightarrow> stream (world s') = []" using post by auto
    have "take (sz (bfd_b f)) (buffered f') = buffered f" using p(2) length_buffered [OF f] by (auto simp: prefix_def)
    moreover have "sz (bfd_b f) \<le> sz (bfd_b f')"
      using prefix_length_le [OF p(2)] f f'(1) by simp
    ultimately show ?thesis using again [OF f' p(3)] p(1) c rf False by simp
  qed
qed

lemma breadchr_again_ok:
  assumes "source_ok k (bfd_fd f) stream lim" and mm: "memory_ok k stream" and "bfd_ok f"
    and "ss \<le> sz (bfd_b f)" and "c \<notin> set (take ss (buffered f))"
    and "refilled \<Longrightarrow> data (bfd_b f) = 0 \<and> (sz (bfd_b f) < bsize (bfd_b f) \<longrightarrow> stream (world s) = [])"
  shows "\<exists>z. breadchr_again k f c refilled ss s = Some z \<and> line_post k stream (bfd_fd f) c (pending stream f s) z"
  using assms(1,3-)
proof (induction "(if refilled then 0 else 1) + (BFD_MAX_DYNAMIC_SIZE - bsize (bfd_b f))" arbitrary: f refilled ss s
    rule: less_induct)
  case less
  note src = less(2) and f = less(3) and ss = less(4,5)
  let ?x = "bfd_b f"
  show ?case
  proof (cases "strnchr (drop ss (buffered f)) c")
    case (Some n)
    from breadchr_found [OF f ss Some, of k refilled s stream] show ?thesis by (auto simp: line_post_def)
  next
    case None
    then have "c \<notin> set (drop ss (buffered f))" by (simp add: strnchr_None)
    then have c: "c \<notin> set (buffered f)" using ss(2) by (metis UnE append_take_drop_id set_append)
    note unf = breadchr_again.simps [of k f c refilled ss s] and scan = buffered_scan [OF f ss(1)]
    have step: "\<exists>z. (do { (r, g', t') \<leftarrow> brefill k g t;
             if r < 0 then Some (EIO, g', t') else breadchr_again k g' c True (sz (bfd_b g)) t' }) = Some z \<and>
           line_post k stream (bfd_fd f) c (pending stream f s) z"
      if g: "bfd_ok g" "bfd_fd g = bfd_fd f" "c \<notin> set (buffered g)"
        and m: "BFD_MAX_DYNAMIC_SIZE - bsize (bfd_b g) < (if refilled then 0 else 1) + (BFD_MAX_DYNAMIC_SIZE - bsize ?x)"
        and p: "pending stream g t = pending stream f s" for g t
    proof -
      have src': "source_ok k (bfd_fd g) stream lim" using src g(2) by simp
      have again: "\<exists>z. breadchr_again k g' c True (sz (bfd_b g)) t' = Some z \<and> line_post k stream (bfd_fd g) c (pending stream g t) z"
        if "bfd_ok g'" "bfd_fd g' = bfd_fd g" "bsize (bfd_b g') = bsize (bfd_b g)" "data (bfd_b g') = 0"
          "sz (bfd_b g') < bsize (bfd_b g') \<Longrightarrow> stream (world t') = []" "sz (bfd_b g) \<le> sz (bfd_b g')"
          "c \<notin> set (take (sz (bfd_b g)) (buffered g'))" "pending stream g' t' = pending stream g t" for g' t'
        using less(1) [of True g' "sz (bfd_b g)" t'] that m src' by simp
      show ?thesis unfolding g(2) [symmetric] p [symmetric]
        by (rule breadchr_refill [OF src' g(1,3)]) (rule again)
    qed
    consider (first) "\<not> refilled" | (last) "refilled" "sz ?x \<noteq> bsize ?x" | (full) "refilled" "sz ?x = bsize ?x" by blast
    then show ?thesis
    proof cases
      case first
      with step [OF f refl c _ refl] show ?thesis unfolding unf using scan None by (simp add: Let_def)
    next
      case last
      then have "sz ?x < bsize ?x" using f by (auto simp: bfd_ok_def)
      then show ?thesis using breadchr_last [OF f ss(1) c, of stream s k] less(6) last by (auto simp: line_post_def)
    next
      case full
      obtain r f' s' where ex: "bextend k f s = Some (r, f', s')" and f': "bfd_ok f'" "bfd_fd f' = bfd_fd f"
        and post: "if r \<noteq> 0 then \<not> reliable k (bfd_fd f) \<or> bsize ?x = BFD_MAX_DYNAMIC_SIZE
          else pending stream f' s' = pending stream f s \<and> buffered f' = buffered f \<and> data (bfd_b f') = 0 \<and>
               bsize (bfd_b f') = bsize ?x * 2"
        using bextend_ok [OF mm f full(2), of s] by blast
      have nz: "sz ?x \<noteq> 0" using full bfd_ok_bsize [OF f] by auto
      show ?thesis
      proof (cases "r = 0")
        case False
        have "bsize ?x = BFD_MAX_DYNAMIC_SIZE \<Longrightarrow> take BFD_MAX_DYNAMIC_SIZE (pending stream f s) = buffered f"
          using length_buffered [OF f] full by (simp add: pending_def)
        moreover have "bsize ?x = BFD_MAX_DYNAMIC_SIZE \<Longrightarrow> BFD_MAX_DYNAMIC_SIZE \<le> length (pending stream f s)"
          using length_buffered [OF f] full by (simp add: pending_def)
        ultimately show ?thesis unfolding unf using scan None full nz ex False f' post c
          by (auto simp: Let_def line_post_def)
      next
        case True
        then have p: "pending stream f' s' = pending stream f s" "buffered f' = buffered f"
            "bsize (bfd_b f') = bsize ?x * 2" using post by auto
        have "BFD_MAX_DYNAMIC_SIZE - bsize (bfd_b f') < BFD_MAX_DYNAMIC_SIZE - bsize ?x"
          using bfd_ok_bsize [OF f] bfd_ok_bsize [OF f'(1)] p(3) by linarith
        with step [OF f' _ _ p(1)] c p(2)
          show ?thesis unfolding unf using scan None full nz ex True by (simp add: Let_def)
      qed
    qed
  qed
qed

text \<open>What \<^verbatim>\<open>bread\<close> can still return: a raw file has no buffer.\<close>

definition to_read :: "('w \<Rightarrow> u8 list) \<Rightarrow> bfd \<Rightarrow> 'w bfd_state \<Rightarrow> u8 list" where
  "to_read stream f s = (if bfd_buffered f then pending stream f s else stream (world s))"

lemma bread_loop_ok:
  assumes "source_ok k (bfd_fd f) stream lim" and "bfd_ok f" and "length acc \<le> n"
  shows "\<exists>r bs f' s'. bread_loop k f n acc s = Some (r, bs, f', s') \<and> bfd_ok f' \<and> mem (bfd_b f') = mem (bfd_b f) \<and>
     (if r < 0 then \<not> reliable k (bfd_fd f)
      else r = int (length bs) \<and> bs = acc @ take (n - length acc) (pending stream f s) \<and>
           pending stream f' s' = drop (n - length acc) (pending stream f s))"
  using assms
proof (induction "2 * (n - length acc) + (if sz (bfd_b f) = 0 then 1 else 0)" arbitrary: f acc s rule: less_induct)
  case less
  let ?x = "bfd_b f" and ?P = "pending stream f s"
  define c where "c = min (n - length acc) (sz ?x)"
  let ?f = "f\<lparr>bfd_b := ?x\<lparr>data := data ?x + c, sz := sz ?x - c\<rparr>\<rparr>" and ?acc = "acc @ take c ?P"
  have lb: "length (buffered f) = sz ?x" and ok: "data ?x + sz ?x \<le> bsize ?x" "length (bytes ?x) = bsize ?x"
    using less(3) by (auto simp: bfd_ok_def buffered_def)
  have rd: "mem_read (bytes ?x) (data ?x) c = Some (take c ?P)"
    using ok by (auto simp: mem_read_def pending_def buffered_def min_def c_def)
  have c_le: "c \<le> sz ?x" "c \<le> n - length acc" by (simp_all add: c_def)
  have f: "bfd_ok ?f" using less(3) c_le by (auto simp: bfd_ok_def)
  have P: "pending stream ?f s = drop c ?P"
    using lb c_le by (simp add: pending_def buffered_upd) (simp add: buffered_def drop_take add.commute)
  have len: "length (take c ?P) = c" using lb c_le by (simp add: pending_def)
  have unf: "bread_loop k f n acc s =
      (if length acc + c < n then
         do { (more, f, s) \<leftarrow> brefill k ?f s;
              if more > 0 then bread_loop k f n ?acc s
              else Some (if more < 0 then more else int (length ?acc), ?acc, f, s) }
       else Some (int (length ?acc), ?acc, ?f, s))"
    unfolding bread_loop.simps [of k f n acc s] Let_def c_def [symmetric] rd bind.bind_lunit length_append len by (rule refl)
  show ?case
  proof (cases "length acc + c < n")
    case False
    then have c: "c = n - length acc" using c_le by linarith
    have "bread_loop k f n acc s = Some (int (length ?acc), ?acc, ?f, s)"
      using unf False by simp
    then show ?thesis using f P c by simp
  next
    case True
    then have c: "c = sz ?x" "sz ?x < n - length acc" by (auto simp: c_def min_def split: if_splits)
    have src: "source_ok k (bfd_fd ?f) stream lim" using less(2) by simp
    from brefill_ok [OF src f, of s] obtain r f' s' where rf: "brefill k ?f s = Some (r, f', s')"
      and f0: "bfd_ok f'" "bfd_fd f' = bfd_fd ?f" "mem (bfd_b f') = mem (bfd_b ?f)"
      and post: "if r < 0 then r = - 1 \<and> \<not> reliable k (bfd_fd ?f)
        else pending stream f' s' = pending stream ?f s \<and> prefix (buffered ?f) (buffered f') \<and>
           (sz (bfd_b f') < bsize (bfd_b f') \<longrightarrow> stream (world s') = []) \<and>
           (r = 0 \<longrightarrow> buffered f' = buffered ?f) \<and> (r > 0 \<longrightarrow> sz (bfd_b ?f) < sz (bfd_b f'))"
      by blast
    have f': "bfd_ok f'" "bfd_fd f' = bfd_fd f" "mem (bfd_b f') = mem ?x" using f0 by simp_all
    have unf: "bread_loop k f n acc s =
        (if r > 0 then bread_loop k f' n ?acc s'
         else Some (if r < 0 then r else int (length ?acc), ?acc, f', s'))"
      using unf True rf by simp
    consider "r < 0" | "r = 0" | "r > 0" by linarith
    then show ?thesis
    proof cases
      case 1
      then show ?thesis using unf post f' by simp
    next
      case 2
      then have e: "pending stream f' s' = drop (sz ?x) ?P" "buffered f' = []" using post P c by (auto simp: buffered_upd)
      then have "sz (bfd_b f') = 0" using length_buffered [OF f'(1)] by simp
      then have "stream (world s') = []" using post 2 bfd_ok_bsize [OF f'(1)] by simp
      then have d: "drop (sz ?x) ?P = []" using e unfolding pending_def by simp
      then have "take c ?P = take (n - length acc) ?P" "drop (n - length acc) ?P = []" using c by simp_all
      then show ?thesis using unf 2 f' e(1) d by simp
    next
      case 3
      then have sz: "sz (bfd_b f') > 0" and P': "pending stream f' s' = drop (sz ?x) ?P" using post P c by auto
      have m: "2 * (n - length ?acc) + (if sz (bfd_b f') = 0 then 1 else 0)
          < 2 * (n - length acc) + (if sz ?x = 0 then 1 else 0)" using sz c len by (simp, linarith)
      have "length ?acc \<le> n" using len True by simp
      moreover have "source_ok k (bfd_fd f') stream lim" using less(2) f' by simp
      ultimately obtain r' bs g t where
        bl: "bread_loop k f' n ?acc s' = Some (r', bs, g, t)" and g: "bfd_ok g" "mem (bfd_b g) = mem (bfd_b f')"
        and p: "if r' < 0 then \<not> reliable k (bfd_fd f')
          else r' = int (length bs) \<and> bs = ?acc @ take (n - length ?acc) (pending stream f' s') \<and>
            pending stream g t = drop (n - length ?acc) (pending stream f' s')"
        using less(1) [OF m _ f'(1), of s'] by blast
      have l: "n - length ?acc = n - length acc - sz ?x" "length acc + sz ?x \<le> n" using len c by simp_all
      have tk: "take (sz ?x) ?P @ take (n - length acc - sz ?x) (drop (sz ?x) ?P) = take (n - length acc) ?P"
        using l(2) by (simp flip: take_add)
      show ?thesis using unf 3 bl g p P' c l tk f' by auto
    qed
  qed
qed

section \<open>Writing\<close>

definition wr_ok :: "bfd \<Rightarrow> bool" where
  "wr_ok f \<longleftrightarrow> data (bfd_b f) = 0 \<and> sz (bfd_b f) \<le> bsize (bfd_b f) \<and> length (bytes (bfd_b f)) = bsize (bfd_b f)"

text \<open>What the file will hold.\<close>

definition written :: "('w \<Rightarrow> u8 list) \<Rightarrow> bfd \<Rightarrow> 'w bfd_state \<Rightarrow> u8 list" where
  "written out f s = out (world s) @ buffered f"





text \<open>The loop over the vectors: it stops in a vector, or in front of one, at the byte that is next.\<close>

lemma iov_advance_ok:
  assumes "n \<le> length (concat iov)" and "n = 0 \<longrightarrow> off = 0"
  shows "\<exists>iov' off'. iov_advance iov off n = Some (iov', off') \<and> drop n (concat iov) = drop off' (concat iov') \<and>
           (off' = 0 \<or> iov' \<noteq> [] \<and> off' < length (hd iov')) \<and> suffix iov' iov \<and>
           (n > 0 \<and> iov' = [] \<longrightarrow> last iov \<noteq> [])"
  using assms
proof (induction iov off n rule: iov_advance.induct)
  case (3 v vs off n)
  show ?case
  proof (cases "length v > Suc n")
    case False
    have "\<exists>iov' off'. iov_advance vs 0 (Suc n - length v) = Some (iov', off') \<and>
           drop (Suc n - length v) (concat vs) = drop off' (concat iov') \<and>
           (off' = 0 \<or> iov' \<noteq> [] \<and> off' < length (hd iov')) \<and> suffix iov' vs \<and>
           (Suc n - length v > 0 \<and> iov' = [] \<longrightarrow> last vs \<noteq> [])" using 3 False by auto
    then obtain iov' off' where *: "iov_advance vs 0 (Suc n - length v) = Some (iov', off')"
        "drop (Suc n - length v) (concat vs) = drop off' (concat iov')"
        "off' = 0 \<or> iov' \<noteq> [] \<and> off' < length (hd iov')" "suffix iov' vs"
        "Suc n - length v > 0 \<and> iov' = [] \<longrightarrow> last vs \<noteq> []" by blast
    have "iov' = [] \<longrightarrow> last (v # vs) \<noteq> []"
    proof (cases "Suc n - length v > 0")
      case True
      then have "vs \<noteq> []" using 3(2) by auto
      then show ?thesis using * True by simp
    next
      case full: False
      then have "iov' = vs" "length v > 0" using * False by auto
      then show ?thesis by auto
    qed
    then show ?thesis using * False by (auto intro: suffix_ConsI)
  qed auto
qed auto

lemma bwritev_raw_ok:
  assumes snk: "vsink_ok k f out" and go: "\<And>iov w. \<exists>n. fst (op_writev k f iov w) = Got n"
    and "iov \<noteq> [] \<or> off = 0" and "off = 0 \<or> off < length (hd iov)"
  shows "\<exists>r w'. bwritev_raw k f iov off n w = Some (r, w') \<and> out w' = out w @ drop off (concat iov) \<and>
           r = (if iov \<noteq> [] \<and> last iov = [] then - 1 else int (n + (length (concat iov) - off)))"
  using assms(3,4)
proof (induction "length (drop off (concat iov))" arbitrary: iov off n w rule: less_induct)
  case less
  show ?case
  proof (cases iov)
    case Nil
    then show ?thesis using less by (subst bwritev_raw.simps) simp
  next
    case (Cons v vs)
    have cat: "concat (drop off v # vs) = drop off (concat iov)" using less(3) Cons by auto
    obtain ret w1 where wr: "op_writev k f (drop off v # vs) w = (Got ret, w1)" using go by (metis prod.collapse)
    have law: "ret \<le> length (drop off (concat iov))" "out w1 = out w @ take ret (drop off (concat iov))"
        "drop off (concat iov) \<noteq> [] \<Longrightarrow> ret > 0"
      using snk [unfolded vsink_ok_def, rule_format, of w "drop off v # vs"] wr unfolding cat by simp_all
    show ?thesis
    proof (cases "ret = 0")
      case True
      then have e: "drop off (concat iov) = []" using law by auto
      then have "off = 0" using less(3) Cons by auto
      then have "last iov = []" using e Cons by (auto simp: last_ConsR)
      then show ?thesis using wr True Cons law(2) e by (subst bwritev_raw.simps) simp
    next
      case False
      then have "ret + off \<le> length (concat iov)" using law(1) less(3) by simp
      from iov_advance_ok [OF this, of off] False obtain iov' off' where
        ad: "iov_advance iov off (ret + off) = Some (iov', off')" "drop (ret + off) (concat iov) = drop off' (concat iov')"
          "off' = 0 \<or> iov' \<noteq> [] \<and> off' < length (hd iov')" "suffix iov' iov" "iov' = [] \<longrightarrow> last iov \<noteq> []" by auto
      have m: "length (drop off' (concat iov')) < length (drop off (concat iov))"
        using False law(1) ad(2) by (metis (no_types) add.commute add_leD2 drop_drop length_drop diff_less less_le_trans neq0_conv)
      from less(1) [OF m, of "n + ret" w1] ad(3) obtain r w' where
        rec: "bwritev_raw k f iov' off' (n + ret) w1 = Some (r, w')" "out w' = out w1 @ drop off' (concat iov')"
          "r = (if iov' \<noteq> [] \<and> last iov' = [] then - 1 else int (n + ret + (length (concat iov') - off')))" by auto
      have unf: "bwritev_raw k f iov off n w = Some (r, w')"
        using wr False Cons ad(1) rec(1) by (subst bwritev_raw.simps) simp
      have o: "out w' = out w @ drop off (concat iov)"
        using rec(2) law(2) ad(2) by (metis add.commute append.assoc append_take_drop_id drop_drop)
      have l: "iov' \<noteq> [] \<Longrightarrow> last iov' = last iov" using ad(4) by (auto simp: suffix_def)
      have "length (concat iov') - off' = length (concat iov) - (ret + off)" using ad(2) by (metis length_drop)
      then have "r = (if iov \<noteq> [] \<and> last iov = [] then - 1 else int (n + (length (concat iov) - off)))"
        using rec(3) l ad(5) law(1) Cons by (cases "iov' = []") auto
      then show ?thesis using unf o by blast
    qed
  qed
qed


section \<open>Properties\<close>

text \<open>C11: \<^verbatim>\<open>breadchr\<close> (and \<^verbatim>\<open>breadline\<close>, which calls it with a newline) returns, however the kernel cuts its reads and
  however often they are interrupted.  It returns the next line of what is left of the file and leaves the
  rest; at the end of the file it returns the last line without its terminator, then the null pointer.
  The error comes only with a failed system call or with a line that does not fit in
  \<^verbatim>\<open>BFD_MAX_DYNAMIC_SIZE\<close> bytes, and every access is within the buffer.\<close>

theorem breadchr_next_line:
  assumes "source_ok k (bfd_fd f) stream lim" and "memory_ok k stream" and "bfd_ok f"
  shows "\<exists>r f' s'. breadchr k f c s = Some (r, f', s') \<and> bfd_ok f' \<and> bfd_fd f' = bfd_fd f \<and>
     (if r = EIO
      then \<not> reliable k (bfd_fd f) \<or>
        BFD_MAX_DYNAMIC_SIZE \<le> length (pending stream f s) \<and> c \<notin> set (take BFD_MAX_DYNAMIC_SIZE (pending stream f s))
      else (r, pending stream f' s') = spec_line c (pending stream f s))"
  using breadchr_again_ok [OF assms, of 0 c False s] by (auto simp: breadchr_def line_post_def)

text \<open>C12: \<^verbatim>\<open>bread\<close> returns, and without a failed system call it stores the next bytes of the file, as many as asked for or
  all there are, and leaves exactly the rest, for a buffered file and for a raw one.\<close>

theorem bread_next_bytes:
  assumes "source_ok k (bfd_fd f) stream lim" and "bfd_buffered f \<Longrightarrow> bfd_ok f"
  shows "\<exists>r bs f' s'. bread k f n s = Some (r, bs, f', s') \<and> (bfd_buffered f \<longrightarrow> bfd_ok f') \<and>
     (if r < 0 then \<not> reliable k (bfd_fd f)
      else r = int (length bs) \<and> bs = take n (to_read stream f s) \<and> to_read stream f' s' = drop n (to_read stream f s))"
proof (cases "bfd_buffered f")
  case True
  from bread_loop_ok [OF assms(1) assms(2) [OF True], of "[]" n s, unfolded list.size(3) diff_zero append_Nil, OF le0]
  obtain r bs f' s' where
    bl: "bread_loop k f n [] s = Some (r, bs, f', s')" "bfd_ok f'" "mem (bfd_b f') = mem (bfd_b f)"
    and post: "if r < 0 then \<not> reliable k (bfd_fd f)
      else r = int (length bs) \<and> bs = take n (pending stream f s) \<and> pending stream f' s' = drop n (pending stream f s)"
    by blast
  have "bread k f n s = Some (r, bs, f', s')" "bfd_buffered f'" using bl True by (simp_all add: bread_def bfd_buffered_def)
  then show ?thesis using bl(2) post True by (auto simp: to_read_def)
next
  case False
  obtain r bs w' where rd: "read_all k (bfd_fd f) n (world s) = Some (r, bs, w')" and len: "length bs \<le> n"
    and post: "r = - 1 \<and> \<not> reliable k (bfd_fd f) \<or> r = int (length bs) \<and> stream (world s) = bs @ stream w' \<and>
      lim w' \<le> lim (world s) \<and> (length bs < n \<longrightarrow> stream w' = [])"
    using read_all_ok [OF assms(1)] by blast
  then show ?thesis using False by (cases "length bs < n") (auto simp: bread_def to_read_def)
qed


text \<open>C36: On a raw file and when no \<^verbatim>\<open>writev\<close> fails, \<^verbatim>\<open>bwritev\<close> puts all bytes of the vectors in the file, in order and
  however the kernel cuts them.  It returns their number, except when the last vector is empty: then the
  loop does one more \<^verbatim>\<open>writev\<close>, of no bytes, takes its result for a lack of progress, and returns -1
  although everything has been written.\<close>

theorem bwritev_raw_result:
  assumes "vsink_ok k (bfd_fd f) out" and "\<And>iov w. \<exists>n. fst (op_writev k (bfd_fd f) iov w) = Got n"
    and "\<not> bfd_buffered f"
  shows "\<exists>r s'. bwritev k f iov s = Some (r, f, s') \<and> out (world s') = out (world s) @ concat iov \<and>
     r = (if iov \<noteq> [] \<and> last iov = [] then - 1 else int (length (concat iov)))"
  using bwritev_raw_ok [OF assms(1,2), of iov 0 0 "world s"] assms(3) by (auto simp: bwritev_def)

section \<open>Witnesses\<close>

text \<open>A file with the bytes to read and those written, whose calls move at most three bytes.  One read in
  two is interrupted while \<open>d_intr\<close> lasts.\<close>

record demo_file =
  d_in :: "u8 list"
  d_out :: "u8 list"
  d_intr :: nat

definition demo_ops :: "demo_file bfd_ops" where
  "demo_ops = \<lparr>
     op_read = (\<lambda>_ n w. if d_intr w > 0 then (Intr, w\<lparr>d_intr := d_intr w - 1\<rparr>)
                        else (Got (take (min 3 n) (d_in w)), w\<lparr>d_in := drop (min 3 n) (d_in w)\<rparr>)),
     op_write = (\<lambda>_ bs w. if d_intr w > 0 then (Intr, w\<lparr>d_intr := d_intr w - 1\<rparr>)
                          else (Got (min 3 (length bs)), w\<lparr>d_out := d_out w @ take 3 bs\<rparr>)),
     op_writev = (\<lambda>_ iov w. (Got (min 3 (length (concat iov))), w\<lparr>d_out := d_out w @ take 3 (concat iov)\<rparr>)),
     op_mmap = (\<lambda>_ w. (Some 4096, w)),
     op_mremap = (\<lambda>m _ _ w. (Some m, w)),
     op_munmap = (\<lambda>_ _ w. w),
     op_xmalloc = (\<lambda>w. (True, w)),
     op_close = (\<lambda>_ w. w),
     op_page = (\<lambda>_ _. replicate 4096 0)\<rparr>"

definition demo_bfd :: bfd where
  "demo_bfd = \<lparr>bfd_fd = 5, writable = True,
     bfd_b = \<lparr>mem = 4096, data = 0, sz = 0, bsize = 4096, buf = Some 4096, bytes = replicate 4096 0\<rparr>\<rparr>"

definition demo_st :: "demo_file bfd_state" where
  "demo_st = \<lparr>bufs = [], flush_failed = False, world = \<lparr>d_in = [97, 98, 10, 99], d_out = [], d_intr = 2\<rparr>\<rparr>"

lemma demo_source: "source_ok demo_ops d d_in d_intr"
  by (auto simp: source_ok_def demo_ops_def)


lemma demo_vsink: "vsink_ok demo_ops d d_out"
  by (auto simp: vsink_ok_def demo_ops_def min_def simp del: length_concat)

lemma demo_reliable: "reliable demo_ops d" "memory_ok demo_ops d_in"
  by (auto simp: reliable_def memory_ok_def demo_ops_def)

lemma demo_bfd_ok: "bfd_ok demo_bfd" "wr_ok demo_bfd" "bfd_buffered demo_bfd" "writable demo_bfd"
  by (auto simp: bfd_ok_def wr_ok_def bfd_buffered_def demo_bfd_def BUFSIZE_def intro: exI [of _ 0])

lemma demo_pending: "pending d_in demo_bfd demo_st = [97, 98, 10, 99]" "written d_out demo_bfd demo_st = []"
  by (simp_all add: pending_def written_def buffered_def demo_bfd_def demo_st_def)

theorem breadchr_next_line_witness:
  "\<exists>f' s'. breadchr demo_ops demo_bfd 10 demo_st = Some (Line [97, 98], f', s') \<and> pending d_in f' s' = [99]"
proof -
  have "spec_line 10 [97, 98, 10, 99] = (Line [97, 98], [99])" by (simp add: spec_line_def)
  with breadchr_next_line [OF demo_source demo_reliable(2) demo_bfd_ok(1), of 10 demo_st] demo_reliable(1)
  show ?thesis by (auto simp: demo_pending BFD_MAX_DYNAMIC_SIZE_def split: if_splits)
qed

theorem bread_next_bytes_witness:
  "\<exists>f' s'. bread demo_ops demo_bfd 3 demo_st = Some (3, [97, 98, 10], f', s') \<and> to_read d_in f' s' = [99]"
proof -
  have "to_read d_in demo_bfd demo_st = [97, 98, 10, 99]" using demo_bfd_ok(3) demo_pending by (simp add: to_read_def)
  with bread_next_bytes [OF demo_source demo_bfd_ok(1), of 3 demo_st] demo_reliable(1) [of "bfd_fd demo_bfd"]
  show ?thesis by (auto split: if_splits)
qed


theorem bwritev_raw_result_witness:
  "\<exists>s'. bwritev demo_ops (bfd_setraw demo_bfd) [[1, 2, 3, 4], []] demo_st = Some (- 1, bfd_setraw demo_bfd, s') \<and>
     d_out (world s') = [1, 2, 3, 4]"
proof -
  have "\<exists>n. fst (op_writev demo_ops (bfd_fd (bfd_setraw demo_bfd)) iov w) = Got n" for iov w by (simp add: demo_ops_def)
  from bwritev_raw_result [OF demo_vsink this, of "[[1, 2, 3, 4], []]" demo_st]
  show ?thesis by (auto simp: bfd_setraw_def bfd_buffered_def demo_st_def)
qed

end
