(* ===== verification/ServiceFd.thy ===== *)
theory ServiceFd
  imports Prelude
begin

text \<open>
  Service descriptors, \<^verbatim>\<open>criu/servicefd.c\<close>: the descriptors CRIU keeps for itself at the top of the
  descriptor table of a process, one per \<^verbatim>\<open>enum sfd_type\<close> and process of a shared table.  The calls
  that work on the table are the parameter \<open>fd_ops\<close>; \<^verbatim>\<open>BUG_ON\<close> is \<open>None\<close>.
\<close>

section \<open>State\<close>

record 'w fd_ops =
  op_dupfd :: "int \<Rightarrow> int \<Rightarrow> 'w \<Rightarrow> int \<times> 'w"
  op_dup2 :: "int \<Rightarrow> int \<Rightarrow> 'w \<Rightarrow> int \<times> 'w"
  op_dup3_cloexec :: "int \<Rightarrow> int \<Rightarrow> 'w \<Rightarrow> int \<times> 'w"
  op_fdclose :: "int \<Rightarrow> 'w \<Rightarrow> int \<times> 'w"
  op_getrlimit_nofile :: "'w \<Rightarrow> (int \<times> u64) \<times> 'w"
  op_rlimit_unlimit_nofile :: "'w \<Rightarrow> int option \<times> 'w"

text \<open>The values of \<^verbatim>\<open>enum sfd_type\<close> that the code compares with.\<close>

definition SERVICE_FD_MIN :: int where "SERVICE_FD_MIN = 0"
definition LOG_FD_OFF :: int where "LOG_FD_OFF = 1"
definition SERVICE_FD_MAX :: int where "SERVICE_FD_MAX = 16"

text \<open>The set bits of \<^verbatim>\<open>sfd_map\<close> are a set.\<close>

record sfd_state =
  service_fd_rlim_cur :: int
  service_fd_base :: int
  service_fd_id :: int
  sfd_map :: "int set"
  sfd_arr :: "int list"
  sfds_protected :: bool

text \<open>What \<^verbatim>\<open>rsti(item)\<close> gives: \<^verbatim>\<open>fdt->nr\<close> when there is a shared table, the number of the process in it, the
  descriptors of its files in the order of the list, and \<^verbatim>\<open>CLONE_FILES\<close> of \<^verbatim>\<open>clone_flags\<close>.\<close>

record rst_item =
  ri_fdt_nr :: "int option"
  ri_service_fd_id :: int
  ri_fds :: "int list"
  ri_clone_files :: bool

section \<open>Names\<close>

text \<open>The table has no entry for \<^verbatim>\<open>IMG_STREAMER_FD_OFF\<close> (3) and \<^verbatim>\<open>CGROUPD_SK\<close> (10): the null pointer.\<close>

definition sfd_names :: "string option list" where
  "sfd_names = [Some ''SERVICE_FD_MIN'', Some ''LOG_FD_OFF'', Some ''IMG_FD_OFF'', None, Some ''PROC_FD_OFF'',
     Some ''PROC_PID_FD_OFF'', Some ''PROC_SELF_FD_OFF'', Some ''CR_PROC_FD_OFF'', Some ''ROOT_FD_OFF'',
     Some ''CGROUP_YARD'', None, Some ''USERNSD_SK'', Some ''NS_FD_OFF'', Some ''TRANSPORT_FD_OFF'',
     Some ''RPC_SK_OFF'', Some ''FDSTORE_SK_OFF'', Some ''SERVICE_FD_MAX'']"

text \<open>The enumeration is unsigned.\<close>

definition sfd_type_name :: "nat \<Rightarrow> string option" where
  "sfd_type_name type = (if type < length sfd_names then sfd_names ! type else Some ''UNKNOWN'')"

section \<open>Operations\<close>

text \<open>\<^verbatim>\<open>rlimit_unlimit_nofile\<close> of \<^verbatim>\<open>util.c\<close> may set \<^verbatim>\<open>service_fd_rlim_cur\<close>; \<^verbatim>\<open>rlim_cur\<close> is truncated to an int.\<close>

definition init_service_fd :: "'w fd_ops \<Rightarrow> sfd_state \<Rightarrow> 'w \<Rightarrow> int \<times> sfd_state \<times> 'w" where
  "init_service_fd k s w =
     (let (unlimited, w) = op_rlimit_unlimit_nofile k w;
          s = (case unlimited of None \<Rightarrow> s | Some n \<Rightarrow> s\<lparr>service_fd_rlim_cur := n\<rparr>);
          ((ret, rlim_cur), w) = op_getrlimit_nofile k w
      in if ret \<noteq> 0 then (- 1, s, w)
         else (0, s\<lparr>service_fd_rlim_cur := sint (ucast rlim_cur :: u32)\<rparr>, w))"

definition get_service_fd_id :: "sfd_state \<Rightarrow> int \<Rightarrow> int \<Rightarrow> int" where
  "get_service_fd_id s type id' = service_fd_base s - type - SERVICE_FD_MAX * id'"

definition get_service_fd :: "sfd_state \<Rightarrow> int \<Rightarrow> int option" where
  "get_service_fd s type =
     (if type \<le> SERVICE_FD_MIN \<or> type \<ge> SERVICE_FD_MAX then None
      else if type \<notin> sfd_map s then Some (- 1)
      else if service_fd_base s = 0 then arr_get (sfd_arr s) type
      else Some (get_service_fd_id s type (service_fd_id s)))"

definition is_any_service_fd :: "sfd_state \<Rightarrow> int \<Rightarrow> bool" where
  "is_any_service_fd s fd =
     (let sfd_min_fd = get_service_fd_id s SERVICE_FD_MAX (service_fd_id s);
          sfd_max_fd = get_service_fd_id s SERVICE_FD_MIN (service_fd_id s)
      in if fd > sfd_min_fd \<and> fd < sfd_max_fd then
           let type = SERVICE_FD_MAX - (fd - sfd_min_fd)
           in if type > SERVICE_FD_MIN \<and> type < SERVICE_FD_MAX then type \<in> sfd_map s else False
         else False)"

definition is_service_fd :: "sfd_state \<Rightarrow> int \<Rightarrow> int \<Rightarrow> bool option" where
  "is_service_fd s fd type = do { sfd \<leftarrow> get_service_fd s type; Some (fd = sfd) }"

definition service_fd_min_fd :: "sfd_state \<Rightarrow> rst_item \<Rightarrow> int" where
  "service_fd_min_fd s item =
     (let id' = (case ri_fdt_nr item of Some nr \<Rightarrow> nr - 1 | None \<Rightarrow> 0)
      in service_fd_rlim_cur s - (SERVICE_FD_MAX - 1) - SERVICE_FD_MAX * id')"



definition close_service_fd_raw :: "'w fd_ops \<Rightarrow> sfd_state \<Rightarrow> int \<Rightarrow> 'w \<Rightarrow> sfd_state \<times> 'w" where
  "close_service_fd_raw k s type w =
     (s\<lparr>sfd_map := sfd_map s - {type}\<rparr>, snd (op_fdclose k (get_service_fd_id s type (service_fd_id s)) w))"

definition move_service_fd ::
  "'w fd_ops \<Rightarrow> sfd_state \<Rightarrow> rst_item \<Rightarrow> int \<Rightarrow> int \<Rightarrow> int \<Rightarrow> 'w \<Rightarrow> (int \<times> 'w) option" where
  "move_service_fd k s me type new_id new_base w =
     do {
       old \<leftarrow> get_service_fd s type;
       let new = new_base - type - SERVICE_FD_MAX * new_id;
       if old < 0 then Some (0, w)
       else
         let (ret, w) = (if type \<notin> sfd_map s then op_dupfd k old new w else op_dup2 k old new w)
         in if ret = - 1 then Some (- 1, w)
            else if ret \<noteq> new then Some (- 1, w)
            else if \<not> ri_clone_files me then Some (0, snd (op_fdclose k old w))
            else Some (0, w)
     }"

text \<open>\<^verbatim>\<open>32 - __builtin_clz(nr)\<close> for a positive \<^verbatim>\<open>nr\<close>: the number of its bits.\<close>

fun bit_len :: "nat \<Rightarrow> nat" where
  "bit_len n = (if n = 0 then 0 else Suc (bit_len (n div 2)))"

declare bit_len.simps [simp del]

text \<open>\<^verbatim>\<open>nr\<close> is an int: its last product is computed in \<^verbatim>\<open>size_t\<close> and truncated.  \<^verbatim>\<open>1024 / sizeof(void *)\<close> is 128.\<close>

definition int32 :: "int \<Rightarrow> int" where
  "int32 n = sint (word_of_int n :: u32)"

definition service_fd_base_for :: "sfd_state \<Rightarrow> int \<Rightarrow> rst_item \<Rightarrow> int \<Rightarrow> int" where
  "service_fd_base_for s inh_fd_max me fdt_nr =
     (let nr = (if ri_fds me \<noteq> [] then last (ri_fds me) else - 1);
          nr = max nr inh_fd_max;
          nr = nr + (SERVICE_FD_MAX - SERVICE_FD_MIN) * fdt_nr;
          nr = nr + 16;
          real_nr = nr;
          nr = nr div 128;
          nr = (if nr \<noteq> 0 then 2 ^ bit_len (nat nr) else 1);
          nr = int32 (nr * 128)
      in if nr > service_fd_rlim_cur s then
           let nr = service_fd_rlim_cur s div 128 * 128
           in if nr < real_nr then - 1 else nr
         else nr)"

definition choose_service_fd_base :: "sfd_state \<Rightarrow> int \<Rightarrow> rst_item \<Rightarrow> int" where
  "choose_service_fd_base s inh_fd_max me =
     (case ri_fdt_nr me of
        Some nr \<Rightarrow>
          if ri_service_fd_id me \<noteq> 0 then service_fd_base s else service_fd_base_for s inh_fd_max me nr
      | None \<Rightarrow> service_fd_base_for s inh_fd_max me 1)"

text \<open>The loops of \<^verbatim>\<open>clone_service_fd\<close>; the results of \<^verbatim>\<open>move_service_fd\<close> are ignored.\<close>

fun move_service_fds ::
  "'w fd_ops \<Rightarrow> sfd_state \<Rightarrow> rst_item \<Rightarrow> int \<Rightarrow> int \<Rightarrow> int list \<Rightarrow> 'w \<Rightarrow> 'w option" where
  "move_service_fds k s me id' new_base [] w = Some w"
| "move_service_fds k s me id' new_base (i # js) w =
     do { (ret, w) \<leftarrow> move_service_fd k s me i id' new_base w;
          move_service_fds k s me id' new_base js w }"

definition clone_service_fd ::
  "'w fd_ops \<Rightarrow> sfd_state \<Rightarrow> int \<Rightarrow> rst_item \<Rightarrow> 'w \<Rightarrow> (int \<times> sfd_state \<times> 'w) option" where
  "clone_service_fd k s inh_fd_max me w =
     do {
       let new_base = choose_service_fd_base s inh_fd_max me;
       let id' = ri_service_fd_id me;
       if new_base = - 1 then Some (- 1, s, w)
       else do {
         log \<leftarrow> get_service_fd s LOG_FD_OFF;
         let target = new_base - LOG_FD_OFF - SERVICE_FD_MAX * id';
         if log = target then Some (0, s, w)
         else do {
           w \<leftarrow> (if log < target
                 then move_service_fds k s me id' new_base [SERVICE_FD_MIN + 1..SERVICE_FD_MAX - 1] w
                 else move_service_fds k s me id' new_base (rev [SERVICE_FD_MIN + 1..SERVICE_FD_MAX - 1]) w);
           Some (0, s\<lparr>service_fd_base := new_base, service_fd_id := id'\<rparr>, w)
         }
       }
     }"

section \<open>Numbers\<close>

lemma bit_len_bound: "n < 2 ^ bit_len n"
proof (induction n rule: bit_len.induct)
  case (1 n)
  show ?case
  proof (cases "n = 0")
    case False
    then have "n div 2 < 2 ^ bit_len (n div 2)" using 1 by simp
    then have "n < 2 * 2 ^ bit_len (n div 2)" by linarith
    then show ?thesis using False by (subst bit_len.simps) simp
  qed (simp add: bit_len.simps)
qed

lemma bit_len_le: "0 < n \<Longrightarrow> 2 ^ bit_len n \<le> 2 * n"
proof (induction n rule: bit_len.induct)
  case (1 n)
  show ?case
  proof (cases "n div 2 = 0")
    case True
    then have "n = 1" using 1 by auto
    then show ?thesis by (simp add: bit_len.simps)
  next
    case False
    then have "2 ^ bit_len (n div 2) \<le> 2 * (n div 2)" using 1 by simp
    then have "2 * 2 ^ bit_len (n div 2) \<le> 2 * n" by linarith
    then show ?thesis using 1(2) by (subst bit_len.simps) simp
  qed
qed

lemma int32_id: "0 \<le> n \<Longrightarrow> n < 2 ^ 31 \<Longrightarrow> int32 n = n"
  unfolding int32_def by (simp add: signed_take_bit_int_eq_self sint_sbintrunc')

text \<open>The number with the safety pad fits under the base that is chosen.\<close>

lemma service_fd_base_for_ok:
  assumes nr: "nr = max (if ri_fds me \<noteq> [] then last (ri_fds me) else - 1) m" "- 1 \<le> nr" and n: "1 \<le> n"
    and small: "nr + 16 * n + 16 < 2 ^ 29" and lim: "0 \<le> service_fd_rlim_cur s"
    and b: "base = service_fd_base_for s m me n" "base \<noteq> - 1"
  shows "nr + 16 * n + 16 \<le> base \<and> base \<le> service_fd_rlim_cur s \<and> 128 dvd base"
proof -
  let ?r = "nr + 16 * n + 16" and ?L = "service_fd_rlim_cur s"
  define p where "p = (if ?r div 128 \<noteq> 0 then 2 ^ bit_len (nat (?r div 128)) else (1::int))"
  have r: "0 \<le> ?r" using nr n by simp
  have p: "?r div 128 < p \<and> p \<le> 2 * (?r div 128) + 1"
  proof (cases "?r div 128 = 0")
    case False
    then have q: "0 < nat (?r div 128)" using r by linarith
    have e: "int (2 ^ bit_len (nat (?r div 128))) = p" using False by (simp add: p_def)
    have "int (nat (?r div 128)) < p" "p \<le> int (2 * nat (?r div 128))"
      using bit_len_bound [of "nat (?r div 128)"] bit_len_le [OF q] unfolding e [symmetric] by linarith+
    then show ?thesis using r by linarith
  qed (simp add: p_def)
  have up: "?r \<le> p * 128" "p * 128 < 2 ^ 31" "0 \<le> p * 128" using p r small by (simp; linarith)+
  have i: "int32 (p * 128) = p * 128" by (rule int32_id [OF up(3,2)])
  have "base = (if p * 128 > ?L then let x = ?L div 128 * 128 in if x < ?r then - 1 else x else p * 128)"
    unfolding b(1) service_fd_base_for_def Let_def nr(1) [symmetric] SERVICE_FD_MAX_def SERVICE_FD_MIN_def
      diff_zero p_def [symmetric] i by simp
  moreover have "?L div 128 * 128 \<le> ?L" by simp
  ultimately show ?thesis using b(2) up by (auto simp: Let_def split: if_splits)
qed

section \<open>The descriptor table\<close>

text \<open>What \<^verbatim>\<open>dup2(2)\<close> and \<^verbatim>\<open>close(2)\<close> say, for the open files \<open>file\<close> of the table and the limit of its numbers.\<close>

definition fd_table_ok :: "'w fd_ops \<Rightarrow> ('w \<Rightarrow> int \<Rightarrow> 'f option) \<Rightarrow> int \<Rightarrow> bool" where
  "fd_table_ok k file lim \<longleftrightarrow>
     (\<forall>old new w. file w old \<noteq> None \<and> 0 \<le> new \<and> new < lim \<longrightarrow>
        fst (op_dup2 k old new w) = new \<and> file (snd (op_dup2 k old new w)) = (file w)(new := file w old)) \<and>
     (\<forall>d w. file (snd (op_fdclose k d w)) = (file w)(d := None))"

text \<open>The types of the array and the bitmap.\<close>

definition sfd_ok :: "sfd_state \<Rightarrow> bool" where
  "sfd_ok s \<longleftrightarrow> sfd_map s \<subseteq> {SERVICE_FD_MIN <..< SERVICE_FD_MAX} \<and> int (length (sfd_arr s)) = SERVICE_FD_MAX"

lemma get_service_fd_installed:
  "sfd_ok s \<Longrightarrow> service_fd_base s \<noteq> 0 \<Longrightarrow> type \<in> sfd_map s \<Longrightarrow>
   get_service_fd s type = Some (get_service_fd_id s type (service_fd_id s))"
  by (auto simp: sfd_ok_def get_service_fd_def)




lemma clone_types: "set [SERVICE_FD_MIN + 1..SERVICE_FD_MAX - 1] = {SERVICE_FD_MIN <..< SERVICE_FD_MAX}"
  by auto

text \<open>One move, and the loop: \<open>R\<close> says that no descriptor is moved onto one that is still to move.\<close>

lemma move_service_fd_file:
  assumes tab: "fd_table_ok k file lim" and s: "sfd_ok s" "service_fd_base s \<noteq> 0" and t: "t \<in> sfd_map s"
    and p: "p = get_service_fd_id s t (service_fd_id s)" "0 \<le> p" "file w p \<noteq> None"
    and q: "q = new_base - t - SERVICE_FD_MAX * id'" "0 \<le> q" "q < lim" "q \<noteq> p"
  shows "\<exists>w'. move_service_fd k s me t id' new_base w = Some (0, w') \<and>
           file w' = (\<lambda>x. if x = q then file w p else if x = p \<and> \<not> ri_clone_files me then None else file w x)"
proof -
  obtain r w1 where d: "op_dup2 k p q w = (r, w1)" by force
  have law: "r = q" "file w1 = (file w)(q := file w p)" using tab p(3) q(2,3) d unfolding fd_table_ok_def by (metis fst_conv snd_conv)+
  have cl: "file (snd (op_fdclose k p w1)) = (file w1)(p := None)" using tab unfolding fd_table_ok_def by blast
  have g: "get_service_fd s t = Some p" using get_service_fd_installed [OF s t] p(1) by simp
  have "move_service_fd k s me t id' new_base w =
      Some (0, if ri_clone_files me then w1 else snd (op_fdclose k p w1))"
    using g p(2) t d law(1) q(1,2) by (auto simp: move_service_fd_def Let_def)
  then show ?thesis using law(2) cl q(4) by (auto simp: fun_eq_iff)
qed

lemma move_service_fds_file:
  assumes tab: "fd_table_ok k file lim" and s: "sfd_ok s" "service_fd_base s \<noteq> 0"
    and ts: "distinct ts" "set ts \<subseteq> {SERVICE_FD_MIN <..< SERVICE_FD_MAX}" "sorted_wrt (\<lambda>t u. q t \<noteq> p u) ts"
    and p: "p = (\<lambda>t. get_service_fd_id s t (service_fd_id s))" "\<And>t. t \<in> sfd_map s \<Longrightarrow> 0 \<le> p t"
      "\<And>t. t \<in> sfd_map s \<inter> set ts \<Longrightarrow> file w (p t) \<noteq> None"
    and q: "q = (\<lambda>t. new_base - t - SERVICE_FD_MAX * id')" "\<And>t. t \<in> sfd_map s \<Longrightarrow> 0 \<le> q t \<and> q t < lim" "\<And>t. q t \<noteq> p t"
  shows "\<exists>w'. move_service_fds k s me id' new_base ts w = Some w' \<and>
           (\<forall>t \<in> sfd_map s \<inter> set ts. file w' (q t) = file w (p t)) \<and>
           (\<forall>x. x \<notin> q ` (sfd_map s \<inter> set ts) \<longrightarrow> file w' x =
              (if x \<in> p ` (sfd_map s \<inter> set ts) \<and> \<not> ri_clone_files me then None else file w x))"
  using ts p(3)
proof (induction ts arbitrary: w)
  case (Cons t ts)
  have inj: "p t = p u \<longleftrightarrow> t = u" "q t = q u \<longleftrightarrow> t = u" for t u by (auto simp: p(1) q(1) get_service_fd_id_def)
  have rest: "distinct ts" "set ts \<subseteq> {SERVICE_FD_MIN <..< SERVICE_FD_MAX}" "sorted_wrt (\<lambda>t u. q t \<noteq> p u) ts"
    and R: "\<And>u. u \<in> set ts \<Longrightarrow> q t \<noteq> p u" "t \<notin> set ts" using Cons by auto
  show ?case
  proof (cases "t \<in> sfd_map s")
    case False
    have "0 < SERVICE_FD_MAX - t" using Cons(3) by auto
    then have "move_service_fd k s me t id' new_base w = Some (0, w)"
      using False Cons(3) by (auto simp: move_service_fd_def get_service_fd_def)
    then have eq: "move_service_fds k s me id' new_base (t # ts) w = move_service_fds k s me id' new_base ts w" by simp
    have "sfd_map s \<inter> set (t # ts) = sfd_map s \<inter> set ts" using False by auto
    then show ?thesis using Cons(1) [OF rest, of w] Cons(5) unfolding eq by simp
  next
    case True
    obtain w1 where mv: "move_service_fd k s me t id' new_base w = Some (0, w1)" and
      f1: "file w1 = (\<lambda>x. if x = q t then file w (p t) else if x = p t \<and> \<not> ri_clone_files me then None else file w x)"
      using move_service_fd_file [OF tab s True, of "p t" w "q t" new_base id' me] p q Cons(5) True by auto
    have keep: "file w1 (p u) = file w (p u)" if "u \<in> set ts" for u
    proof -
      have "p u \<noteq> q t" "p u \<noteq> p t" using R(1) [OF that] R(2) that inj(1) by auto
      then show ?thesis by (simp add: f1)
    qed
    then have "\<And>u. u \<in> sfd_map s \<inter> set ts \<Longrightarrow> file w1 (p u) \<noteq> None" using Cons(5) by auto
    from Cons(1) [OF rest this] obtain w' where
      rec: "move_service_fds k s me id' new_base ts w1 = Some w'" "\<forall>t \<in> sfd_map s \<inter> set ts. file w' (q t) = file w1 (p t)"
        "\<forall>x. x \<notin> q ` (sfd_map s \<inter> set ts) \<longrightarrow> file w' x =
          (if x \<in> p ` (sfd_map s \<inter> set ts) \<and> \<not> ri_clone_files me then None else file w1 x)" by blast
    have qt: "q t \<notin> q ` (sfd_map s \<inter> set ts)" "q t \<notin> p ` (sfd_map s \<inter> set ts)" using R inj by auto
    then have here: "file w' (q t) = file w (p t)" using rec(3) f1 by simp
    have e: "sfd_map s \<inter> set (t # ts) = insert t (sfd_map s \<inter> set ts)" using True by auto
    have "move_service_fds k s me id' new_base (t # ts) w = Some w'" using mv rec(1) by simp
    moreover have "\<forall>u \<in> sfd_map s \<inter> set (t # ts). file w' (q u) = file w (p u)"
      unfolding e using here rec(2) keep by auto
    moreover have "\<forall>x. x \<notin> q ` (sfd_map s \<inter> set (t # ts)) \<longrightarrow> file w' x =
        (if x \<in> p ` (sfd_map s \<inter> set (t # ts)) \<and> \<not> ri_clone_files me then None else file w x)"
      unfolding e using rec(3) f1 by auto
    ultimately show ?thesis by blast
  qed
qed simp

text \<open>The order of the loop depends on the direction.\<close>

lemma memmove_order:
  assumes "p = (\<lambda>t::int. b - t)" and "q = (\<lambda>t. b' - t)"
  shows "b < b' \<Longrightarrow> sorted_wrt (\<lambda>t u. q t \<noteq> p u) [l..h]" and "b' < b \<Longrightarrow> sorted_wrt (\<lambda>t u. q t \<noteq> p u) (rev [l..h])"
proof -
  have lt: "sorted_wrt (<) [l..h]" by simp
  show "b < b' \<Longrightarrow> sorted_wrt (\<lambda>t u. q t \<noteq> p u) [l..h]"
    by (rule sorted_wrt_mono_rel [OF _ lt]) (auto simp: assms)
  show "b' < b \<Longrightarrow> sorted_wrt (\<lambda>t u. q t \<noteq> p u) (rev [l..h])"
    unfolding sorted_wrt_rev by (rule sorted_wrt_mono_rel [OF _ lt]) (auto simp: assms)
qed

lemma clone_moves:
  assumes tab: "fd_table_ok k file lim" and s: "sfd_ok s" "service_fd_base s \<noteq> 0"
    and p: "p = (\<lambda>t. get_service_fd_id s t (service_fd_id s))" "\<And>t. t \<in> sfd_map s \<Longrightarrow> 0 \<le> p t \<and> file w (p t) \<noteq> None"
    and q: "q = (\<lambda>t. new_base - t - SERVICE_FD_MAX * id')" "\<And>t. t \<in> sfd_map s \<Longrightarrow> 0 \<le> q t \<and> q t < lim"
    and ne: "p LOG_FD_OFF \<noteq> q LOG_FD_OFF"
  shows "\<exists>w'. (if p LOG_FD_OFF < q LOG_FD_OFF
             then move_service_fds k s me id' new_base [SERVICE_FD_MIN + 1..SERVICE_FD_MAX - 1] w
             else move_service_fds k s me id' new_base (rev [SERVICE_FD_MIN + 1..SERVICE_FD_MAX - 1]) w) = Some w' \<and>
           (\<forall>t \<in> sfd_map s. file w' (q t) = file w (p t)) \<and>
           (\<forall>x. x \<notin> q ` sfd_map s \<longrightarrow> file w' x =
              (if x \<in> p ` sfd_map s \<and> \<not> ri_clone_files me then None else file w x))"
proof -
  let ?ts = "[SERVICE_FD_MIN + 1..SERVICE_FD_MAX - 1]"
  define b where "b = service_fd_base s - SERVICE_FD_MAX * service_fd_id s"
  define b' where "b' = new_base - SERVICE_FD_MAX * id'"
  have pb: "p = (\<lambda>t. b - t)" and qb: "q = (\<lambda>t. b' - t)" by (auto simp: p(1) q(1) b_def b'_def get_service_fd_id_def)
  have pq: "q t \<noteq> p t" for t using ne by (auto simp: pb qb)
  have all: "sfd_map s \<inter> set ?ts = sfd_map s" using s(1) clone_types by (auto simp: sfd_ok_def)
  have types: "set ?ts \<subseteq> {SERVICE_FD_MIN <..< SERVICE_FD_MAX}" by (simp only: clone_types order_refl)
  show ?thesis
  proof (cases "p LOG_FD_OFF < q LOG_FD_OFF")
    case True
    then have "sorted_wrt (\<lambda>t u. q t \<noteq> p u) ?ts" by (intro memmove_order(1) [OF pb qb]) (simp add: pb qb)
    from move_service_fds_file [OF tab s _ types this p(1) _ _ q pq, of w me, unfolded all] p(2) True
    show ?thesis by auto
  next
    case False
    then have "sorted_wrt (\<lambda>t u. q t \<noteq> p u) (rev ?ts)" using ne by (intro memmove_order(2) [OF pb qb]) (simp add: pb qb)
    from move_service_fds_file [OF tab s _ _ this p(1) _ _ q pq, of w me, unfolded set_rev all] p(2) False types
    show ?thesis by auto
  qed
qed

section \<open>Properties\<close>

text \<open>C14: \<^verbatim>\<open>clone_service_fd\<close> moves the service descriptors to their new numbers although the old and the new range
  may overlap: afterwards each installed type names the file it named before, no other descriptor has changed,
  and without \<^verbatim>\<open>CLONE_FILES\<close> the old numbers that are not reused are closed.\<close>

theorem clone_service_fd_keeps_files:
  assumes tab: "fd_table_ok k file lim" and s: "sfd_ok s" "service_fd_base s \<noteq> 0" "LOG_FD_OFF \<in> sfd_map s"
    and old: "old = (\<lambda>t. get_service_fd_id s t (service_fd_id s))" "\<And>t. t \<in> sfd_map s \<Longrightarrow> 0 \<le> old t \<and> file w (old t) \<noteq> None"
    and base: "choose_service_fd_base s m me \<noteq> - 1" and id: "0 \<le> ri_service_fd_id me"
    and new: "new = (\<lambda>t. choose_service_fd_base s m me - t - SERVICE_FD_MAX * ri_service_fd_id me)"
      "\<And>t. t \<in> sfd_map s \<Longrightarrow> 0 \<le> new t \<and> new t < lim"
  shows "\<exists>s' w'. clone_service_fd k s m me w = Some (0, s', w') \<and> sfd_map s' = sfd_map s \<and>
     (\<forall>t \<in> sfd_map s. get_service_fd s' t = Some (new t) \<and> file w' (new t) = file w (old t)) \<and>
     (\<forall>x. x \<notin> new ` sfd_map s \<longrightarrow> file w' x =
        (if x \<in> old ` sfd_map s \<and> \<not> ri_clone_files me then None else file w x))"
proof -
  let ?b = "choose_service_fd_base s m me" and ?i = "ri_service_fd_id me"
  have log: "get_service_fd s LOG_FD_OFF = Some (old LOG_FD_OFF)" using get_service_fd_installed [OF s] old(1) by simp
  show ?thesis
  proof (cases "old LOG_FD_OFF = new LOG_FD_OFF")
    case True
    then have "old = new" by (auto simp: old(1) new(1) get_service_fd_id_def)
    moreover have "clone_service_fd k s m me w = Some (0, s, w)"
      using log True base by (simp add: clone_service_fd_def new(1))
    ultimately show ?thesis using get_service_fd_installed [OF s(1,2)] by (auto simp: old(1))
  next
    case False
    have "0 \<le> new LOG_FD_OFF" using new(2) [OF s(3)] by simp
    then have b0: "?b \<noteq> 0" using id by (auto simp: new(1) LOG_FD_OFF_def SERVICE_FD_MAX_def)
    let ?s = "s\<lparr>service_fd_base := ?b, service_fd_id := ?i\<rparr>"
    have ok: "sfd_ok ?s" using s(1) by (simp add: sfd_ok_def)
    obtain w' where w': "(if old LOG_FD_OFF < new LOG_FD_OFF
           then move_service_fds k s me ?i ?b [SERVICE_FD_MIN + 1..SERVICE_FD_MAX - 1] w
           else move_service_fds k s me ?i ?b (rev [SERVICE_FD_MIN + 1..SERVICE_FD_MAX - 1]) w) = Some w'"
      and post: "\<forall>t \<in> sfd_map s. file w' (new t) = file w (old t)"
        "\<forall>x. x \<notin> new ` sfd_map s \<longrightarrow> file w' x =
          (if x \<in> old ` sfd_map s \<and> \<not> ri_clone_files me then None else file w x)"
      using clone_moves [OF tab s(1,2) old new False] by blast
    have "clone_service_fd k s m me w = Some (0, ?s, w')"
      using log False base w' by (simp add: clone_service_fd_def Let_def new(1))
    moreover have "get_service_fd ?s t = Some (new t)" if "t \<in> sfd_map s" for t
      using get_service_fd_installed [OF ok] b0 that by (simp add: new(1) get_service_fd_id_def)
    ultimately show ?thesis using post by auto
  qed
qed

text \<open>C22: The base that a process without a shared table, or the owner of one, chooses leaves room: for every process of
  the table and every type the service descriptor is above the largest descriptor of the process and
  the inherited ones, with the safety pad between them, and below the limit on descriptors.\<close>

theorem choose_service_fd_base_room:
  assumes "ri_service_fd_id me = 0" and "n = (case ri_fdt_nr me of Some nr \<Rightarrow> nr | None \<Rightarrow> 1)" and "1 \<le> n"
    and "nr = max (if ri_fds me \<noteq> [] then last (ri_fds me) else - 1) m" and "- 1 \<le> nr"
    and "nr + 16 * n + 16 < 2 ^ 29" and "0 \<le> service_fd_rlim_cur s"
    and "choose_service_fd_base s m me = base" and "base \<noteq> - 1"
    and "0 \<le> id'" and "id' < n" and "SERVICE_FD_MIN < type" and "type < SERVICE_FD_MAX"
  shows "nr + 16 < get_service_fd_id (s\<lparr>service_fd_base := base\<rparr>) type id' \<and>
         get_service_fd_id (s\<lparr>service_fd_base := base\<rparr>) type id' < service_fd_rlim_cur s \<and> 128 dvd base"
proof -
  have "base = service_fd_base_for s m me n" using assms(1,2,8) by (auto simp: choose_service_fd_base_def split: option.splits)
  from service_fd_base_for_ok [OF assms(4,5,3,6,7) this assms(9)]
  have "nr + 16 * n + 16 \<le> base" "base \<le> service_fd_rlim_cur s" "128 dvd base" by auto
  moreover have "type + 16 * id' < 16 * n" "0 < type" using assms(10-13) by (simp_all add: SERVICE_FD_MAX_def SERVICE_FD_MIN_def)
  ultimately show ?thesis using assms(10) by (auto simp: get_service_fd_id_def SERVICE_FD_MAX_def)
qed

text \<open>Once a base is set, \<^verbatim>\<open>is_any_service_fd\<close> holds for exactly the descriptors that \<^verbatim>\<open>get_service_fd\<close> returns for an installed
  type.\<close>

theorem is_any_service_fd_iff:
  assumes "sfd_ok s" and "service_fd_base s \<noteq> 0"
  shows "is_any_service_fd s fd \<longleftrightarrow> (\<exists>type \<in> sfd_map s. get_service_fd s type = Some fd)"
proof -
  let ?t = "service_fd_base s - SERVICE_FD_MAX * service_fd_id s - fd"
  have "(\<exists>type \<in> sfd_map s. get_service_fd s type = Some fd) \<longleftrightarrow> ?t \<in> sfd_map s"
    using get_service_fd_installed [OF assms] by (force simp: get_service_fd_id_def)
  moreover have "is_any_service_fd s fd \<longleftrightarrow> ?t \<in> sfd_map s"
    using assms(1) by (auto simp: is_any_service_fd_def get_service_fd_id_def Let_def sfd_ok_def SERVICE_FD_MAX_def
        SERVICE_FD_MIN_def algebra_simps)
  ultimately show ?thesis by simp
qed




section \<open>Witnesses\<close>

text \<open>A table is a map from numbers to files, with 1024 numbers.\<close>

definition demo_fd_ops :: "(int \<Rightarrow> nat option) fd_ops" where
  "demo_fd_ops = \<lparr>
     op_dupfd = (\<lambda>old new w. if w old = None then (- 1, w) else if w new = None then (new, w(new := w old)) else (- 1, w)),
     op_dup2 = (\<lambda>old new w. if w old = None \<or> new < 0 \<or> new \<ge> 1024 then (- 1, w) else (new, w(new := w old))),
     op_dup3_cloexec = (\<lambda>old new w. if w old = None \<or> new < 0 \<or> new \<ge> 1024 then (- 1, w) else (new, w(new := w old))),
     op_fdclose = (\<lambda>d w. (if w d = None then - 1 else 0, w(d := None))),
     op_getrlimit_nofile = (\<lambda>w. ((0, 1024), w)),
     op_rlimit_unlimit_nofile = (\<lambda>w. (None, w))\<rparr>"

definition demo_sfd :: sfd_state where
  "demo_sfd = \<lparr>service_fd_rlim_cur = 1024, service_fd_base = 130, service_fd_id = 0, sfd_map = {1, 2, 4},
     sfd_arr = replicate 16 0, sfds_protected = False\<rparr>"

definition demo_item :: rst_item where
  "demo_item = \<lparr>ri_fdt_nr = None, ri_service_fd_id = 0, ri_fds = [0, 1, 7], ri_clone_files = False\<rparr>"

lemma demo_fd_table: "fd_table_ok demo_fd_ops (\<lambda>w. w) 1024"
  by (auto simp: fd_table_ok_def demo_fd_ops_def)

lemma demo_sfd_ok: "sfd_ok demo_sfd" "service_fd_base demo_sfd \<noteq> 0"
  by (auto simp: sfd_ok_def demo_sfd_def SERVICE_FD_MIN_def SERVICE_FD_MAX_def)

lemma demo_base: "choose_service_fd_base demo_sfd (- 1) demo_item = 128"
  by (simp add: choose_service_fd_base_def service_fd_base_for_def Let_def demo_sfd_def demo_item_def SERVICE_FD_MIN_def
      SERVICE_FD_MAX_def int32_def)

text \<open>The base goes down from 130 to 128: the number of the first type is where the third was.\<close>

theorem clone_service_fd_keeps_files_witness:
  "\<exists>s' w'. clone_service_fd demo_fd_ops demo_sfd (- 1) demo_item [129 \<mapsto> 10, 128 \<mapsto> 20, 126 \<mapsto> 40] = Some (0, s', w') \<and>
     w' 127 = Some 10 \<and> w' 126 = Some 20 \<and> w' 124 = Some 40 \<and> w' 129 = None"
proof -
  let ?w = "[129 \<mapsto> 10, 128 \<mapsto> 20, 126 \<mapsto> 40] :: int \<Rightarrow> nat option" and ?c = "choose_service_fd_base demo_sfd (- 1) demo_item"
  have map: "sfd_map demo_sfd = {1, 2, 4}" by (simp add: demo_sfd_def)
  have old: "(\<lambda>t. 130 - t) = (\<lambda>t. get_service_fd_id demo_sfd t (service_fd_id demo_sfd))"
    by (simp add: get_service_fd_id_def demo_sfd_def fun_eq_iff)
  have new: "(\<lambda>t. 128 - t) = (\<lambda>t. ?c - t - SERVICE_FD_MAX * ri_service_fd_id demo_item)"
    unfolding demo_base by (simp add: demo_item_def fun_eq_iff)
  have hyps: "LOG_FD_OFF \<in> sfd_map demo_sfd" "?c \<noteq> - 1" "0 \<le> ri_service_fd_id demo_item"
    "\<And>t. t \<in> sfd_map demo_sfd \<Longrightarrow> 0 \<le> 130 - t \<and> ?w (130 - t) \<noteq> None" "\<And>t. t \<in> sfd_map demo_sfd \<Longrightarrow> 0 \<le> 128 - t \<and> 128 - t < 1024"
    unfolding map demo_base by (auto simp: LOG_FD_OFF_def demo_item_def)
  obtain s' w' where cl: "clone_service_fd demo_fd_ops demo_sfd (- 1) demo_item ?w = Some (0, s', w')"
    and moved: "\<forall>t \<in> {1, 2, 4}. w' (128 - t) = ?w (130 - t)"
    and rest: "\<forall>x. x \<notin> (\<lambda>t. 128 - t) ` {1, 2, 4} \<longrightarrow> w' x =
        (if x \<in> (\<lambda>t. 130 - t) ` {1, 2, 4} \<and> \<not> ri_clone_files demo_item then None else ?w x)"
    using clone_service_fd_keeps_files [where w = ?w, OF demo_fd_table demo_sfd_ok hyps(1) old hyps(4) hyps(2,3) new hyps(5)]
    unfolding map by blast
  have "w' 129 = None" using rest [rule_format, of 129] by (simp add: demo_item_def)
  moreover have "w' 127 = Some 10" "w' 126 = Some 20" "w' 124 = Some 40"
    using moved [rule_format, of 1] moved [rule_format, of 2] moved [rule_format, of 4] by simp_all
  ultimately show ?thesis using cl by blast
qed

theorem choose_service_fd_base_room_witness:
  "choose_service_fd_base demo_sfd (- 1) demo_item = 128 \<and> get_service_fd_id (demo_sfd\<lparr>service_fd_base := 128\<rparr>) 15 0 > 7 + 16"
proof -
  have "7 + 16 < get_service_fd_id (demo_sfd\<lparr>service_fd_base := 128\<rparr>) 15 0 \<and>
      get_service_fd_id (demo_sfd\<lparr>service_fd_base := 128\<rparr>) 15 0 < service_fd_rlim_cur demo_sfd \<and> 128 dvd (128::int)"
    by (rule choose_service_fd_base_room [of demo_item 1 7 "- 1" demo_sfd 128 0 15], rule_tac [8] demo_base)
      (simp_all add: demo_item_def demo_sfd_def SERVICE_FD_MIN_def SERVICE_FD_MAX_def)
  then show ?thesis using demo_base by simp
qed

theorem is_any_service_fd_iff_witness:
  "is_any_service_fd demo_sfd 128 \<and> (\<exists>type \<in> sfd_map demo_sfd. get_service_fd demo_sfd type = Some 128)"
proof -
  have "is_any_service_fd demo_sfd 128"
    by (simp add: is_any_service_fd_def get_service_fd_id_def demo_sfd_def SERVICE_FD_MIN_def SERVICE_FD_MAX_def)
  then show ?thesis using is_any_service_fd_iff [OF demo_sfd_ok, of 128] by simp
qed


end
