(* ===== verification/StdString.thy ===== *)
theory StdString
  imports Prelude
begin

text \<open>
  The string functions of the code that is injected into a process, \<^verbatim>\<open>compel/plugins/std/string.c\<close>.  A
  pointer into constant memory is the list of the bytes from there on; reading past its end is
  \<open>None\<close>, as is the overflow of a \<^verbatim>\<open>long\<close>.  The arguments of a variadic call are a list of tagged values.
\<close>

section \<open>Printing\<close>

definition conv_tab :: "u8 list" where
  "conv_tab = [48, 49, 50, 51, 52, 53, 54, 55, 56, 57, 97, 98, 99, 100, 101, 102, 103, 104, 105, 106, 107, 108, 109,
     110, 111, 112, 113, 114, 115, 116, 117, 118, 119, 120, 121, 122]"

definition deref :: "u8 list \<Rightarrow> u8 option" where
  "deref s = (case s of [] \<Rightarrow> None | c # _ \<Rightarrow> Some c)"

text \<open>The system call, whose result is not looked at, is a parameter.\<close>

type_synonym 'w sys_write = "int \<Rightarrow> u8 list \<Rightarrow> 'w \<Rightarrow> 'w"

definition std_dputc :: "'w sys_write \<Rightarrow> int \<Rightarrow> u8 \<Rightarrow> 'w \<Rightarrow> 'w" where
  "std_dputc sys_write fd c w = sys_write fd [c] w"

fun std_dputs :: "'w sys_write \<Rightarrow> int \<Rightarrow> u8 list \<Rightarrow> 'w \<Rightarrow> 'w option" where
  "std_dputs sys_write fd [] w = None"
| "std_dputs sys_write fd (c # s) w = (if c = 0 then Some w else std_dputs sys_write fd s (std_dputc sys_write fd c w))"

fun hex_loop :: "u8 list \<Rightarrow> int \<Rightarrow> nat \<Rightarrow> (u8 list \<times> int) option" where
  "hex_loop buf s num =
     (if num > 0 then do { c \<leftarrow> arr_get conv_tab (int (num mod 16));
                           buf \<leftarrow> arr_set buf s c;
                           hex_loop buf (s - 1) (num div 16) }
      else Some (buf, s))"

declare hex_loop.simps [simp del]

text \<open>The buffer, \<^verbatim>\<open>*ps\<close> as an index in it, and the length that is returned.\<close>

definition std_vprint_long_hex :: "u8 list \<Rightarrow> u64 \<Rightarrow> (u8 list \<times> int \<times> int) option" where
  "std_vprint_long_hex buf num =
     do {
       let blen = int (length buf);
       let s = blen - 2;
       buf \<leftarrow> arr_set buf (blen - 1) 0;
       (buf, s) \<leftarrow> (if num = 0 then do { buf \<leftarrow> arr_set buf s 48; Some (buf, s - 1) }
                   else hex_loop buf s (unat num));
       let s = s + 1;
       Some (buf, s, blen - s)
     }"

fun dec_loop :: "u8 list \<Rightarrow> int \<Rightarrow> nat \<Rightarrow> (u8 list \<times> int) option" where
  "dec_loop buf s num =
     (if num > 0 then do { buf \<leftarrow> arr_set buf s (of_nat (num mod 10) + 48);
                           dec_loop buf (s - 1) (num div 10) }
      else Some (buf, s))"

declare dec_loop.simps [simp del]

text \<open>A \<^verbatim>\<open>long\<close> is an integer; a result out of its range is undefined.\<close>

definition long_val :: "int \<Rightarrow> int option" where
  "long_val n = (if - (2 ^ 63) \<le> n \<and> n < 2 ^ 63 then Some n else None)"

definition std_vprint_long :: "u8 list \<Rightarrow> int \<Rightarrow> (u8 list \<times> int \<times> int) option" where
  "std_vprint_long buf num =
     do {
       let blen = int (length buf);
       let s = blen - 2;
       buf \<leftarrow> arr_set buf (blen - 1) 0;
       num' \<leftarrow> (if num < 0 then long_val (- num) else Some num);
       (buf, s) \<leftarrow> (if num = 0 then do { buf \<leftarrow> arr_set buf s 48; Some (buf, s - 1) }
                   else do {
                     (buf, s) \<leftarrow> dec_loop buf s (nat num');
                     if num < 0 then do { buf \<leftarrow> arr_set buf s 45; Some (buf, s - 1) } else Some (buf, s) });
       let s = s + 1;
       Some (buf, s, blen - s)
     }"

datatype va = VStr "u8 list" | VInt "32 word" | VLong "64 word"

fun va_long :: "bool \<Rightarrow> va list \<Rightarrow> (int \<times> va list) option" where
  "va_long True (VLong n # args) = Some (sint n, args)"
| "va_long False (VInt n # args) = Some (sint n, args)"
| "va_long _ _ = None"

text \<open>The switch on the conversion \<^verbatim>\<open>*s\<close>.\<close>

definition vd_conv :: "'w sys_write \<Rightarrow> int \<Rightarrow> u8 \<Rightarrow> bool \<Rightarrow> va list \<Rightarrow> 'w \<Rightarrow> (va list \<times> 'w) option" where
  "vd_conv sys_write fd c along args w =
     (let buf = replicate 32 0 in
      if c = 115 then
        (case args of VStr t # args \<Rightarrow> do { w \<leftarrow> std_dputs sys_write fd t w; Some (args, w) } | _ \<Rightarrow> None)
      else if c = 100 then
        do { (n, args) \<leftarrow> va_long along args;
             (buf, t, _) \<leftarrow> std_vprint_long buf n;
             w \<leftarrow> std_dputs sys_write fd (drop (nat t) buf) w;
             Some (args, w) }
      else if c = 120 then
        do { (n, args) \<leftarrow> va_long along args;
             (buf, t, _) \<leftarrow> std_vprint_long_hex buf (word_of_int n);
             w \<leftarrow> std_dputs sys_write fd (drop (nat t) buf) w;
             Some (args, w) }
      else Some (args, w))"

text \<open>The length modifiers after a percent sign.\<close>

definition vd_along :: "u8 list \<Rightarrow> (bool \<times> u8 list) option" where
  "vd_along s =
     do { c \<leftarrow> deref s;
          if c = 108 then do { let s = tl s; c \<leftarrow> deref s; Some (True, if c = 108 then tl s else s) }
          else Some (False, s) }"

lemma vd_along_length: "vd_along s = Some (along, s') \<Longrightarrow> length s' \<le> length s"
  by (auto simp: vd_along_def deref_def Let_def split: list.splits if_splits Option.bind_splits)

function std_vdprintf :: "'w sys_write \<Rightarrow> int \<Rightarrow> u8 list \<Rightarrow> va list \<Rightarrow> 'w \<Rightarrow> 'w option" where
  "std_vdprintf sys_write fd s args w =
     (case s of
        [] \<Rightarrow> None
      | c # s' \<Rightarrow>
          if c = 0 then Some w
          else if c \<noteq> 37 then std_vdprintf sys_write fd s' args (std_dputc sys_write fd c w)
          else
            (case vd_along s' of
               None \<Rightarrow> None
             | Some (along, s') \<Rightarrow>
                 (case deref s' of
                    None \<Rightarrow> None
                  | Some c \<Rightarrow>
                      (case vd_conv sys_write fd c along args w of
                         None \<Rightarrow> None
                       | Some (args, w) \<Rightarrow> std_vdprintf sys_write fd (tl s') args w))))"
  by pat_completeness auto

termination
  by (relation "measure (\<lambda>(k, fd, s, args, w). length s)") (auto dest!: vd_along_length)

declare std_vdprintf.simps [simp del]

definition std_dprintf :: "'w sys_write \<Rightarrow> int \<Rightarrow> u8 list \<Rightarrow> va list \<Rightarrow> 'w \<Rightarrow> 'w option" where
  "std_dprintf sys_write fd format args w = std_vdprintf sys_write fd format args w"

section \<open>Parsing\<close>

definition isspace :: "u8 \<Rightarrow> bool" where
  "isspace c = (c = 32 \<or> c = 12 \<or> c = 10 \<or> c = 13 \<or> c = 9 \<or> c = 11)"

definition tolower :: "u8 \<Rightarrow> u8" where
  "tolower c = (if c \<le> 90 \<and> c \<ge> 65 then c - 65 + 97 else c)"

definition isalpha :: "u8 \<Rightarrow> bool" where
  "isalpha c = ((c \<le> 90 \<and> c \<ge> 65) \<or> (c \<le> 122 \<and> c \<ge> 97))"

definition isdigit :: "u8 \<Rightarrow> bool" where
  "isdigit c = (c \<le> 57 \<and> c \<ge> 48)"

definition isalnum :: "u8 \<Rightarrow> bool" where
  "isalnum c = (isalpha c \<or> isdigit c)"

definition conv_val :: "u8 \<Rightarrow> u32" where
  "conv_val c = (if isdigit c then ucast c - 48 else if isalpha c then ucast (tolower c) - 97 + 10 else - 1)"

fun skip_space :: "u8 list \<Rightarrow> u8 list option" where
  "skip_space [] = None"
| "skip_space (c # s) = (if isspace c then skip_space s else Some (c # s))"

text \<open>The number and \<^verbatim>\<open>s\<close> at the label \<^verbatim>\<open>fin\<close>.\<close>

fun strtoul_loop :: "int \<Rightarrow> int \<Rightarrow> u8 list \<Rightarrow> (int \<times> u8 list) option" where
  "strtoul_loop base num [] = None"
| "strtoul_loop base num (c # s) =
     (if c = 0 then Some (num, c # s)
      else if isspace c then strtoul_loop base num s
      else if \<not> isalnum c then Some (num, c # s)
      else let v = conv_val c in
        if v = - 1 \<or> v > word_of_int base then Some (num, c # s)
        else do { num \<leftarrow> long_val (num * base);
                  num \<leftarrow> long_val (num + uint v);
                  strtoul_loop base num s })"

definition strtoul_base :: "int \<Rightarrow> u8 list \<Rightarrow> (int \<times> u8 list) option" where
  "strtoul_base base s =
     (if base = 0 then
        do { c \<leftarrow> deref s;
             if c = 48 then
               do { p \<leftarrow> deref (tl s);
                    Some (if tolower p = 98 then (2, drop 2 s)
                          else if tolower p = 120 then (16, drop 2 s) else (8, tl s)) }
             else Some (10, s) }
      else if base = 16 then
        do { c \<leftarrow> deref s;
             if c = 48 then do { p \<leftarrow> deref (tl s); Some (16, if tolower p = 120 then drop 2 s else s) }
             else Some (16, s) }
      else Some (base, s))"

definition std_strtoul :: "u8 list \<Rightarrow> int \<Rightarrow> (u64 \<times> u8 list) option" where
  "std_strtoul nptr base =
     (if base < 0 \<or> base = 1 \<or> base > 36 then Some (0, nptr)
      else do {
        s \<leftarrow> skip_space nptr;
        c \<leftarrow> deref s;
        if c = 0 then Some (0, s)
        else do {
          let neg = (c = 45);
          let s = (if neg then tl s else s);
          (base, s) \<leftarrow> strtoul_base base s;
          (num, s) \<leftarrow> strtoul_loop base 0 s;
          Some (word_of_int (if neg then - num else num), s)
        }
      })"

section \<open>Memory and comparison\<close>

text \<open>One memory, so that the areas may overlap; the loop goes upwards.\<close>

fun memcpy_loop :: "u8 list \<Rightarrow> int \<Rightarrow> int \<Rightarrow> nat \<Rightarrow> u8 list option" where
  "memcpy_loop m to src 0 = Some m"
| "memcpy_loop m to src (Suc n) =
     do { c \<leftarrow> arr_get m src; m \<leftarrow> arr_set m to c; memcpy_loop m (to + 1) (src + 1) n }"

definition memcpy :: "u8 list \<Rightarrow> int \<Rightarrow> int \<Rightarrow> nat \<Rightarrow> u8 list option" where
  "memcpy m to src n = memcpy_loop m to src n"

fun memcmp :: "u8 list \<Rightarrow> u8 list \<Rightarrow> nat \<Rightarrow> int option" where
  "memcmp cs ct 0 = Some 0"
| "memcmp (a # cs) (b # ct) (Suc n) = (let res = uint a - uint b in if res \<noteq> 0 then Some res else memcmp cs ct n)"
| "memcmp _ _ (Suc n) = None"

fun memset :: "u8 list \<Rightarrow> int \<Rightarrow> u8 \<Rightarrow> nat \<Rightarrow> u8 list option" where
  "memset m s c 0 = Some m"
| "memset m s c (Suc n) = do { m \<leftarrow> arr_set m s c; memset m (s + 1) c n }"

fun std_strcmp :: "u8 list \<Rightarrow> u8 list \<Rightarrow> int option" where
  "std_strcmp (c1 # cs) (c2 # ct) =
     (if c1 \<noteq> c2 then Some (if c1 < c2 then - 1 else 1) else if c1 = 0 then Some 0 else std_strcmp cs ct)"
| "std_strcmp _ _ = None"

text \<open>A \<^verbatim>\<open>char\<close> is signed on x86: the comparison is \<open><s\<close>.\<close>

fun std_strncmp :: "u8 list \<Rightarrow> u8 list \<Rightarrow> nat \<Rightarrow> int option" where
  "std_strncmp cs ct 0 = Some 0"
| "std_strncmp (c1 # cs) (c2 # ct) (Suc n) =
     (if c1 \<noteq> c2 then Some (if sint c1 < sint c2 then - 1 else 1)
      else if c1 = 0 then Some 0 else std_strncmp cs ct n)"
| "std_strncmp _ _ (Suc n) = None"

end
