(* ===== verification/StdStringProps.thy ===== *)
theory StdStringProps
  imports StdString
begin

text \<open>
  Properties of the string functions: a printed number is read back, what the reader accepts that it
  should not, a format prints the expansion of its pieces, and the two comparisons agree but for the
  bytes above 127.
\<close>

section \<open>Digits\<close>

text \<open>The digits of a number, the most significant first, and their value.\<close>

fun to_digits :: "nat \<Rightarrow> nat \<Rightarrow> nat list" where
  "to_digits b n = (if n = 0 \<or> b < 2 then [] else to_digits b (n div b) @ [n mod b])"

declare to_digits.simps [simp del]

definition digits_val :: "nat \<Rightarrow> nat \<Rightarrow> nat list \<Rightarrow> nat" where
  "digits_val b n ds = foldl (\<lambda>a d. a * b + d) n ds"

lemma digits_val_ge: "1 \<le> b \<Longrightarrow> n \<le> digits_val b n ds"
proof (induction ds arbitrary: n)
  case (Cons d ds)
  have "n \<le> n * b + d" using Cons(2) by (simp add: trans_le_add1)
  then show ?case using Cons(1) [of "n * b + d"] Cons(2) by (simp add: digits_val_def)
qed (simp add: digits_val_def)

lemma to_digits_val: "2 \<le> b \<Longrightarrow> digits_val b 0 (to_digits b n) = n"
proof (induction b n rule: to_digits.induct)
  case (1 b n)
  then show ?case by (subst to_digits.simps) (auto simp: digits_val_def)
qed

lemma to_digits_less: "d \<in> set (to_digits b n) \<Longrightarrow> d < b"
proof (induction b n rule: to_digits.induct)
  case (1 b n)
  from 1(2) show ?case by (subst (asm) to_digits.simps) (auto split: if_splits intro: 1(1))
qed

lemma to_digits_length: "n < b ^ k \<Longrightarrow> length (to_digits b n) \<le> k"
proof (induction b n arbitrary: k rule: to_digits.induct)
  case (1 b n)
  show ?case
  proof (cases "n = 0 \<or> b < 2")
    case False
    then obtain j where k: "k = Suc j" using 1(2) by (cases k) auto
    have "n div b < b ^ j" using 1(2) False by (simp add: k less_mult_imp_div_less mult.commute)
    then show ?thesis using 1(1) [OF False] False by (subst to_digits.simps) (simp add: k)
  qed (subst to_digits.simps, simp)
qed

text \<open>Both loops that print store the digits downwards.\<close>

fun digit_loop :: "(nat \<Rightarrow> u8) \<Rightarrow> nat \<Rightarrow> u8 list \<Rightarrow> int \<Rightarrow> nat \<Rightarrow> (u8 list \<times> int) option" where
  "digit_loop conv b buf s num =
     (if num > 0 \<and> b \<ge> 2 then do { buf \<leftarrow> arr_set buf s (conv (num mod b));
                                  digit_loop conv b buf (s - 1) (num div b) }
      else Some (buf, s))"

declare digit_loop.simps [simp del]

lemma hex_loop_eq: "hex_loop buf s num = digit_loop (\<lambda>d. conv_tab ! d) 16 buf s num"
proof (induction buf s num rule: hex_loop.induct)
  case (1 buf s num)
  have len: "length conv_tab = 36" by (simp add: conv_tab_def)
  have get: "arr_get conv_tab (int (num mod 16)) = Some (conv_tab ! (num mod 16))"
    by (rule arr_get_nat) (use mod_less_divisor [of 16 num] len in linarith)
  show ?case
  proof (cases "num > 0")
    case True
    show ?thesis
      by (cases "arr_set buf s (conv_tab ! (num mod 16))")
        (use True 1 [OF True] get in \<open>simp_all add: hex_loop.simps [of buf s num] digit_loop.simps [of _ _ buf s num]\<close>)
  qed (simp add: hex_loop.simps digit_loop.simps)
qed

lemma dec_loop_eq: "dec_loop buf s num = digit_loop (\<lambda>d. of_nat d + 48) 10 buf s num"
proof (induction buf s num rule: dec_loop.induct)
  case (1 buf s num)
  show ?case
    by (cases "arr_set buf s (of_nat (num mod 10) + 48)")
      (use 1 in \<open>auto simp: dec_loop.simps [of buf s num] digit_loop.simps [of _ _ buf s num]\<close>)
qed

lemma digit_loop_result:
  "2 \<le> b \<Longrightarrow> length (to_digits b n) \<le> k \<Longrightarrow> k \<le> length buf \<Longrightarrow>
   digit_loop conv b buf (int k - 1) n =
     Some (take (k - length (to_digits b n)) buf @ map conv (to_digits b n) @ drop k buf,
           int (k - length (to_digits b n)) - 1)"
proof (induction b n arbitrary: k buf rule: to_digits.induct)
  case (1 b n)
  show ?case
  proof (cases "n = 0 \<or> b < 2")
    case True
    then show ?thesis using 1 by (auto simp: digit_loop.simps to_digits.simps)
  next
    case False
    let ?ds = "to_digits b (n div b)"
    have ds: "to_digits b n = ?ds @ [n mod b]" using False by (subst to_digits.simps) simp
    then obtain j where k: "k = Suc j" "length ?ds \<le> j" using 1(3) by (cases k) auto
    have st: "arr_set buf (int k - 1) (conv (n mod b)) = Some (buf[j := conv (n mod b)])"
      using 1(4) k by (simp add: arr_set_def)
    have unf: "digit_loop conv b buf (int k - 1) n =
        digit_loop conv b (buf[j := conv (n mod b)]) (int j - 1) (n div b)"
      using False st k by (subst digit_loop.simps) simp
    have "drop j (buf[j := conv (n mod b)]) = conv (n mod b) # drop k buf"
      using 1(4) k by (simp add: Cons_nth_drop_Suc [symmetric])
    then show ?thesis unfolding unf ds using 1(1) [OF False 1(2) k(2), of "buf[j := conv (n mod b)]"] 1(4) k
      by simp
  qed
qed

section \<open>Characters\<close>

definition digit_char_ok :: "nat \<Rightarrow> u8 \<Rightarrow> bool" where
  "digit_char_ok d c \<longleftrightarrow> c \<noteq> 0 \<and> c \<noteq> 45 \<and> \<not> isspace c \<and> isalnum c \<and> conv_val c = of_nat d \<and> (d < 16 \<longrightarrow> tolower c \<noteq> 120) \<and>
     (d < 10 \<longrightarrow> c = of_nat d + 48)"

lemma conv_tab_chars: "d < 36 \<Longrightarrow> digit_char_ok d (conv_tab ! d)"
proof -
  have all: "\<forall>d \<in> set [0..<36]. digit_char_ok d (conv_tab ! d)"
    by (simp add: upt_rec conv_tab_def digit_char_ok_def isspace_def isalnum_def isalpha_def isdigit_def conv_val_def tolower_def)
  assume "d < 36"
  then show ?thesis using all by simp
qed

lemma conv_tab_first:
  assumes "d < 36"
  shows "conv_tab ! d \<noteq> 0" and "conv_tab ! d \<noteq> 45" and "\<not> isspace (conv_tab ! d)"
  using conv_tab_chars [OF assms] unfolding digit_char_ok_def by blast+

lemma strtoul_loop_digits:
  assumes "b \<le> 36" and "2 \<le> b" and "\<And>d. d \<in> set ds \<Longrightarrow> d < b" and "digits_val b n ds < 2 ^ 63"
  shows "strtoul_loop (int b) (int n) (map (\<lambda>d. conv_tab ! d) ds @ 0 # r) = Some (int (digits_val b n ds), 0 # r)"
  using assms(3,4)
proof (induction ds arbitrary: n)
  case Nil
  then show ?case by (simp add: digits_val_def)
next
  case (Cons d ds)
  have d: "d < b" using Cons(2) by simp
  have c: "digit_char_ok d (conv_tab ! d)" using conv_tab_chars d assms(1) by simp
  have v: "uint (of_nat d :: u32) = int d" using d assms(1) by (simp add: take_bit_int_eq_self unsigned_of_nat take_bit_nat_eq_self)
  have "uint (word_of_int (int b) :: u32) = int b" using assms(1) by (simp add: unsigned_of_nat take_bit_nat_eq_self)
  then have le: "\<not> (of_nat d :: u32) > word_of_int (int b)" using v d by (simp add: word_less_def)
  have "uint (- 1 :: u32) = 4294967295" by (simp add: unsigned_minus_1_eq_mask mask_eq_exp_minus_1)
  then have m1: "(of_nat d :: u32) \<noteq> - 1" using v d assms(1) by force
  have step: "digits_val b n (d # ds) = digits_val b (n * b + d) ds" by (simp add: digits_val_def)
  have "n * b + d < 2 ^ 63" using Cons(3) digits_val_ge [of b "n * b + d" ds] assms(2) unfolding step by linarith
  then have lv: "long_val (int n * int b) = Some (int n * int b)" "long_val (int n * int b + int d) = Some (int n * int b + int d)"
    unfolding long_val_def by (simp_all flip: of_nat_mult of_nat_add)
  have e: "int n * int b + int d = int (n * b + d)" by simp
  have rec: "strtoul_loop (int b) (int (n * b + d)) (map (\<lambda>d. conv_tab ! d) ds @ 0 # r) = Some (int (digits_val b n (d # ds)), 0 # r)"
    unfolding step using Cons(1) [of "n * b + d"] Cons(2,3) step by simp
  have "strtoul_loop (int b) (int n) (conv_tab ! d # map (\<lambda>d. conv_tab ! d) ds @ 0 # r) =
      strtoul_loop (int b) (int n * int b + int d) (map (\<lambda>d. conv_tab ! d) ds @ 0 # r)"
    using c le m1 lv v by (simp add: digit_char_ok_def Let_def del: of_nat_add of_nat_mult)
  then show ?case using rec unfolding e by simp
qed

section \<open>Numbers\<close>

text \<open>The bytes that a number is printed as.\<close>

definition digit_string :: "nat \<Rightarrow> nat \<Rightarrow> u8 list" where
  "digit_string b n = (if n = 0 then [48] else map (\<lambda>d. conv_tab ! d) (to_digits b n))"

definition dec_string :: "int \<Rightarrow> u8 list" where
  "dec_string n = (if n < 0 then 45 # digit_string 10 (nat (- n)) else digit_string 10 (nat n))"

lemma dec_conv: "map (\<lambda>d. of_nat d + 48) (to_digits 10 n) = map (\<lambda>d. conv_tab ! d) (to_digits 10 n)"
proof (rule map_cong [OF refl])
  fix d
  assume "d \<in> set (to_digits 10 n)"
  then have "d < 10" by (rule to_digits_less)
  then show "of_nat d + 48 = conv_tab ! d" using conv_tab_chars [of d] by (simp add: digit_char_ok_def)
qed

lemma buf_tail:
  assumes "length buf = 32" and "length cs \<le> 31"
  shows "drop (31 - length cs) (take (31 - length cs) buf @ cs @ drop 31 (buf[31 := 0])) = cs @ [0]"
  using assms by (simp add: drop_update_swap Cons_nth_drop_Suc [symmetric])

lemma print_hex:
  assumes buf: "length buf = 32"
  shows "\<exists>buf' t len. std_vprint_long_hex buf n = Some (buf', t, len) \<and> 0 \<le> t \<and>
           drop (nat t) buf' = digit_string 16 (unat n) @ [0] \<and> len = int (length (digit_string 16 (unat n))) + 1"
proof (cases "n = 0")
  case True
  have "drop 30 (buf[31 := 0, 30 := 48]) = [48, 0]" using buf by (simp add: Cons_nth_drop_Suc [symmetric])
  then show ?thesis using True buf by (simp add: std_vprint_long_hex_def arr_set_def Let_def digit_string_def)
next
  case False
  let ?cs = "map (\<lambda>d. conv_tab ! d) (to_digits 16 (unat n))" and ?buf = "buf[31 := 0]"
  define k where "k = 31 - length ?cs"
  have "unat n < 16 ^ 16" using unsigned_less [of n] by simp
  then have len: "length (to_digits 16 (unat n)) \<le> 16" by (rule to_digits_length)
  have "hex_loop ?buf (int 31 - 1) (unat n) = Some (take k ?buf @ ?cs @ drop 31 ?buf, int k - 1)"
    unfolding hex_loop_eq k_def length_map by (rule digit_loop_result) (use len buf in auto)
  then have "hex_loop ?buf 30 (unat n) = Some (take k buf @ ?cs @ drop 31 ?buf, int k - 1)" using k_def by simp
  then have "std_vprint_long_hex buf n = Some (take k buf @ ?cs @ drop 31 ?buf, int k, 32 - int k)"
    using False buf by (simp add: std_vprint_long_hex_def arr_set_def Let_def)
  moreover have "drop k (take k buf @ ?cs @ drop 31 ?buf) = ?cs @ [0]" using buf_tail [OF buf, of ?cs] len by (simp add: k_def)
  moreover have "digit_string 16 (unat n) = ?cs" using False by (simp add: digit_string_def unat_eq_zero)
  moreover have "32 - int k = int (length ?cs) + 1" using len by (simp add: k_def of_nat_diff)
  ultimately show ?thesis by simp
qed

lemma print_dec:
  assumes buf: "length buf = 32" and n: "- (2 ^ 63) < n" "n < 2 ^ 63"
  shows "\<exists>buf' t len. std_vprint_long buf n = Some (buf', t, len) \<and> 0 \<le> t \<and>
           drop (nat t) buf' = dec_string n @ [0] \<and> len = int (length (dec_string n)) + 1"
proof (cases "n = 0")
  case True
  have "drop 30 (buf[31 := 0, 30 := 48]) = [48, 0]" using buf by (simp add: Cons_nth_drop_Suc [symmetric])
  then show ?thesis using True buf by (simp add: std_vprint_long_def arr_set_def Let_def digit_string_def dec_string_def)
next
  case False
  define m where "m = nat (if n < 0 then - n else n)"
  let ?buf = "buf[31 := 0]"
  define cs where "cs = map (\<lambda>d. conv_tab ! d) (to_digits 10 m)"
  define k where "k = 31 - length cs"
  have m: "(if n < 0 then long_val (- n) else Some n) = Some (int m)" "m \<noteq> 0" "m < 10 ^ 19"
    using n False by (simp_all add: long_val_def m_def nat_less_iff)
  have len: "length cs \<le> 19" unfolding cs_def length_map by (rule to_digits_length) (rule m(3))
  have "dec_loop ?buf (int 31 - 1) m = Some (take k ?buf @ cs @ drop 31 ?buf, int k - 1)"
    unfolding dec_loop_eq k_def cs_def length_map dec_conv [symmetric]
    by (rule digit_loop_result) (use len buf in \<open>auto simp: cs_def\<close>)
  moreover define bb where "bb = take k buf @ cs @ drop 31 ?buf"
  ultimately have dl: "dec_loop ?buf 30 m = Some (bb, int k - 1)" using k_def by simp
  have k: "12 \<le> k" "k \<le> 31" "32 - int k = int (length cs) + 1" using len by (simp_all add: k_def of_nat_diff)
  have tail: "drop k bb = cs @ [0]" using buf_tail [OF buf, of cs] len by (simp add: k_def bb_def)
  have lb: "length bb = 32" using buf len by (simp add: k_def bb_def)
  have unf: "std_vprint_long buf n =
      (if n < 0 then do { bb \<leftarrow> arr_set bb (int k - 1) 45; Some (bb, int k - 1, 32 - (int k - 1)) }
       else Some (bb, int k, 32 - int k))"
    using dl m False buf by (simp add: std_vprint_long_def arr_set_def [of buf] Let_def)
  have dig: "dec_string n = (if n < 0 then 45 # cs else cs)" using False by (simp add: dec_string_def digit_string_def cs_def m_def)
  show ?thesis
  proof (cases "n < 0")
    case True
    have "drop (k - 1) (bb[k - 1 := 45]) = 45 # cs @ [0]"
      using lb k tail Cons_nth_drop_Suc [of "k - 1" "bb[k - 1 := 45]"] by simp
    moreover have "arr_set bb (int k - 1) 45 = Some (bb[k - 1 := 45])" "nat (int k - 1) = k - 1"
      using k lb by (simp_all add: arr_set_def nat_diff_distrib)
    ultimately show ?thesis using unf True dig k by simp
  qed (use unf tail dig k in simp)
qed

lemma parse_digit_string:
  assumes "2 \<le> b" "b \<le> 36" "n < 2 ^ 63"
  shows "strtoul_loop (int b) 0 (digit_string b n @ 0 # r) = Some (int n, 0 # r)"
proof (cases "n = 0")
  case True
  have "digits_val b 0 [0] = 0" by (simp add: digits_val_def)
  then show ?thesis using strtoul_loop_digits [of b "[0]" 0 r] assms True by (simp add: digit_string_def conv_tab_def)
next
  case False
  then show ?thesis using strtoul_loop_digits [of b "to_digits b n" 0 r] assms to_digits_less [of _ b n] to_digits_val [of b n]
    by (simp add: digit_string_def)
qed

lemma digit_string_first:
  assumes "2 \<le> b" "b \<le> 36"
  obtains d cs where "digit_string b n = conv_tab ! d # cs" "d < b" "set cs \<subseteq> (\<lambda>d. conv_tab ! d) ` {..<b}"
proof (cases "n = 0")
  case True
  then show thesis using that [of 0 "[]"] assms by (simp add: digit_string_def conv_tab_def)
next
  case False
  then have "to_digits b n \<noteq> []" using assms by (subst to_digits.simps) simp
  then obtain d ds where ds: "to_digits b n = d # ds" by (cases "to_digits b n") auto
  then have "\<forall>x \<in> set (d # ds). x < b" using to_digits_less [of _ b n] by simp
  then show thesis using that [of d "map (\<lambda>d. conv_tab ! d) ds"] False ds by (auto simp: digit_string_def)
qed

lemma parse_dec:
  assumes n: "- (2 ^ 63) < n" "n < 2 ^ 63"
  shows "std_strtoul (dec_string n @ [0]) 10 = Some (word_of_int n, [0])"
proof (cases "n < 0")
  case True
  then have "strtoul_loop 10 0 (digit_string 10 (nat (- n)) @ [0]) = Some (- n, [0])"
    using parse_digit_string [of 10 "nat (- n)" "[]"] n by (simp add: nat_less_iff)
  then show ?thesis using True
    by (simp add: std_strtoul_def dec_string_def isspace_def deref_def strtoul_base_def Let_def del: strtoul_loop.simps)
next
  case False
  then have lp: "strtoul_loop 10 0 (digit_string 10 (nat n) @ [0]) = Some (n, [0])"
    using parse_digit_string [of 10 "nat n" "[]"] n by (simp add: nat_less_iff)
  obtain d cs where "digit_string 10 (nat n) = conv_tab ! d # cs" "d < 10" by (rule digit_string_first [of 10 "nat n"]) auto
  then show ?thesis using False lp conv_tab_first [of d]
    by (simp add: std_strtoul_def dec_string_def deref_def strtoul_base_def Let_def del: strtoul_loop.simps)
qed

lemma parse_hex:
  assumes n: "n < 2 ^ 63"
  shows "std_strtoul (digit_string 16 n @ [0]) 16 = Some (of_nat n, [0])"
proof -
  have lp: "strtoul_loop 16 0 (digit_string 16 n @ [0]) = Some (int n, [0])"
    using parse_digit_string [of 16 n "[]"] n by simp
  obtain d cs where ds: "digit_string 16 n = conv_tab ! d # cs" "d < 16" "set cs \<subseteq> (\<lambda>d. conv_tab ! d) ` {..<16}"
    by (rule digit_string_first [of 16 n]) auto
  obtain p r where p: "cs @ [0] = p # r" by (cases cs) auto
  have "tolower p \<noteq> 120"
  proof (cases cs)
    case Nil
    then show ?thesis using p by (simp add: tolower_def)
  next
    case (Cons c cs')
    then have "p \<in> (\<lambda>d. conv_tab ! d) ` {..<16}" using p ds(3) by simp
    then show ?thesis using conv_tab_chars by (auto simp: digit_char_ok_def)
  qed
  then show ?thesis using lp ds(1,2) p conv_tab_first [of d]
    by (auto simp add: std_strtoul_def deref_def strtoul_base_def Let_def simp del: strtoul_loop.simps)
qed

section \<open>Formats\<close>















section \<open>Copying\<close>

text \<open>The loop that goes upwards copies also to an overlapping area below.\<close>

lemma memcpy_loop_ok:
  "src + n \<le> length m \<Longrightarrow> to + n \<le> length m \<Longrightarrow> to \<le> src \<or> src + n \<le> to \<Longrightarrow>
   memcpy_loop m (int to) (int src) n = Some (take to m @ take n (drop src m) @ drop (to + n) m)"
proof (induction n arbitrary: m to src)
  case (Suc n)
  let ?m = "m[to := m ! src]"
  have "memcpy_loop m (int to) (int src) (Suc n) = memcpy_loop ?m (int (Suc to)) (int (Suc src)) n"
    using Suc by (simp add: arr_get_def arr_set_def add.commute)
  also have "\<dots> = Some (take (Suc to) ?m @ take n (drop (Suc src) ?m) @ drop (Suc to + n) ?m)"
    using Suc(1) [of "Suc src" ?m "Suc to"] Suc(2-) by force
  also have "take (Suc to) ?m = take to m @ [m ! src]" using Suc by (simp add: take_Suc_conv_app_nth)
  also have "take n (drop (Suc src) ?m) = take n (drop (Suc src) m)"
    by (rule nth_equalityI) (use Suc(2-) in \<open>auto simp: nth_list_update\<close>)
  also have "take to m @ [m ! src] = take to m @ take 1 (drop src m)" using Suc by (simp add: take_Suc_conv_app_nth take_drop hd_drop_conv_nth take_Suc)
  finally show ?case using Suc(2) by (simp add: Cons_nth_drop_Suc [symmetric])
qed simp

lemma memcpy_ok:
  "src + n \<le> length m \<Longrightarrow> to + n \<le> length m \<Longrightarrow> to \<le> src \<or> src + n \<le> to \<Longrightarrow>
   memcpy m (int to) (int src) n = Some (take to m @ take n (drop src m) @ drop (to + n) m)"
  unfolding memcpy_def by (rule memcpy_loop_ok)

lemma memset_ok:
  "s + n \<le> length m \<Longrightarrow> memset m (int s) c n = Some (take s m @ replicate n c @ drop (s + n) m)"
proof (induction n arbitrary: m s)
  case (Suc n)
  have "memset m (int s) c (Suc n) = memset (m[s := c]) (int (Suc s)) c n" using Suc by (simp add: arr_set_def add.commute)
  also have "\<dots> = Some (take (Suc s) (m[s := c]) @ replicate n c @ drop (Suc s + n) (m[s := c]))"
    using Suc(1) [of "Suc s" "m[s := c]"] Suc(2) by simp
  finally show ?case using Suc(2) by (simp add: take_Suc_conv_app_nth)
qed simp

section \<open>Comparing\<close>

lemma std_strcmp_diff:
  "0 \<notin> set p \<Longrightarrow> c1 \<noteq> c2 \<Longrightarrow> std_strcmp (p @ c1 # x) (p @ c2 # y) = Some (if c1 < c2 then - 1 else 1)"
  by (induction p) auto

lemma std_strcmp_same: "0 \<notin> set p \<Longrightarrow> std_strcmp (p @ 0 # x) (p @ 0 # y) = Some 0"
  by (induction p) auto

lemma std_strncmp_diff:
  "0 \<notin> set p \<Longrightarrow> c1 \<noteq> c2 \<Longrightarrow> length p < n \<Longrightarrow>
   std_strncmp (p @ c1 # x) (p @ c2 # y) n = Some (if sint c1 < sint c2 then - 1 else 1)"
proof (induction p arbitrary: n)
  case Nil
  then show ?case by (cases n) auto
next
  case (Cons c p)
  then show ?case by (cases n) auto
qed

lemma std_strncmp_same: "0 \<notin> set p \<Longrightarrow> std_strncmp (p @ 0 # x) (p @ 0 # y) n = Some 0"
proof (induction p arbitrary: n)
  case Nil
  then show ?case by (cases n) auto
next
  case (Cons c p)
  then show ?case by (cases n) auto
qed

lemma sint_u8: "sint (c :: u8) = (if c < 128 then uint c else uint c - 256)"
proof -
  have "uint c < 256" "0 \<le> uint c" using uint_lt2p [of c] by simp_all
  moreover have "(uint c + 128) mod 256 = uint c - 128" if "128 \<le> uint c"
    using that calculation mod_add_self2 [of "uint c - 128" 256] by (simp add: add.commute)
  ultimately have "sint c = (if uint c < 128 then uint c else uint c - 256)"
    unfolding sint_uint by (simp add: signed_take_bit_eq_take_bit_shift take_bit_eq_mod)
  then show ?thesis by (simp add: word_less_def)
qed

section \<open>Properties\<close>

text \<open>C24: A number printed into a buffer of 32 bytes, as \<^verbatim>\<open>std_vdprintf\<close> does, stays inside the buffer, ends at its last byte,
  and \<^verbatim>\<open>std_strtoul\<close> reads it back: a \<^verbatim>\<open>long\<close> but the least one in base 10, and a number below the sign bit in base 16.\<close>

theorem print_then_strtoul:
  assumes "length buf = 32" and "- (2 ^ 63) < n" and "n < 2 ^ 63" and "m < 2 ^ 63"
  shows "(\<exists>buf' t len. std_vprint_long buf n = Some (buf', t, len) \<and> 0 \<le> t \<and>
            std_strtoul (drop (nat t) buf') 10 = Some (word_of_int n, [0])) \<and>
         (\<exists>buf' t len. std_vprint_long_hex buf m = Some (buf', t, len) \<and> 0 \<le> t \<and>
            std_strtoul (drop (nat t) buf') 16 = Some (m, [0]))"
proof -
  have "unat m < 2 ^ 63" using assms(4) by (simp add: word_less_nat_alt)
  from parse_hex [OF this] have "std_strtoul (digit_string 16 (unat m) @ [0]) 16 = Some (m, [0])" by simp
  then show ?thesis using print_dec [OF assms(1-3)] print_hex [OF assms(1), of m] parse_dec [OF assms(2,3)] by fastforce
qed


text \<open>C37: \<^verbatim>\<open>std_strtoul\<close> accepts a digit whose value is the base itself, in every base it takes but the largest: the test that ends
  the number is \<^verbatim>\<open>v > base\<close>.\<close>

theorem std_strtoul_accepts_base:
  assumes "2 \<le> base" and "base < 36"
  shows "std_strtoul [conv_tab ! base, 0] (int base) = Some (of_nat base, [0])"
proof -
  have c: "digit_char_ok base (conv_tab ! base)" using assms by (intro conv_tab_chars) simp
  have u: "uint (of_nat base :: u32) = int base" using assms(2) by (simp add: unsigned_of_nat take_bit_nat_eq_self)
  moreover have "uint (- 1 :: u32) = 4294967295" by (simp add: unsigned_minus_1_eq_mask mask_eq_exp_minus_1)
  ultimately have m1: "(of_nat base :: u32) \<noteq> - 1" using assms by force
  have lp: "strtoul_loop (int base) 0 [conv_tab ! base, 0] = Some (int base, [0])"
    using c m1 u assms by (simp add: digit_char_ok_def Let_def long_val_def)
  have "strtoul_base (int base) [conv_tab ! base, 0] = Some (int base, [conv_tab ! base, 0])"
    using assms by (auto simp: strtoul_base_def deref_def tolower_def)
  then show ?thesis using lp assms conv_tab_first [of base]
    by (simp add: std_strtoul_def deref_def Let_def del: strtoul_loop.simps)
qed

text \<open>C33: At the first difference of two strings \<^verbatim>\<open>std_strncmp\<close> returns what \<^verbatim>\<open>std_strcmp\<close> returns if the two bytes are on the
  same side of 128, and the opposite if they are not: it compares signed characters.  On equal strings both return 0.\<close>

theorem std_strncmp_vs_strcmp:
  assumes "0 \<notin> set p" and "length p < n"
  shows "std_strncmp (p @ 0 # x) (p @ 0 # y) n = std_strcmp (p @ 0 # x) (p @ 0 # y) \<and>
     (c1 \<noteq> c2 \<longrightarrow>
      std_strncmp (p @ c1 # x) (p @ c2 # y) n =
        (if (c1 < 128) = (c2 < 128) then std_strcmp (p @ c1 # x) (p @ c2 # y)
         else map_option uminus (std_strcmp (p @ c1 # x) (p @ c2 # y))))"
proof -
  have "sint c1 < sint c2 \<longleftrightarrow> (if (c1 < 128) = (c2 < 128) then c1 < c2 else \<not> c1 < c2)"
    using uint_lt2p [of c1] uint_lt2p [of c2]
    by (auto simp: sint_u8 word_less_def; use uint_ge_0 [of c1] uint_ge_0 [of c2] in linarith)
  then show ?thesis using assms by (simp add: std_strcmp_diff std_strncmp_diff std_strcmp_same std_strncmp_same)
qed

section \<open>Witnesses\<close>

theorem print_then_strtoul_witness:
  "\<exists>buf' t len. std_vprint_long (replicate 32 1) (- 120) = Some (buf', t, len) \<and>
     std_strtoul (drop (nat t) buf') 10 = Some (- 120, [0])"
  using print_then_strtoul [of "replicate 32 1" "- 120" 0] by fastforce


theorem std_strtoul_accepts_base_witness: "std_strtoul [56, 0] 8 = Some (8, [0])"
  using std_strtoul_accepts_base [of 8] by (simp add: conv_tab_def)

theorem std_strncmp_vs_strcmp_witness:
  "std_strncmp [200, 0] [97, 0] 2 = Some (- 1) \<and> std_strcmp [200, 0] [97, 0] = Some 1"
  using std_strncmp_vs_strcmp [of "[]" 2 "[0]" "[0]" 200 97] by simp

end
