(* ===== verification/Pagemap.thy ===== *)
theory Pagemap
  imports Prelude
begin

text \<open>
  The page readers of \<^verbatim>\<open>criu/pagemap.c\<close>: the entries of a pagemap image, their validation, and the
  cursor that walks over them and over the pages image.  Entries come from an image and are kept at
  the width of their fields; \<^verbatim>\<open>off_t\<close> and \<^verbatim>\<open>int\<close> are integers, whose overflow the validation excludes.
\<close>

section \<open>Entries\<close>

abbreviation PAGE :: u64 where "PAGE \<equiv> 4096"

definition MAX_BLOCK_PAGES :: nat where "MAX_BLOCK_PAGES = 1024"
definition OFF_MAX :: int where "OFF_MAX = 2 ^ 63 - 1"

definition PE_PARENT :: u32 where "PE_PARENT = 1"
definition PE_LAZY :: u32 where "PE_LAZY = 2"
definition PE_PRESENT :: u32 where "PE_PRESENT = 4"
definition PE_PAYLOAD_ALIGNED :: u32 where "PE_PAYLOAD_ALIGNED = 8"

record pagemap_blocks =
  block_sizes :: "u32 list"
  total_payload_size :: u64
  pages_per_block :: u32

text \<open>The fields of a message of \<^verbatim>\<open>images/pagemap.proto\<close>, with the flags of the optional ones.\<close>

record pagemap_entry =
  vaddr :: u64
  compat_nr_pages :: u32
  has_in_parent :: bool
  in_parent :: bool
  has_flags :: bool
  flags :: u32
  has_nr_pages :: bool
  nr_pages :: u64
  blocks :: "pagemap_blocks option"

definition pagemap_len :: "pagemap_entry \<Rightarrow> u64" where
  "pagemap_len pe = nr_pages pe * PAGE"

definition pagemap_in_parent :: "pagemap_entry \<Rightarrow> bool" where
  "pagemap_in_parent pe = (flags pe AND PE_PARENT \<noteq> 0)"

definition pagemap_lazy :: "pagemap_entry \<Rightarrow> bool" where
  "pagemap_lazy pe = (flags pe AND PE_LAZY \<noteq> 0)"

definition pagemap_present :: "pagemap_entry \<Rightarrow> bool" where
  "pagemap_present pe = (flags pe AND PE_PRESENT \<noteq> 0)"

definition pagemap_payload_aligned :: "pagemap_entry \<Rightarrow> bool" where
  "pagemap_payload_aligned pe = (flags pe AND PE_PAYLOAD_ALIGNED \<noteq> 0)"

text \<open>The mask with the complement of \<^verbatim>\<open>PAGE_SIZE - 1\<close> rounds down.\<close>

definition pagemap_page_align_offset :: "int \<Rightarrow> int" where
  "pagemap_page_align_offset offset = (offset + 4096 - 1) div 4096 * 4096"

definition pagemap_block_pages :: "pagemap_entry \<Rightarrow> u32" where
  "pagemap_block_pages pe =
     (case blocks pe of Some bl \<Rightarrow> if pages_per_block bl > 0 then pages_per_block bl else 1 | None \<Rightarrow> 1)"

definition pagemap_align_down :: "pagemap_entry \<Rightarrow> u64 \<Rightarrow> u64" where
  "pagemap_align_down pe n =
     (let bp = pagemap_block_pages pe in
      if bp > 1 then let aligned = n - n mod ucast bp in if aligned \<noteq> 0 then aligned else n
      else n)"

definition block_nr_blocks :: "u64 \<Rightarrow> u32 \<Rightarrow> u64" where
  "block_nr_blocks n ppb = (if ppb \<le> 1 then n else (n + ucast ppb - 1) div ucast ppb)"

section \<open>Validation\<close>

definition init_compat_pagemap_entry :: "pagemap_entry \<Rightarrow> pagemap_entry" where
  "init_compat_pagemap_entry pe =
     (let pe = (if has_in_parent pe \<and> in_parent pe then pe\<lparr>flags := flags pe OR PE_PARENT\<rparr>
                else if \<not> has_flags pe then pe\<lparr>flags := PE_PRESENT\<rparr> else pe)
      in if \<not> has_nr_pages pe then pe\<lparr>nr_pages := ucast (compat_nr_pages pe)\<rparr> else pe)"

definition pagemap_entry_has_compressed :: "pagemap_entry \<Rightarrow> bool" where
  "pagemap_entry_has_compressed pe =
     (pagemap_present pe \<and> (case blocks pe of Some bl \<Rightarrow> block_sizes bl \<noteq> [] | None \<Rightarrow> False))"

text \<open>The loop over the blocks from number \<open>i\<close> on: \<open>None\<close> is the error return, otherwise the sum.\<close>

fun validate_blocks :: "pagemap_entry \<Rightarrow> u32 \<Rightarrow> nat \<Rightarrow> u32 list \<Rightarrow> u64 \<Rightarrow> u64 option" where
  "validate_blocks pe ppb i [] tot = Some tot"
| "validate_blocks pe ppb i (cs # css) tot =
     (let pages_done = of_nat i * ucast ppb;
          pages_left = nr_pages pe - pages_done;
          cur_pages = (if pages_left < ucast ppb then ucast pages_left else ppb) :: u32;
          block_bytes = ucast cur_pages * PAGE
      in if ucast cs > block_bytes then None
         else if tot > - 1 - ucast cs then None
         else validate_blocks pe ppb (Suc i) css (tot + ucast cs))"

definition validate_compressed_pagemap_entry :: "pagemap_entry \<Rightarrow> int" where
  "validate_compressed_pagemap_entry pe =
     (case blocks pe of
        None \<Rightarrow> 0
      | Some bl \<Rightarrow>
          if \<not> pagemap_present pe then - 1
          else if pages_per_block bl = 0 \<or> unat (pages_per_block bl) > MAX_BLOCK_PAGES then - 1
          else if length (block_sizes bl) \<noteq> unat (block_nr_blocks (nr_pages pe) (pages_per_block bl)) then - 1
          else
            (case validate_blocks pe (pages_per_block bl) 0 (block_sizes bl) 0 of
               None \<Rightarrow> - 1
             | Some tot \<Rightarrow> if total_payload_size bl \<noteq> tot then - 1 else 0))"

text \<open>The result and \<^verbatim>\<open>*previous_end\<close>.  On 64 bits every \<^verbatim>\<open>uint64_t\<close> is an address.\<close>

definition validate_pagemap_entry_layout :: "pagemap_entry \<Rightarrow> u64 \<Rightarrow> int \<times> u64" where
  "validate_pagemap_entry_layout pe previous_end =
     (if pagemap_payload_aligned pe \<and> \<not> pagemap_present pe then (- 1, previous_end)
      else if pagemap_present pe \<and> pagemap_in_parent pe then (- 1, previous_end)
      else if vaddr pe mod PAGE \<noteq> 0 then (- 1, previous_end)
      else if nr_pages pe = 0 then (- 1, previous_end)
      else if nr_pages pe > - 1 div PAGE then (- 1, previous_end)
      else
        let len = nr_pages pe * PAGE in
        if vaddr pe > - 1 - len then (- 1, previous_end)
        else
          let e = vaddr pe + len in
          if vaddr pe < previous_end then (- 1, previous_end) else (0, e))"

fun sum_sizes :: "u32 list \<Rightarrow> u64 \<Rightarrow> u64" where
  "sum_sizes [] payload = payload"
| "sum_sizes (cs # css) payload = sum_sizes css (payload + ucast cs)"

text \<open>The result and \<^verbatim>\<open>*offset\<close>.\<close>

definition validate_pages_image_layout :: "pagemap_entry \<Rightarrow> int \<Rightarrow> int \<times> int" where
  "validate_pages_image_layout pe offset =
     (if \<not> pagemap_present pe then (0, offset)
      else if pagemap_payload_aligned pe \<and> (offset < 0 \<or> offset > OFF_MAX - (4096 - 1)) then (- 1, offset)
      else
        let offset = (if pagemap_payload_aligned pe then pagemap_page_align_offset offset else offset);
            payload = (case blocks pe of Some bl \<Rightarrow> sum_sizes (block_sizes bl) 0 | None \<Rightarrow> nr_pages pe * PAGE)
        in if payload > word_of_int (OFF_MAX - offset) then (- 1, offset)
           else (0, offset + uint payload))"

text \<open>
  The loop of \<^verbatim>\<open>init_pagemaps\<close> over the messages of the image: an entry, or \<open>None\<close> for a message that cannot be
  read.  \<open>alloc\<close> is the result of each \<^verbatim>\<open>xrealloc\<close>, by the new capacity; at most \<^verbatim>\<open>INT_MAX\<close> entries are
  read.  The result is \<open>None\<close> for the error return, otherwise \<^verbatim>\<open>pmes\<close>.
\<close>

fun init_pagemaps_loop ::
  "(nat \<Rightarrow> bool) \<Rightarrow> nat \<Rightarrow> pagemap_entry list \<Rightarrow> u64 \<Rightarrow> int \<Rightarrow> pagemap_entry option list \<Rightarrow> pagemap_entry list option" where
  "init_pagemaps_loop alloc capacity pmes previous_end pages_offset msgs =
     (let full = (length pmes = capacity); new_capacity = min (capacity * 2) (2 ^ 31 - 1) in
      if full \<and> (capacity \<ge> 2 ^ 31 - 1 \<or> \<not> alloc new_capacity) then None
      else
        let capacity = (if full then new_capacity else capacity) in
        case msgs of
          [] \<Rightarrow> Some pmes
        | None # _ \<Rightarrow> None
        | Some pe # msgs \<Rightarrow>
            let pe = init_compat_pagemap_entry pe;
                (r, previous_end) = validate_pagemap_entry_layout pe previous_end
            in if r \<noteq> 0 then None
               else if validate_compressed_pagemap_entry pe \<noteq> 0 then None
               else let (r, pages_offset) = validate_pages_image_layout pe pages_offset
                    in if r \<noteq> 0 then None
                       else init_pagemaps_loop alloc capacity (pmes @ [pe]) previous_end pages_offset msgs)"

definition init_pagemaps :: "(nat \<Rightarrow> bool) \<Rightarrow> pagemap_entry option list \<Rightarrow> pagemap_entry list option" where
  "init_pagemaps alloc msgs = (if alloc 64 then init_pagemaps_loop alloc 64 [] 0 0 msgs else None)"

section \<open>The cursor\<close>

text \<open>\<open>pe\<close> is null before the first entry; \<open>bunch_base\<close> and \<open>bunch_len\<close> are \<^verbatim>\<open>bunch\<close>.\<close>

record page_read =
  pmes :: "pagemap_entry list"
  curr_pme :: int
  pe :: "pagemap_entry option"
  cvaddr :: u64
  pi_off :: int
  stream_padding :: int
  block_idx :: nat
  block_offset :: u32
  bunch_base :: u64
  bunch_len :: u64
  disable_dedup :: bool

definition advance :: "page_read \<Rightarrow> int \<times> page_read" where
  "advance pr =
     (let pr = pr\<lparr>curr_pme := curr_pme pr + 1\<rparr> in
      if curr_pme pr \<ge> int (length (pmes pr)) then (0, pr)
      else
        let e = pmes pr ! nat (curr_pme pr);
            pr = pr\<lparr>pe := Some e, cvaddr := vaddr e, stream_padding := 0\<rparr>
        in if pagemap_present e \<and> pagemap_payload_aligned e then
             if pi_off pr < 0 \<or> pi_off pr > OFF_MAX - (4096 - 1) then (0, pr)
             else let aligned = pagemap_page_align_offset (pi_off pr)
                  in (1, pr\<lparr>stream_padding := aligned - pi_off pr, pi_off := aligned, block_idx := 0, block_offset := 0\<rparr>)
           else (1, pr\<lparr>block_idx := 0, block_offset := 0\<rparr>))"

definition current_block_pages :: "pagemap_entry \<Rightarrow> nat \<Rightarrow> u32" where
  "current_block_pages e idx =
     (let block_pages = pagemap_block_pages e;
          pages_before = of_nat idx * ucast block_pages;
          pages_left = nr_pages e - pages_before
      in if pages_left < ucast block_pages then ucast pages_left else block_pages)"

text \<open>The walk over the blocks of an entry: the offset in the image, the block and the page in it.\<close>

partial_function (option) skip_blocks ::
  "pagemap_entry \<Rightarrow> u32 list \<Rightarrow> u64 \<Rightarrow> int \<Rightarrow> nat \<Rightarrow> u32 \<Rightarrow> (int \<times> nat \<times> u32) option" where
  "skip_blocks e sizes nr poff idx boff =
     (if nr > 0 then
        let bp = current_block_pages e idx;
            avail = bp - boff;
            tk = (if nr < ucast avail then ucast nr else avail)
        in if idx \<ge> length sizes then None
           else
             let boff = boff + tk; nr = nr - ucast tk
             in if boff = bp then skip_blocks e sizes nr (poff + uint (sizes ! idx)) (idx + 1) 0
                else skip_blocks e sizes nr poff idx boff
      else Some (poff, idx, boff))"

definition skip_pagemap_pages :: "page_read \<Rightarrow> u64 \<Rightarrow> page_read option" where
  "skip_pagemap_pages pr len =
     (if len = 0 then Some pr
      else
        do {
          e \<leftarrow> pe pr;
          pr \<leftarrow>
            (if pagemap_present e then
               (case blocks e of
                  None \<Rightarrow> Some (pr\<lparr>pi_off := pi_off pr + uint len\<rparr>)
                | Some bl \<Rightarrow>
                    if block_sizes bl = [] then Some (pr\<lparr>pi_off := pi_off pr + uint len\<rparr>)
                    else if block_idx pr = 0 \<and> block_offset pr = 0 \<and> len div PAGE = nr_pages e then
                      Some (pr\<lparr>pi_off := pi_off pr + uint (total_payload_size bl), block_idx := length (block_sizes bl)\<rparr>)
                    else
                      do { (poff, idx, boff) \<leftarrow>
                             skip_blocks e (block_sizes bl) (len div PAGE) (pi_off pr) (block_idx pr) (block_offset pr);
                           Some (pr\<lparr>pi_off := poff, block_idx := idx, block_offset := boff\<rparr>) })
             else Some pr);
          Some (pr\<lparr>cvaddr := cvaddr pr + len\<rparr>)
        })"

partial_function (option) seek_pagemap_loop :: "page_read \<Rightarrow> u64 \<Rightarrow> (int \<times> page_read) option" where
  "seek_pagemap_loop pr v =
     do {
       e \<leftarrow> pe pr;
       let start = vaddr e;
       let fin = start + pagemap_len e;
       if v < cvaddr pr then Some (0, pr)
       else if v \<ge> start \<and> v < fin then do { pr \<leftarrow> skip_pagemap_pages pr (v - cvaddr pr); Some (1, pr) }
       else do {
         pr \<leftarrow> (if fin \<le> v then skip_pagemap_pages pr (fin - cvaddr pr) else Some pr);
         case advance pr of (r, pr) \<Rightarrow> if r \<noteq> 0 then seek_pagemap_loop pr v else Some (0, pr)
       }
     }"

definition seek_pagemap :: "page_read \<Rightarrow> u64 \<Rightarrow> (int \<times> page_read) option" where
  "seek_pagemap pr v =
     (if pe pr = None then
        case advance pr of (r, pr) \<Rightarrow> if r \<noteq> 0 then seek_pagemap_loop pr v else Some (0, pr)
      else seek_pagemap_loop pr v)"

text \<open>\<^verbatim>\<open>BUG\<close> is \<open>None\<close>.\<close>

definition pagemap_bound_check :: "pagemap_entry \<Rightarrow> u64 \<Rightarrow> u64 \<Rightarrow> unit option" where
  "pagemap_bound_check e v nr =
     (if v < vaddr e \<or> (v - vaddr e) div PAGE + nr > nr_pages e then None else Some ())"

text \<open>The readers of an incremental image: the reader and its parents.\<close>

definition reset_one :: "page_read \<Rightarrow> page_read" where
  "reset_one pr = pr\<lparr>cvaddr := 0, pi_off := 0, stream_padding := 0, block_idx := 0, block_offset := 0, curr_pme := - 1, pe := None\<rparr>"

fun reset_pagemap :: "page_read list \<Rightarrow> page_read list" where
  "reset_pagemap [] = []"
| "reset_pagemap (pr # parents) = reset_one pr # reset_pagemap parents"

fun page_read_disable_dedup :: "page_read list \<Rightarrow> page_read list" where
  "page_read_disable_dedup [] = []"
| "page_read_disable_dedup (pr # parents) = pr\<lparr>disable_dedup := True\<rparr> # page_read_disable_dedup parents"

definition page_read_has_compressed_entries :: "page_read \<Rightarrow> bool" where
  "page_read_has_compressed_entries pr = list_ex pagemap_entry_has_compressed (pmes pr)"

section \<open>Questions about ranges\<close>

text \<open>The binary search for the first entry whose end is after \<open>start\<close>.\<close>

function find_first :: "pagemap_entry list \<Rightarrow> u64 \<Rightarrow> nat \<Rightarrow> nat \<Rightarrow> nat" where
  "find_first es start left right =
     (if left < right then
        let middle = left + (right - left) div 2; e = es ! middle in
        if vaddr e + pagemap_len e \<le> start then find_first es start (middle + 1) right
        else find_first es start left middle
      else left)"
  by pat_completeness auto

termination
  by (relation "measure (\<lambda>(es, start, left, right). right - left)") auto

declare find_first.simps [simp del]

fun has_parent_loop :: "pagemap_entry list \<Rightarrow> u64 \<Rightarrow> u64 \<Rightarrow> int" where
  "has_parent_loop [] start fin = 0"
| "has_parent_loop (e # es) start fin =
     (if vaddr e \<ge> fin then 0
      else if vaddr e + pagemap_len e > start \<and> pagemap_in_parent e then 1
      else has_parent_loop es start fin)"

definition page_read_range_has_parent :: "page_read \<Rightarrow> u64 \<Rightarrow> u64 \<Rightarrow> int" where
  "page_read_range_has_parent pr start fin =
     (if start \<ge> fin \<or> start mod PAGE \<noteq> 0 \<or> fin mod PAGE \<noteq> 0 then - 1
      else has_parent_loop (drop (find_first (pmes pr) start 0 (length (pmes pr))) (pmes pr)) start fin)"

end
