(* ===== verification/PagemapSeek.thy ===== *)
theory PagemapSeek
  imports Pagemap
begin

text \<open>
  The validated entries of a pagemap image are sorted, do not overlap and describe payloads that fit
  in the pages image.  Over them the cursor of a page reader refines a position in the address space: it is
  always at the offset of the next page in the pages image, whatever is skipped.
\<close>

section \<open>Entries as ranges of numbers\<close>

definition e_lo :: "pagemap_entry \<Rightarrow> nat" where "e_lo e = unat (vaddr e)"
definition e_np :: "pagemap_entry \<Rightarrow> nat" where "e_np e = unat (nr_pages e)"
definition e_hi :: "pagemap_entry \<Rightarrow> nat" where "e_hi e = e_lo e + e_np e * 4096"
definition e_bp :: "pagemap_entry \<Rightarrow> nat" where "e_bp e = unat (pagemap_block_pages e)"

definition e_sizes :: "pagemap_entry \<Rightarrow> nat list" where
  "e_sizes e = (case blocks e of Some bl \<Rightarrow> map unat (block_sizes bl) | None \<Rightarrow> [])"

definition e_nblocks :: "pagemap_entry \<Rightarrow> nat" where "e_nblocks e = (e_np e + e_bp e - 1) div e_bp e"

text \<open>The pages of a block; the last one may be shorter.\<close>

definition e_cur :: "pagemap_entry \<Rightarrow> nat \<Rightarrow> nat" where "e_cur e i = min (e_bp e) (e_np e - i * e_bp e)"

definition blocks_ok :: "pagemap_entry \<Rightarrow> pagemap_blocks \<Rightarrow> bool" where
  "blocks_ok e bl \<longleftrightarrow> pagemap_present e \<and> 1 \<le> e_bp e \<and> e_bp e \<le> MAX_BLOCK_PAGES \<and>
     length (e_sizes e) = e_nblocks e \<and> (\<forall>i < e_nblocks e. e_sizes e ! i \<le> e_cur e i * 4096) \<and>
     unat (total_payload_size bl) = sum_list (e_sizes e)"

definition pe_ok :: "pagemap_entry \<Rightarrow> bool" where
  "pe_ok e \<longleftrightarrow> (pagemap_payload_aligned e \<longrightarrow> pagemap_present e) \<and> \<not> (pagemap_present e \<and> pagemap_in_parent e) \<and>
     4096 dvd e_lo e \<and> 0 < e_np e \<and> e_hi e < 2 ^ 64 \<and>
     (case blocks e of None \<Rightarrow> True | Some bl \<Rightarrow> blocks_ok e bl)"

definition pmap_ok :: "pagemap_entry list \<Rightarrow> bool" where
  "pmap_ok es \<longleftrightarrow> (\<forall>e \<in> set es. pe_ok e) \<and> sorted_wrt (\<lambda>e f. e_hi e \<le> e_lo f) es"

text \<open>The bytes of an entry in the pages image, and where they start after the offset \<open>off\<close>.\<close>

definition payload :: "pagemap_entry \<Rightarrow> nat" where
  "payload e = (if \<not> pagemap_present e then 0 else if blocks e = None then e_np e * 4096 else sum_list (e_sizes e))"

definition align_to :: "pagemap_entry \<Rightarrow> int \<Rightarrow> int" where
  "align_to e off = (if pagemap_present e \<and> pagemap_payload_aligned e then pagemap_page_align_offset off else off)"

fun ent_off :: "pagemap_entry list \<Rightarrow> int \<Rightarrow> nat \<Rightarrow> int" where
  "ent_off [] off i = off"
| "ent_off (e # es) off 0 = align_to e off"
| "ent_off (e # es) off (Suc i) = ent_off es (align_to e off + int (payload e)) i"

fun end_off :: "pagemap_entry list \<Rightarrow> int \<Rightarrow> int" where
  "end_off [] off = off"
| "end_off (e # es) off = end_off es (align_to e off + int (payload e))"

text \<open>No offset overflows, and none that has to be aligned is refused.\<close>

fun offs_ok :: "pagemap_entry list \<Rightarrow> int \<Rightarrow> bool" where
  "offs_ok [] off = (0 \<le> off \<and> off \<le> OFF_MAX)"
| "offs_ok (e # es) off = (0 \<le> off \<and> off \<le> OFF_MAX \<and> (pagemap_present e \<and> pagemap_payload_aligned e \<longrightarrow> off \<le> OFF_MAX - 4095) \<and>
     offs_ok es (align_to e off + int (payload e)))"

lemma end_off_append: "end_off (es @ fs) off = end_off fs (end_off es off)"
  by (induction es arbitrary: off) auto

lemma offs_ok_append: "offs_ok (es @ fs) off \<longleftrightarrow> offs_ok es off \<and> offs_ok fs (end_off es off)"
proof (induction es arbitrary: off)
  case Nil
  then show ?case by (cases fs) auto
qed auto

lemma offs_ok_off: "offs_ok es off \<Longrightarrow> 0 \<le> off \<and> off \<le> OFF_MAX"
  by (cases es) auto

section \<open>What the validation accepts\<close>

lemma unat_lt_u32: "unat (x :: u32) < 2 ^ 32"
  using unsigned_less [of x, where ?'a = nat] by simp

lemma unat_of_nat_u32: "n < 2 ^ 32 \<Longrightarrow> unat (of_nat n :: u32) = n"
  by (simp add: unat_of_nat)

lemma unat_ucast_u32: "unat (ucast (x :: u32) :: u64) = unat x"
  using unat_lt_u32 [of x] by (simp add: unsigned_ucast_eq take_bit_nat_eq_self)

lemma unat_m1: "unat (- 1 :: u64) = 2 ^ 64 - 1"
  by (simp add: unsigned_minus_1_eq_mask mask_eq_exp_minus_1)

lemma unat_mult_page: "unat x * 4096 < 2 ^ 64 \<Longrightarrow> unat (x * PAGE) = unat x * 4096"
  by (simp add: unat_word_ariths)

lemma pages_bound: "x \<le> - 1 div PAGE \<Longrightarrow> unat x * 4096 < 2 ^ 64"
proof -
  assume "x \<le> - 1 div PAGE"
  then have "unat x \<le> unat (- 1 div PAGE)" by (simp only: word_le_nat_alt)
  also have "unat (- 1 div PAGE :: u64) = (2 ^ 64 - 1) div 4096" by (simp add: unat_div unat_m1)
  finally show ?thesis by simp
qed

lemma validate_layout_ok:
  assumes "validate_pagemap_entry_layout e p = (0, p')"
  shows "(pagemap_payload_aligned e \<longrightarrow> pagemap_present e) \<and> \<not> (pagemap_present e \<and> pagemap_in_parent e) \<and>
     4096 dvd e_lo e \<and> 0 < e_np e \<and> e_hi e < 2 ^ 64 \<and> unat p \<le> e_lo e \<and> unat p' = e_hi e"
proof -
  have c: "pagemap_payload_aligned e \<longrightarrow> pagemap_present e" "\<not> (pagemap_present e \<and> pagemap_in_parent e)"
      "vaddr e mod PAGE = 0" "nr_pages e \<noteq> 0" "nr_pages e \<le> - 1 div PAGE" "vaddr e \<le> - 1 - nr_pages e * PAGE"
      "p \<le> vaddr e" "p' = vaddr e + nr_pages e * PAGE"
    using assms by (auto simp: validate_pagemap_entry_layout_def Let_def not_less split: if_splits)
  have len: "unat (nr_pages e * PAGE) = e_np e * 4096" using unat_mult_page [OF pages_bound [OF c(5)]] by (simp add: e_np_def)
  have "unat (- 1 - nr_pages e * PAGE) = 2 ^ 64 - 1 - e_np e * 4096"
    using len by (subst unat_sub) (simp_all add: unat_m1)
  then have "e_lo e \<le> 2 ^ 64 - 1 - e_np e * 4096" using c(6) by (simp add: e_lo_def word_le_nat_alt)
  moreover have "e_np e * 4096 < 2 ^ 64" using pages_bound [OF c(5)] by (simp add: e_np_def)
  ultimately have hi: "e_hi e < 2 ^ 64" by (simp add: e_hi_def)
  have "unat (vaddr e mod PAGE) = 0" using c(3) by simp
  then have "4096 dvd e_lo e" by (simp add: e_lo_def unat_mod mod_eq_0_iff_dvd)
  moreover have "0 < e_np e" using c(4) by (simp add: e_np_def unat_gt_0)
  moreover have "unat p' = e_hi e" using c(8) len hi by (simp add: unat_plus_eq e_hi_def e_lo_def)
  ultimately show ?thesis using c hi by (simp add: e_lo_def word_le_nat_alt)
qed

lemma ceil_div_less: "0 < b \<Longrightarrow> i < (n + b - 1) div b \<longleftrightarrow> i * b < (n :: nat)"
proof -
  assume b: "0 < b"
  have "i < (n + b - 1) div b \<longleftrightarrow> Suc i \<le> (n + b - 1) div b" by (rule Suc_le_eq [symmetric])
  also have "\<dots> \<longleftrightarrow> Suc i * b \<le> n + b - 1" using b by (rule less_eq_div_iff_mult_less_eq)
  also have "\<dots> \<longleftrightarrow> i * b < n" using b by (cases b) auto
  finally show ?thesis .
qed

lemma block_start: "1 \<le> e_bp e \<Longrightarrow> i < e_nblocks e \<longleftrightarrow> i * e_bp e < e_np e"
  unfolding e_nblocks_def by (rule ceil_div_less) simp

lemma cur_pages:
  assumes bp: "1 \<le> e_bp e" "e_bp e \<le> MAX_BLOCK_PAGES" and i: "i * e_bp e < e_np e"
  shows "current_block_pages e i = of_nat (e_cur e i)" and "e_cur e i \<le> 1024" and "0 < e_cur e i"
proof -
  have b: "e_bp e \<le> 1024" using bp(2) by (simp add: MAX_BLOCK_PAGES_def)
  have np: "e_np e < 2 ^ 64" unfolding e_np_def by (rule unat_lt_u64)
  have "i \<le> i * e_bp e" using bp(1) by (cases "e_bp e") auto
  then have oi: "unat (of_nat i :: u64) = i" using i np by (intro unat_of_nat_u64) linarith
  have ub: "unat (ucast (pagemap_block_pages e) :: u64) = e_bp e" by (simp add: unat_ucast_u32 e_bp_def)
  have before: "unat (of_nat i * ucast (pagemap_block_pages e) :: u64) = i * e_bp e"
    using i np oi ub by (simp add: unat_word_ariths)
  then have "of_nat i * ucast (pagemap_block_pages e) \<le> nr_pages e" using i by (simp add: word_le_nat_alt e_np_def)
  from unat_sub [OF this] before
  have left: "unat (nr_pages e - of_nat i * ucast (pagemap_block_pages e)) = e_np e - i * e_bp e" by (simp add: e_np_def)
  define l where "l = nr_pages e - of_nat i * ucast (pagemap_block_pages e)"
  have lt: "l < ucast (pagemap_block_pages e) \<longleftrightarrow> e_np e - i * e_bp e < e_bp e"
    using left ub by (simp add: word_less_nat_alt l_def)
  have bb: "pagemap_block_pages e = of_nat (e_bp e)" by (simp add: e_bp_def)
  have ll: "ucast l = (of_nat (e_np e - i * e_bp e) :: u32)" unfolding l_def left [symmetric] by (rule of_nat_unat [symmetric])
  show "current_block_pages e i = of_nat (e_cur e i)"
    unfolding current_block_pages_def Let_def l_def [symmetric] e_cur_def using lt bb ll by (auto simp: min_def)
  show "e_cur e i \<le> 1024" "0 < e_cur e i" using b bp(1) i by (auto simp: e_cur_def)
qed

lemma validate_blocks_ok:
  assumes bp: "1 \<le> e_bp e" "e_bp e \<le> MAX_BLOCK_PAGES" and ppb: "pagemap_block_pages e = ppb"
    and n: "i + length css = e_nblocks e" and v: "validate_blocks e ppb i css t = Some t'"
  shows "unat t' = unat t + sum_list (map unat css) \<and> (\<forall>j < length css. unat (css ! j) \<le> e_cur e (i + j) * 4096)"
  using n v
proof (induction css arbitrary: i t)
  case (Cons cs css)
  have i: "i * e_bp e < e_np e" using block_start [OF bp(1), of i] Cons(2) by simp
  note cp = cur_pages [OF bp i]
  have cur: "(if nr_pages e - of_nat i * ucast ppb < ucast ppb then ucast (nr_pages e - of_nat i * ucast ppb) else ppb) = (of_nat (e_cur e i) :: u32)"
    using cp(1) ppb by (simp add: current_block_pages_def Let_def)
  have "unat (ucast (of_nat (e_cur e i) :: u32) * PAGE) = e_cur e i * 4096"
    using cp(2) by (subst unat_mult_page) (simp_all add: unat_ucast_u32 unat_of_nat_u32)
  then have c1: "ucast cs \<le> ucast (of_nat (e_cur e i) :: u32) * PAGE \<longleftrightarrow> unat cs \<le> e_cur e i * 4096"
    by (simp add: word_le_nat_alt unat_ucast_u32)
  have "unat (- 1 - ucast cs :: u64) = 2 ^ 64 - 1 - unat cs"
    by (subst unat_sub) (simp_all add: unat_m1 unat_ucast_u32)
  then have c2: "t \<le> - 1 - ucast cs \<longleftrightarrow> unat t + unat cs < 2 ^ 64"
    using unat_lt_u32 [of cs] by (auto simp: word_le_nat_alt)
  from Cons(3) have v: "ucast cs \<le> ucast (of_nat (e_cur e i) :: u32) * PAGE" "t \<le> - 1 - ucast cs"
      "validate_blocks e ppb (Suc i) css (t + ucast cs) = Some t'"
    by (auto simp: cur Let_def not_less split: if_splits)
  have "unat (t + ucast cs) = unat t + unat cs" using c2 v(2) by (simp add: unat_plus_eq unat_ucast_u32)
  moreover have "Suc i + length css = e_nblocks e" using Cons(2) by simp
  note Cons(1) [OF this v(3)]
  ultimately show ?case using c1 v(1) by (auto simp: nth_Cons split: nat.splits)
qed simp

lemma validate_compressed_ok:
  assumes "validate_compressed_pagemap_entry e = 0" and "e_np e * 4096 < 2 ^ 64"
  shows "case blocks e of None \<Rightarrow> True | Some bl \<Rightarrow> blocks_ok e bl"
proof (cases "blocks e")
  case (Some bl)
  define ppb where "ppb = pages_per_block bl"
  obtain t where c: "pagemap_present e" "ppb \<noteq> 0" "unat ppb \<le> MAX_BLOCK_PAGES"
      "length (block_sizes bl) = unat (block_nr_blocks (nr_pages e) ppb)"
      "validate_blocks e ppb 0 (block_sizes bl) 0 = Some t" "total_payload_size bl = t"
    using assms(1) Some unfolding validate_compressed_pagemap_entry_def
    by (auto simp: ppb_def not_less split: if_splits option.splits)
  have bpe: "pagemap_block_pages e = ppb" using Some c(2) by (simp add: pagemap_block_pages_def ppb_def word_gt_0)
  have bp: "e_bp e = unat ppb" "1 \<le> e_bp e" "e_bp e \<le> MAX_BLOCK_PAGES"
    using bpe c(2,3) by (auto simp: e_bp_def Suc_le_eq unat_gt_0)
  have b: "unat ppb \<le> 1024" using c(3) by (simp add: MAX_BLOCK_PAGES_def)
  have nb: "unat (block_nr_blocks (nr_pages e) ppb) = e_nblocks e"
  proof (cases "ppb \<le> 1")
    case True
    then have "unat ppb \<le> 1" by (simp add: word_le_nat_alt)
    then have "e_bp e = 1" using bp by simp
    then show ?thesis using True by (simp add: block_nr_blocks_def e_nblocks_def e_np_def)
  next
    case False
    have s: "unat (nr_pages e + ucast ppb) = e_np e + e_bp e"
      using assms(2) b bp(1) by (simp add: unat_plus_eq unat_ucast_u32 e_np_def)
    then have "unat (nr_pages e + ucast ppb - 1) = e_np e + e_bp e - 1"
      using bp(2) by (subst unat_sub) (simp_all add: word_le_nat_alt)
    then show ?thesis using False bp by (simp add: block_nr_blocks_def unat_div unat_ucast_u32 e_nblocks_def)
  qed
  have len: "0 + length (block_sizes bl) = e_nblocks e" using c(4) nb by simp
  have sz: "e_sizes e = map unat (block_sizes bl)" using Some by (simp add: e_sizes_def)
  from validate_blocks_ok [OF bp(2,3) bpe len c(5)] c(1,6) bp len
  have "blocks_ok e bl" by (auto simp: blocks_ok_def sz)
  then show ?thesis using Some by simp
qed simp

lemma sum_sizes_eq: "unat t + sum_list (map unat css) < 2 ^ 64 \<Longrightarrow> unat (sum_sizes css t) = unat t + sum_list (map unat css)"
proof (induction css arbitrary: t)
  case (Cons cs css)
  then have "unat (t + ucast cs) = unat t + unat cs" by (simp add: unat_plus_eq unat_ucast_u32)
  then show ?case using Cons by simp
qed simp

lemma align_up: "0 \<le> off \<Longrightarrow> off \<le> pagemap_page_align_offset off \<and> pagemap_page_align_offset off \<le> off + 4095"
  unfolding pagemap_page_align_offset_def by linarith

lemma validate_image_ok:
  assumes e: "pe_ok e" and off: "0 \<le> off" "off \<le> OFF_MAX" and v: "validate_pages_image_layout e off = (0, off')"
  shows "off' = align_to e off + int (payload e) \<and> off' \<le> OFF_MAX \<and>
     (pagemap_present e \<and> pagemap_payload_aligned e \<longrightarrow> off \<le> OFF_MAX - 4095)"
proof (cases "pagemap_present e")
  case False
  then show ?thesis using v off by (auto simp: validate_pages_image_layout_def align_to_def payload_def)
next
  case True
  define w where "w = (case blocks e of Some bl \<Rightarrow> sum_sizes (block_sizes bl) 0 | None \<Rightarrow> nr_pages e * PAGE)"
  have np: "e_np e * 4096 < 2 ^ 64" using e by (auto simp: pe_ok_def e_hi_def)
  have w: "unat w = payload e"
  proof (cases "blocks e")
    case None
    then show ?thesis using True np by (simp add: w_def payload_def unat_mult_page e_np_def)
  next
    case (Some bl)
    then have "blocks_ok e bl" using e by (simp add: pe_ok_def)
    then have "sum_list (map unat (block_sizes bl)) < 2 ^ 64"
      using unat_lt_u64 [of "total_payload_size bl"] Some by (simp add: blocks_ok_def e_sizes_def)
    then show ?thesis using Some True sum_sizes_eq [of 0 "block_sizes bl"] by (simp add: w_def payload_def e_sizes_def)
  qed
  have al: "pagemap_payload_aligned e \<Longrightarrow> off \<le> OFF_MAX - 4095" "0 \<le> align_to e off" "align_to e off \<le> OFF_MAX"
    "w \<le> word_of_int (OFF_MAX - align_to e off)" "off' = align_to e off + uint w"
    using v True off align_up [OF off(1)]
    by (auto simp: validate_pages_image_layout_def align_to_def w_def Let_def not_less split: if_splits)
  have "uint w \<le> OFF_MAX - align_to e off"
  proof -
    have "uint (word_of_int (OFF_MAX - align_to e off) :: u64) = OFF_MAX - align_to e off"
      using al(2,3) by (subst uint_word_of_int_eq) (simp add: take_bit_int_eq_self OFF_MAX_def)
    then show ?thesis using al(4) by (simp add: word_le_def)
  qed
  then show ?thesis using al w True by (simp flip: w)
qed

text \<open>The invariant of the loop over the image.\<close>

definition init_inv :: "pagemap_entry list \<Rightarrow> u64 \<Rightarrow> int \<Rightarrow> bool" where
  "init_inv es prev off \<longleftrightarrow> pmap_ok es \<and> (\<forall>e \<in> set es. e_hi e \<le> unat prev) \<and> offs_ok es 0 \<and> end_off es 0 = off"

lemma init_inv_step:
  assumes inv: "init_inv es prev off" and l: "validate_pagemap_entry_layout e prev = (0, prev')"
    and c: "validate_compressed_pagemap_entry e = 0" and i: "validate_pages_image_layout e off = (0, off')"
  shows "init_inv (es @ [e]) prev' off'"
proof -
  note L = validate_layout_ok [OF l]
  have "e_np e * 4096 < 2 ^ 64" using L by (auto simp: e_hi_def)
  from validate_compressed_ok [OF c this] L have e: "pe_ok e" by (auto simp: pe_ok_def)
  have off: "0 \<le> off" "off \<le> OFF_MAX" using inv offs_ok_append [of es "[]" 0] by (auto simp: init_inv_def)
  note I = validate_image_ok [OF e off i]
  have "e_lo e \<le> e_hi e" by (simp add: e_hi_def)
  then have hi: "e_hi f \<le> e_lo e" "e_hi f \<le> e_hi e" if "f \<in> set es" for f
    using that inv L by (force simp: init_inv_def)+
  have "0 \<le> align_to e off" using align_up [OF off(1)] off by (auto simp: align_to_def)
  then show ?thesis using inv L e I hi off
    by (auto simp: init_inv_def pmap_ok_def sorted_wrt_append offs_ok_append end_off_append)
qed

lemma init_pagemaps_loop_ok:
  assumes "init_pagemaps_loop alloc cap es prev off msgs = Some es'" and "init_inv es prev off"
    and "length es \<le> cap" and "cap < 2 ^ 31" and "1 \<le> cap"
  shows "(\<exists>prev' off'. init_inv es' prev' off') \<and> length es' < 2 ^ 31 \<and>
     es' = es @ map (\<lambda>m. init_compat_pagemap_entry (the m)) msgs \<and> None \<notin> set msgs"
  using assms
proof (induction msgs arbitrary: cap es prev off)
  case Nil
  then have "es' = es" by (subst (asm) init_pagemaps_loop.simps) (auto simp: Let_def split: if_splits)
  then show ?case using Nil by auto
next
  case (Cons m ms)
  let ?new = "min (cap * 2) (2 ^ 31 - 1)"
  define cap' where "cap' = (if length es = cap then ?new else cap)"
  have nofail: "\<not> (length es = cap \<and> (2 ^ 31 - 1 \<le> cap \<or> \<not> alloc ?new))"
    using Cons(2) by (subst (asm) init_pagemaps_loop.simps) (auto simp: Let_def split: if_splits)
  have cap': "length es < cap'" "cap' < 2 ^ 31" "1 \<le> cap'"
    using nofail Cons(4-6) by (auto simp: cap'_def min_def)
  show ?case
  proof (cases m)
    case None
    then show ?thesis using Cons(2) by (subst (asm) init_pagemaps_loop.simps) (auto simp: Let_def split: if_splits)
  next
    case (Some pe)
    define e where "e = init_compat_pagemap_entry pe"
    obtain r1 prev' where l: "validate_pagemap_entry_layout e prev = (r1, prev')" by force
    obtain r2 off' where v: "validate_pages_image_layout e off = (r2, off')" by force
    have ok: "r1 = 0" "validate_compressed_pagemap_entry e = 0" "r2 = 0"
        "init_pagemaps_loop alloc cap' (es @ [e]) prev' off' ms = Some es'"
      using Cons(2) nofail l v unfolding Some init_pagemaps_loop.simps [of alloc cap es prev off] Let_def cap'_def
      by (auto simp: e_def [symmetric] split: if_splits)
    have inv: "init_inv (es @ [e]) prev' off'" using init_inv_step [OF Cons(3)] l v ok by simp
    have le: "length (es @ [e]) \<le> cap'" using cap'(1) by simp
    from Cons(1) [OF ok(4) inv le cap'(2,3)] show ?thesis unfolding Some by (auto simp: e_def)
  qed
qed

section \<open>The position of a cursor\<close>

text \<open>After \<open>k\<close> pages of an entry: the block, the page in it, and the bytes of the payload before the block, or
  before the page when the entry is not compressed.\<close>

definition b_idx :: "pagemap_entry \<Rightarrow> nat \<Rightarrow> nat" where
  "b_idx e k = (if k = e_np e then e_nblocks e else k div e_bp e)"

definition b_off :: "pagemap_entry \<Rightarrow> nat \<Rightarrow> nat" where
  "b_off e k = (if k = e_np e then 0 else k mod e_bp e)"

definition skipped :: "pagemap_entry \<Rightarrow> nat \<Rightarrow> nat" where
  "skipped e k = (if \<not> pagemap_present e then 0 else if blocks e = None then k * 4096 else sum_list (take (b_idx e k) (e_sizes e)))"

text \<open>The cursor is in front of page \<open>k\<close> of entry \<open>i\<close>.\<close>

definition at_page :: "page_read \<Rightarrow> nat \<Rightarrow> nat \<Rightarrow> bool" where
  "at_page pr i k \<longleftrightarrow> i < length (pmes pr) \<and> k \<le> e_np (pmes pr ! i) \<and> pe pr = Some (pmes pr ! i) \<and>
     unat (cvaddr pr) = e_lo (pmes pr ! i) + k * 4096 \<and>
     pi_off pr = ent_off (pmes pr) 0 i + int (skipped (pmes pr ! i) k) \<and>
     (blocks (pmes pr ! i) \<noteq> None \<longrightarrow> block_idx pr = b_idx (pmes pr ! i) k \<and> block_offset pr = of_nat (b_off (pmes pr ! i) k))"

lemma pe_ok_blocks: "pe_ok e \<Longrightarrow> blocks e = Some bl \<Longrightarrow> blocks_ok e bl"
  by (simp add: pe_ok_def)

lemma b_pos_last: "1 \<le> e_bp e \<Longrightarrow> i * e_bp e < e_np e \<Longrightarrow> e_np e \<le> Suc i * e_bp e \<Longrightarrow> e_nblocks e = Suc i"
proof -
  assume a: "1 \<le> e_bp e" "i * e_bp e < e_np e" "e_np e \<le> Suc i * e_bp e"
  have "i < e_nblocks e" "\<not> Suc i < e_nblocks e" using a block_start [OF a(1)] by auto
  then show ?thesis by simp
qed

text \<open>Crossing the end of a block.\<close>

lemma b_next:
  assumes bp: "1 \<le> e_bp e" and k: "k < e_np e" and i: "i = k div e_bp e"
  shows "i * e_bp e + e_cur e i \<le> e_np e" and "k mod e_bp e < e_cur e i"
    and "b_idx e (i * e_bp e + e_cur e i) = Suc i" and "b_off e (i * e_bp e + e_cur e i) = 0"
proof -
  have ki: "k = i * e_bp e + k mod e_bp e" "k mod e_bp e < e_bp e" using bp by (simp_all add: i)
  then have lt: "i * e_bp e < e_np e" using k by linarith
  show "i * e_bp e + e_cur e i \<le> e_np e" "k mod e_bp e < e_cur e i" using ki k by (auto simp: e_cur_def)
  show "b_idx e (i * e_bp e + e_cur e i) = Suc i"
  proof (cases "e_np e \<le> Suc i * e_bp e")
    case True
    then have "i * e_bp e + e_cur e i = e_np e" using lt by (auto simp: e_cur_def min_def)
    then show ?thesis using b_pos_last [OF bp lt True] by (simp add: b_idx_def)
  next
    case False
    then have "e_cur e i = e_bp e" by (auto simp: e_cur_def min_def)
    then show ?thesis using False bp by (simp add: b_idx_def)
  qed
  show "b_off e (i * e_bp e + e_cur e i) = 0"
  proof (cases "e_np e \<le> Suc i * e_bp e")
    case True
    then have "i * e_bp e + e_cur e i = e_np e" using lt by (auto simp: e_cur_def min_def)
    then show ?thesis by (simp add: b_off_def)
  next
    case False
    then have "e_cur e i = e_bp e" by (auto simp: e_cur_def min_def)
    then show ?thesis using False bp by (simp add: b_off_def)
  qed
qed

lemma b_stay:
  assumes bp: "1 \<le> e_bp e" and k: "k < e_np e" and n: "k mod e_bp e + n < e_cur e (k div e_bp e)"
  shows "b_idx e (k + n) = k div e_bp e" and "b_off e (k + n) = k mod e_bp e + n"
proof -
  have "k mod e_bp e + n < e_bp e" "k mod e_bp e + n < e_np e - k div e_bp e * e_bp e" using n by (auto simp: e_cur_def)
  moreover have "k = k div e_bp e * e_bp e + k mod e_bp e" by simp
  ultimately have s: "k + n = k div e_bp e * e_bp e + (k mod e_bp e + n)" "k mod e_bp e + n < e_bp e" "k + n < e_np e" by linarith+
  have "(q * e_bp e + x) div e_bp e = q" "(q * e_bp e + x) mod e_bp e = x" if "x < e_bp e" for q x using that by simp_all
  from this [OF s(2), of "k div e_bp e"] have "(k + n) div e_bp e = k div e_bp e" "(k + n) mod e_bp e = k mod e_bp e + n"
    unfolding s(1) [symmetric] .
  then show "b_idx e (k + n) = k div e_bp e" "b_off e (k + n) = k mod e_bp e + n"
    using s(3) by (simp_all add: b_idx_def b_off_def)
qed

definition before_block :: "pagemap_entry \<Rightarrow> nat \<Rightarrow> int" where
  "before_block e j = int (sum_list (take j (e_sizes e)))"

lemma before_block_Suc: "j < length (e_sizes e) \<Longrightarrow> before_block e (Suc j) = before_block e j + int (e_sizes e ! j)"
  by (simp add: before_block_def take_Suc_conv_app_nth)

lemma ucast_of_nat_u64: "n < 2 ^ 32 \<Longrightarrow> ucast (of_nat n :: u32) = (of_nat n :: u64)"
  unfolding word_unat_eq_iff unat_ucast_u32 by (simp add: unat_of_nat_u32 unat_of_nat_u64)

lemma ucast_of_nat_u32: "ucast (of_nat n :: u64) = (of_nat n :: u32)"
proof -
  have "ucast (of_nat n :: u64) = (of_nat (unat (of_nat n :: u64)) :: u32)" by (rule of_nat_unat [symmetric])
  also have "\<dots> = of_nat n" unfolding word_unat_eq_iff by (simp add: unsigned_of_nat take_bit_nat_def mod_mod_cancel)
  finally show ?thesis .
qed

text \<open>One round of a loop over blocks takes the pages up to the end of the block, or all that are left.\<close>

lemma block_take:
  assumes e: "pe_ok e" "blocks e = Some bl" and n: "0 < n" "k + n \<le> e_np e"
  defines "i \<equiv> k div e_bp e" and "c \<equiv> e_cur e (k div e_bp e)" and "t \<equiv> min n (e_cur e (k div e_bp e) - k mod e_bp e)"
  shows "current_block_pages e i = of_nat c" and "i < e_nblocks e" and "k mod e_bp e < c" and "c \<le> 1024" and "0 < t" and "t \<le> n"
    and "(of_nat c - of_nat (k mod e_bp e) :: u32) = of_nat (c - k mod e_bp e)"
    and "(if (of_nat n :: u64) < ucast (of_nat (c - k mod e_bp e) :: u32) then ucast (of_nat n :: u64) else of_nat (c - k mod e_bp e)) = (of_nat t :: u32)"
    and "(of_nat (k mod e_bp e) + of_nat t = (of_nat c :: u32)) \<longleftrightarrow> k mod e_bp e + t = c"
    and "unat (of_nat n :: u64) = n" and "length (block_sizes bl) = e_nblocks e" and "uint (block_sizes bl ! i) = int (e_sizes e ! i)"
proof -
  have b: "blocks_ok e bl" using pe_ok_blocks [OF e] .
  have bp: "1 \<le> e_bp e" "e_bp e \<le> MAX_BLOCK_PAGES" and len: "length (e_sizes e) = e_nblocks e" using b by (auto simp: blocks_ok_def)
  have k: "k < e_np e" using n by simp
  have lt: "i * e_bp e < e_np e" using k bp unfolding i_def by (meson div_times_less_eq_dividend le_less_trans)
  show i: "i < e_nblocks e" using block_start [OF bp(1)] lt by simp
  note cp = cur_pages [OF bp lt]
  show "current_block_pages e i = of_nat c" using cp(1) by (simp add: c_def i_def)
  show o: "k mod e_bp e < c" using b_next(2) [OF bp(1) k] by (simp add: c_def)
  show c: "c \<le> 1024" using cp(2) by (simp add: c_def i_def)
  define o' where "o' = k mod e_bp e"
  have t: "t = min n (c - o')" by (simp add: t_def c_def o'_def i_def)
  have oc: "o' < c" using o by (simp add: o'_def)
  show "0 < t" "t \<le> n" using t oc n by auto
  have np: "n < 2 ^ 64" using n(2) unat_lt_u64 [of "nr_pages e"] by (simp add: e_np_def)
  show n64: "unat (of_nat n :: u64) = n" using np by (rule unat_of_nat_u64)
  show "(of_nat c - of_nat (k mod e_bp e) :: u32) = of_nat (c - k mod e_bp e)" using oc by (simp add: of_nat_diff o'_def)
  have "unat (of_nat (c - o') :: u64) = c - o'" using c by (intro unat_of_nat_u64) simp
  then have less: "(of_nat n :: u64) < of_nat (c - o') \<longleftrightarrow> n < c - o'" using n64 by (simp add: word_less_nat_alt)
  have "ucast (of_nat (c - o') :: u32) = (of_nat (c - o') :: u64)" using c by (intro ucast_of_nat_u64) simp
  then show "(if (of_nat n :: u64) < ucast (of_nat (c - k mod e_bp e) :: u32) then ucast (of_nat n :: u64) else of_nat (c - k mod e_bp e)) = (of_nat t :: u32)"
    unfolding ucast_of_nat_u32 o'_def [symmetric] using less by (cases "n < c - o'") (simp_all only: t min_def if_True if_False, auto)
  have small: "o' + t < 2 ^ 32" "c < 2 ^ 32" using t c oc by (auto simp: min_def)
  from unat_of_nat_u32 [OF small(1)] unat_of_nat_u32 [OF small(2)]
  show "(of_nat (k mod e_bp e) + of_nat t = (of_nat c :: u32)) \<longleftrightarrow> k mod e_bp e + t = c" unfolding o'_def [symmetric] by (metis of_nat_add)
  show "uint (block_sizes bl ! i) = int (e_sizes e ! i)" "length (block_sizes bl) = e_nblocks e"
    using i len e(2) by (auto simp: e_sizes_def)
qed

lemma skip_blocks_step:
  assumes e: "pe_ok e" "blocks e = Some bl" and n: "0 < n" "k + n \<le> e_np e"
  defines "i \<equiv> k div e_bp e" and "t \<equiv> min n (e_cur e (k div e_bp e) - k mod e_bp e)"
  shows "skip_blocks e (block_sizes bl) (of_nat n) poff i (of_nat (k mod e_bp e)) =
     (if k mod e_bp e + t = e_cur e i
      then skip_blocks e (block_sizes bl) (of_nat (n - t)) (poff + int (e_sizes e ! i)) (Suc i) 0
      else skip_blocks e (block_sizes bl) (of_nat (n - t)) poff i (of_nat (k mod e_bp e + t)))"
    and "i < e_nblocks e" and "0 < t" and "t \<le> n"
proof -
  note bt = block_take [OF e n, folded t_def, folded i_def]
  define o' where "o' = k mod e_bp e"
  define c where "c = e_cur e i"
  note bt' = bt [folded o'_def, folded c_def]
  show "i < e_nblocks e" "0 < t" "t \<le> n" using bt' by auto
  have "t \<le> c - o'" by (simp add: t_def c_def o'_def i_def)
  then have t32: "t < 2 ^ 32" using bt'(4) by simp
  have nr: "(of_nat n - ucast (of_nat t :: u32) :: u64) = of_nat (n - t)"
    using t32 bt'(6) by (simp add: ucast_of_nat_u64 of_nat_diff)
  have pos: "(0 :: u64) < of_nat n" using bt'(10) n(1) by (simp add: word_less_nat_alt)
  show "skip_blocks e (block_sizes bl) (of_nat n) poff i (of_nat (k mod e_bp e)) =
     (if k mod e_bp e + t = e_cur e i
      then skip_blocks e (block_sizes bl) (of_nat (n - t)) (poff + int (e_sizes e ! i)) (Suc i) 0
      else skip_blocks e (block_sizes bl) (of_nat (n - t)) poff i (of_nat (k mod e_bp e + t)))"
    unfolding skip_blocks.simps [of e "block_sizes bl" "of_nat n"] o'_def [symmetric] bt'(1) c_def [symmetric] Let_def bt'(7) bt'(8) nr
    using pos bt'(2,9,11,12) by simp
qed

lemma skip_blocks_ok:
  assumes e: "pe_ok e" "blocks e = Some bl"
  shows "k + n \<le> e_np e \<Longrightarrow> skip_blocks e (block_sizes bl) (of_nat n) poff (b_idx e k) (of_nat (b_off e k)) =
     Some (poff + (before_block e (b_idx e (k + n)) - before_block e (b_idx e k)), b_idx e (k + n), of_nat (b_off e (k + n)))"
proof (induction n arbitrary: k poff rule: less_induct)
  case (less n)
  show ?case
  proof (cases "n = 0")
    case True
    then show ?thesis by (subst skip_blocks.simps) simp
  next
    case False
    then have n: "0 < n" "k < e_np e" using less(2) by auto
    have bp: "1 \<le> e_bp e" and len: "length (e_sizes e) = e_nblocks e"
      using pe_ok_blocks [OF e] by (auto simp: blocks_ok_def)
    define i where "i = k div e_bp e"
    define t where "t = min n (e_cur e i - k mod e_bp e)"
    note st = skip_blocks_step [OF e n(1) less(2), folded i_def, folded t_def]
    have bk: "b_idx e k = i" "b_off e k = k mod e_bp e" using n by (auto simp: b_idx_def b_off_def i_def)
    have kt: "k + t + (n - t) = k + n" using st(4) by simp
    note IH = less(1) [of "n - t" "k + t", unfolded kt]
    have lt: "n - t < n" "k + n \<le> e_np e" using st(3) n less(2) by auto
    show ?thesis
    proof (cases "k mod e_bp e + t = e_cur e i")
      case True
      then have "k + t = i * e_bp e + e_cur e i" unfolding i_def by (metis add.assoc div_mult_mod_eq)
      then have nx: "b_idx e (k + t) = Suc i" "b_off e (k + t) = 0" using b_next(3,4) [OF bp n(2)] i_def by auto
      have "before_block e (Suc i) = before_block e i + int (e_sizes e ! i)" using st(2) len by (intro before_block_Suc) simp
      then show ?thesis unfolding bk using st(1) True IH [OF lt, of "poff + int (e_sizes e ! i)"] nx by simp
    next
      case False
      have "k mod e_bp e < e_cur e i" using b_next(2) [OF bp n(2)] i_def by simp
      then have "k mod e_bp e + t < e_cur e i" using False by (auto simp: t_def)
      then have "b_idx e (k + t) = i" "b_off e (k + t) = k mod e_bp e + t" using b_stay [OF bp n(2), of t] i_def by auto
      then show ?thesis unfolding bk using st(1) False IH [OF lt, of poff] by simp
    qed
  qed
qed

text \<open>Skipping pages inside an entry moves the cursor in the image by their payload.\<close>

lemma skip_pages_ok:
  assumes p: "at_page pr i k" and es: "pmap_ok (pmes pr)" and n: "k + n \<le> e_np (pmes pr ! i)"
  shows "\<exists>pr'. skip_pagemap_pages pr (of_nat (n * 4096)) = Some pr' \<and> at_page pr' i (k + n) \<and>
     pmes pr' = pmes pr \<and> curr_pme pr' = curr_pme pr"
proof (cases "n = 0")
  case True
  then show ?thesis using p by (simp add: skip_pagemap_pages_def)
next
  case False
  define e where "e = pmes pr ! i"
  have i: "i < length (pmes pr)" and pe: "pe pr = Some e" using p by (auto simp: at_page_def e_def)
  have ok: "pe_ok e" using es i by (auto simp: pmap_ok_def e_def)
  have hi: "e_lo e + e_np e * 4096 < 2 ^ 64" using ok by (simp add: pe_ok_def e_hi_def)
  have n4: "n * 4096 < 2 ^ 64" using n hi by (simp add: e_def)
  then have un: "unat (of_nat (n * 4096) :: u64) = n * 4096" by (rule unat_of_nat_u64)
  then have ui: "uint (of_nat (n * 4096) :: u64) = int (n * 4096)" by (metis uint_nat)
  have nz: "(of_nat (n * 4096) :: u64) \<noteq> 0" using un False by (metis mult_eq_0_iff unat_0 zero_neq_numeral)
  have dv: "(of_nat (n * 4096) :: u64) div PAGE = of_nat n"
    using un n4 unfolding word_unat_eq_iff unat_div by (simp add: unat_of_nat_u64)
  have cv: "unat (cvaddr pr) = e_lo e + k * 4096" using p by (simp add: at_page_def e_def)
  have "e_lo e + k * 4096 + n * 4096 < 2 ^ 64" using hi n by (simp add: e_def)
  then have cv': "unat (cvaddr pr + of_nat (n * 4096)) = e_lo e + (k + n) * 4096"
    using cv un by (subst unat_plus_eq) (simp_all del: of_nat_mult)
  have kn: "k + n \<le> e_np e" using n by (simp add: e_def)
  show ?thesis
  proof (cases "blocks e")
    case None
    let ?d = "if pagemap_present e then int (n * 4096) else 0"
    have "skip_pagemap_pages pr (of_nat (n * 4096)) = Some (pr\<lparr>pi_off := pi_off pr + ?d, cvaddr := cvaddr pr + of_nat (n * 4096)\<rparr>)"
      using nz pe None ui by (simp add: skip_pagemap_pages_def del: of_nat_mult)
    then show ?thesis using p cv' kn None
      by (auto simp: at_page_def e_def [symmetric] skipped_def simp del: of_nat_mult)
  next
    case (Some bl)
    have b: "blocks_ok e bl" and pr: "pagemap_present e" using pe_ok_blocks [OF ok Some] by (auto simp: blocks_ok_def)
    have bp: "1 \<le> e_bp e" and len: "length (e_sizes e) = e_nblocks e" and tot: "unat (total_payload_size bl) = sum_list (e_sizes e)"
      using b by (auto simp: blocks_ok_def)
    have np: "0 < e_np e" using ok by (simp add: pe_ok_def)
    have "0 < e_nblocks e" using block_start [OF bp, of 0] np by simp
    then have ne: "block_sizes bl \<noteq> []" "length (block_sizes bl) = e_nblocks e" using len Some by (auto simp: e_sizes_def)
    have st: "block_idx pr = b_idx e k" "block_offset pr = of_nat (b_off e k)" "pi_off pr = ent_off (pmes pr) 0 i + before_block e (b_idx e k)"
      using p Some pr by (auto simp: at_page_def e_def [symmetric] skipped_def before_block_def)
    define X where "X = (pi_off pr + (before_block e (b_idx e (k + n)) - before_block e (b_idx e k)), b_idx e (k + n), of_nat (b_off e (k + n)) :: u32)"
    have fast: "(pi_off pr + uint (total_payload_size bl), length (block_sizes bl), block_offset pr) = X"
      if c: "block_idx pr = 0" "block_offset pr = 0" "(of_nat n :: u64) = nr_pages e"
    proof -
      have "n < 2 ^ 64" using n4 by simp
      then have "n = e_np e" using c(3) unat_of_nat_u64 [of n] by (simp add: e_np_def)
      then have "k = 0" "n = e_np e" using kn by auto
      moreover have "b_idx e 0 = 0" "b_off e 0 = 0" using np by (auto simp: b_idx_def b_off_def)
      moreover have "before_block e (e_nblocks e) = int (sum_list (e_sizes e))" by (simp add: before_block_def len [symmetric])
      moreover have "uint (total_payload_size bl) = int (sum_list (e_sizes e))" using tot by (metis uint_nat)
      moreover have "b_idx e (e_np e) = e_nblocks e" "b_off e (e_np e) = 0" by (simp_all add: b_idx_def b_off_def)
      moreover have "before_block e 0 = 0" by (simp add: before_block_def)
      ultimately show ?thesis using c(2) ne(2) by (simp add: X_def)
    qed
    have slow: "skip_blocks e (block_sizes bl) (of_nat n) (pi_off pr) (block_idx pr) (block_offset pr) = Some X"
      using skip_blocks_ok [OF ok Some kn, of "pi_off pr"] st(1,2) by (simp add: X_def)
    obtain po bi bo where X: "X = (po, bi, bo)" by (cases X) auto
    have "skip_pagemap_pages pr (of_nat (n * 4096)) =
        Some (pr\<lparr>pi_off := po, block_idx := bi, block_offset := bo, cvaddr := cvaddr pr + of_nat (n * 4096)\<rparr>)"
    proof (cases "block_idx pr = 0 \<and> block_offset pr = 0 \<and> (of_nat n :: u64) = nr_pages e")
      case True
      then show ?thesis using nz pe Some pr ne dv fast X
        by (simp add: skip_pagemap_pages_def del: of_nat_mult)
    next
      case False
      then show ?thesis using nz pe Some pr ne dv slow X
        by (auto simp: skip_pagemap_pages_def simp del: of_nat_mult)
    qed
    then show ?thesis using p cv' kn st(3) X Some pr
      by (auto simp: at_page_def e_def [symmetric] skipped_def X_def before_block_def simp del: of_nat_mult)
  qed
qed

lemma ent_off_Suc:
  "Suc i < length es \<Longrightarrow> ent_off es off (Suc i) = align_to (es ! Suc i) (ent_off es off i + int (payload (es ! i)))"
proof (induction es off i rule: ent_off.induct)
  case (2 e es off)
  then show ?case by (cases es) auto
qed auto

lemma offs_ok_nth:
  "offs_ok es off \<Longrightarrow> Suc i < length es \<Longrightarrow>
   0 \<le> ent_off es off i + int (payload (es ! i)) \<and>
   (pagemap_present (es ! Suc i) \<and> pagemap_payload_aligned (es ! Suc i) \<longrightarrow> ent_off es off i + int (payload (es ! i)) \<le> OFF_MAX - 4095)"
proof (induction es off i rule: ent_off.induct)
  case (2 e es off)
  then show ?case by (cases es) auto
qed auto

lemma skipped_all: "pe_ok e \<Longrightarrow> skipped e (e_np e) = payload e"
  by (auto simp: skipped_def payload_def b_idx_def dest!: pe_ok_blocks simp: blocks_ok_def)

lemma skipped_none: "pe_ok e \<Longrightarrow> skipped e 0 = 0"
  by (auto simp: skipped_def b_idx_def pe_ok_def)

text \<open>The entry behind the one that has been skipped, or the first one.\<close>

definition next_idx :: "page_read \<Rightarrow> nat \<Rightarrow> bool" where
  "next_idx pr j \<longleftrightarrow> (pe pr = None \<and> curr_pme pr = - 1 \<and> pi_off pr = 0 \<and> j = 0) \<or>
     (\<exists>i. j = Suc i \<and> at_page pr i (e_np (pmes pr ! i)) \<and> curr_pme pr = int i)"

lemma advance_ok:
  assumes es: "pmap_ok (pmes pr)" "offs_ok (pmes pr) 0" and j: "next_idx pr j"
  shows "j < length (pmes pr) \<Longrightarrow> \<exists>pr'. advance pr = (1, pr') \<and> at_page pr' j 0 \<and> curr_pme pr' = int j \<and> pmes pr' = pmes pr"
    and "j \<ge> length (pmes pr) \<Longrightarrow> advance pr = (0, pr\<lparr>curr_pme := int j\<rparr>)"
proof -
  have cur: "curr_pme pr + 1 = int j" using j by (auto simp: next_idx_def)
  show "j \<ge> length (pmes pr) \<Longrightarrow> advance pr = (0, pr\<lparr>curr_pme := int j\<rparr>)"
    using cur by (simp add: advance_def Let_def)
  assume len: "j < length (pmes pr)"
  define e where "e = pmes pr ! j"
  have ok: "pe_ok e" using es(1) len by (auto simp: pmap_ok_def e_def)
  have off: "ent_off (pmes pr) 0 j = align_to e (pi_off pr)" "0 \<le> pi_off pr"
      "pagemap_present e \<and> pagemap_payload_aligned e \<longrightarrow> pi_off pr \<le> OFF_MAX - 4095"
  proof -
    show "ent_off (pmes pr) 0 j = align_to e (pi_off pr)"
    proof (cases "pe pr = None \<and> j = 0")
      case True
      then show ?thesis using j len by (cases "pmes pr") (auto simp: next_idx_def e_def at_page_def)
    next
      case False
      then obtain i where i: "j = Suc i" "at_page pr i (e_np (pmes pr ! i))" using j by (auto simp: next_idx_def)
      have "pe_ok (pmes pr ! i)" using es(1) i len by (auto simp: pmap_ok_def)
      then have "pi_off pr = ent_off (pmes pr) 0 i + int (payload (pmes pr ! i))" using i(2) skipped_all by (simp add: at_page_def)
      then show ?thesis using ent_off_Suc [of i "pmes pr" 0] len i by (simp add: e_def)
    qed
    have "0 \<le> pi_off pr \<and> (pagemap_present e \<and> pagemap_payload_aligned e \<longrightarrow> pi_off pr \<le> OFF_MAX - 4095)"
    proof (cases "pe pr = None \<and> j = 0")
      case True
      then show ?thesis using j by (auto simp: next_idx_def at_page_def OFF_MAX_def)
    next
      case False
      then obtain i where i: "j = Suc i" "at_page pr i (e_np (pmes pr ! i))" using j by (auto simp: next_idx_def)
      have "pe_ok (pmes pr ! i)" using es(1) i len by (auto simp: pmap_ok_def)
      then have "pi_off pr = ent_off (pmes pr) 0 i + int (payload (pmes pr ! i))" using i(2) skipped_all by (simp add: at_page_def)
      then show ?thesis using offs_ok_nth [OF es(2), of i] len i by (simp add: e_def)
    qed
    then show "0 \<le> pi_off pr" "pagemap_present e \<and> pagemap_payload_aligned e \<longrightarrow> pi_off pr \<le> OFF_MAX - 4095" by auto
  qed
  have b0: "b_idx e 0 = 0" "b_off e 0 = 0" using ok by (auto simp: b_idx_def b_off_def pe_ok_def)
  let ?pad = "if pagemap_present e \<and> pagemap_payload_aligned e then pagemap_page_align_offset (pi_off pr) - pi_off pr else 0"
  let ?pr = "pr\<lparr>curr_pme := int j, pe := Some e, cvaddr := vaddr e, stream_padding := ?pad,
    pi_off := align_to e (pi_off pr), block_idx := 0, block_offset := 0\<rparr>"
  have "advance pr = (1, ?pr)"
    using cur len off(2,3) by (auto simp: advance_def Let_def e_def [symmetric] align_to_def)
  moreover have "at_page ?pr j 0"
    using len off(1) b0 skipped_none [OF ok] by (simp add: at_page_def e_def [symmetric] e_lo_def)
  ultimately show "\<exists>pr'. advance pr = (1, pr') \<and> at_page pr' j 0 \<and> curr_pme pr' = int j \<and> pmes pr' = pmes pr" by auto
qed

text \<open>
  The cursor can still reach every page from the address \<open>l\<close> on: it has not been moved yet, it is at or before \<open>l\<close>, it is
  at the start of an entry and those before end at \<open>l\<close>, or it is behind the last entry, which ends at \<open>l\<close>.
\<close>

definition reaches :: "page_read \<Rightarrow> nat \<Rightarrow> bool" where
  "reaches pr l \<longleftrightarrow> pmap_ok (pmes pr) \<and> offs_ok (pmes pr) 0 \<and>
     (next_idx pr 0 \<or> pmes pr = [] \<and> pe pr = None \<and> - 1 \<le> curr_pme pr \<or>
      (\<exists>i k. at_page pr i k \<and> curr_pme pr = int i \<and> (\<forall>j < i. e_hi (pmes pr ! j) \<le> l) \<and>
         (e_lo (pmes pr ! i) + k * 4096 \<le> l \<or> k = 0)) \<or>
      (\<exists>i. Suc i = length (pmes pr) \<and> at_page pr i (e_np (pmes pr ! i)) \<and> curr_pme pr \<ge> int (Suc i) \<and> e_hi (pmes pr ! i) \<le> l))"

definition covered :: "pagemap_entry list \<Rightarrow> nat \<Rightarrow> bool" where
  "covered es v \<longleftrightarrow> (\<exists>e \<in> set es. e_lo e \<le> v \<and> v < e_hi e)"

definition seek_post :: "page_read \<Rightarrow> nat \<Rightarrow> int \<times> page_read \<Rightarrow> bool" where
  "seek_post pr v = (\<lambda>(r, pr'). pmes pr' = pmes pr \<and> reaches pr' v \<and>
     (if covered (pmes pr) v
      then r = 1 \<and> (\<exists>i k. at_page pr' i k \<and> curr_pme pr' = int i \<and> v = e_lo (pmes pr ! i) + k * 4096 \<and> k < e_np (pmes pr ! i))
      else r = 0))"

lemma pmap_ok_nth:
  assumes "pmap_ok es" and "i < length es"
  shows "pe_ok (es ! i)" and "j < i \<Longrightarrow> e_hi (es ! j) \<le> e_lo (es ! i)" and "e_lo (es ! i) < e_hi (es ! i)"
  using assms by (auto simp: pmap_ok_def sorted_wrt_iff_nth_less pe_ok_def e_hi_def)

lemma covered_nth: "covered es v \<longleftrightarrow> (\<exists>i < length es. e_lo (es ! i) \<le> v \<and> v < e_hi (es ! i))"
  by (force simp: covered_def in_set_conv_nth)

lemma not_covered_gap:
  assumes es: "pmap_ok es" and i: "\<And>j. j < i \<Longrightarrow> j < length es \<Longrightarrow> e_hi (es ! j) \<le> v" "i < length es \<Longrightarrow> v < e_lo (es ! i)"
  shows "\<not> covered es v"
proof -
  have "\<not> (e_lo (es ! j) \<le> v \<and> v < e_hi (es ! j))" if "j < length es" for j
  proof (cases "j < i")
    case False
    then have "i < length es" using that by simp
    then have "e_lo (es ! i) \<le> e_lo (es ! j)"
      using False that pmap_ok_nth(2) [OF es, of j i] pmap_ok_nth(3) [OF es, of i] by (cases "i = j") auto
    then show ?thesis using i(2) [OF \<open>i < length es\<close>] by simp
  qed (use i(1) [OF _ that] in auto)
  then show ?thesis by (auto simp: covered_nth)
qed

lemma entry_end:
  assumes "pe_ok e"
  shows "unat (vaddr e + pagemap_len e) = e_hi e"
proof -
  have "e_np e * 4096 < 2 ^ 64" "e_lo e + e_np e * 4096 < 2 ^ 64" using assms by (auto simp: pe_ok_def e_hi_def)
  moreover have "unat (pagemap_len e) = e_np e * 4096"
    unfolding pagemap_len_def using calculation by (simp add: unat_mult_page e_np_def)
  ultimately show ?thesis by (simp add: unat_plus_eq e_hi_def e_lo_def)
qed

lemma of_nat_diff_word: "unat (a :: u64) = unat b + n \<Longrightarrow> a - b = of_nat n"
proof -
  assume a: "unat a = unat b + n"
  then have "n < 2 ^ 64" using unat_lt_u64 [of a] by linarith
  moreover have "b \<le> a" using a by (simp add: word_le_nat_alt)
  ultimately show ?thesis using a unat_sub [of b a] unfolding word_unat_eq_iff by (simp add: unat_of_nat_u64)
qed

lemma seek_post_cong: "pmes pr2 = pmes pr \<Longrightarrow> seek_post pr2 v = seek_post pr v"
  by (simp add: seek_post_def)

lemma seek_loop_ok:
  assumes "at_page pr i k" and "curr_pme pr = int i" and "pmap_ok (pmes pr)" and "offs_ok (pmes pr) 0"
    and "\<And>j. j < i \<Longrightarrow> e_hi (pmes pr ! j) \<le> unat v" and "e_lo (pmes pr ! i) + k * 4096 \<le> unat v \<or> k = 0" and "4096 dvd unat v"
  shows "\<exists>z. seek_pagemap_loop pr v = Some z \<and> seek_post pr (unat v) z"
  using assms
proof (induction "length (pmes pr) - i" arbitrary: pr i k rule: less_induct)
  case less
  note at = less(2) and cur = less(3) and es = less(4,5) and prev = less(6) and here = less(7) and al = less(8)
  define e where "e = pmes pr ! i"
  have i: "i < length (pmes pr)" "k \<le> e_np e" "pe pr = Some e" "unat (cvaddr pr) = e_lo e + k * 4096"
    using at by (auto simp: at_page_def e_def)
  have ok: "pe_ok e" using pmap_ok_nth(1) [OF es(1) i(1)] by (simp add: e_def)
  note en = entry_end [OF ok]
  have lo4: "4096 dvd e_lo e" using ok by (simp add: pe_ok_def)
  consider (gap) "unat v < unat (cvaddr pr)" | (in_e) "unat (cvaddr pr) \<le> unat v" "unat v < e_hi e"
    | (behind) "unat (cvaddr pr) \<le> unat v" "e_hi e \<le> unat v" by linarith
  then show ?case
  proof cases
    case gap
    then have k: "k = 0" "unat v < e_lo e" using here i(4) by (auto simp: e_def)
    have "seek_pagemap_loop pr v = Some (0, pr)" using gap i(3) by (subst seek_pagemap_loop.simps) (simp add: word_less_nat_alt Let_def)
    moreover have "\<not> covered (pmes pr) (unat v)" by (rule not_covered_gap [OF es(1)]) (use prev k in \<open>auto simp: e_def\<close>)
    moreover have "reaches pr (unat v)" unfolding reaches_def using at cur es prev k by blast
    ultimately show ?thesis by (auto simp: seek_post_def)
  next
    case in_e
    have le: "e_lo e + k * 4096 \<le> unat v" using in_e i(4) by simp
    have "4096 dvd unat v - (e_lo e + k * 4096)" using al lo4 le by (intro dvd_diff_nat) auto
    then obtain n where "unat v - (e_lo e + k * 4096) = 4096 * n" by (rule dvdE)
    then have n: "unat v = unat (cvaddr pr) + n * 4096" "unat v = e_lo e + (k + n) * 4096" using le i(4) by auto
    have kn: "k + n < e_np e" using n(2) in_e(2) by (simp add: e_hi_def)
    have "v - cvaddr pr = of_nat (n * 4096)" by (rule of_nat_diff_word [OF n(1)])
    moreover obtain pr' where sk: "skip_pagemap_pages pr (of_nat (n * 4096)) = Some pr'" "at_page pr' i (k + n)" "pmes pr' = pmes pr"
        "curr_pme pr' = curr_pme pr"
      using skip_pages_ok [OF at es(1), of n] kn by (auto simp: e_def)
    ultimately have "seek_pagemap_loop pr v = Some (1, pr')"
      using in_e i(3,4) en le by (subst seek_pagemap_loop.simps) (simp add: word_less_nat_alt word_le_nat_alt Let_def e_lo_def)
    moreover have "covered (pmes pr) (unat v)" unfolding covered_nth using i(1) le in_e(2) by (auto simp: e_def)
    moreover have "reaches pr' (unat v)" unfolding reaches_def using sk cur es prev n(2) by (auto simp: e_def)
    ultimately show ?thesis using sk cur n(2) kn by (auto simp: seek_post_def e_def)
  next
    case behind
    obtain n where n: "e_np e = k + n" using i(2) by (auto simp: le_iff_add)
    have "unat (vaddr e + pagemap_len e) = unat (cvaddr pr) + n * 4096" using en i(4) n by (simp add: e_hi_def)
    then have "vaddr e + pagemap_len e - cvaddr pr = of_nat (n * 4096)" by (rule of_nat_diff_word)
    moreover obtain pr' where sk: "skip_pagemap_pages pr (of_nat (n * 4096)) = Some pr'" "at_page pr' i (e_np e)" "pmes pr' = pmes pr"
        "curr_pme pr' = curr_pme pr"
      using skip_pages_ok [OF at es(1), of n] n by (auto simp: e_def)
    ultimately have unf: "seek_pagemap_loop pr v = (case advance pr' of (r, pr) \<Rightarrow> if r \<noteq> 0 then seek_pagemap_loop pr v else Some (0, pr))"
      using behind i(3) en by (subst seek_pagemap_loop.simps) (simp add: word_less_nat_alt word_le_nat_alt Let_def)
    have nx: "next_idx pr' (Suc i)" using sk cur by (auto simp: next_idx_def e_def)
    have es': "pmap_ok (pmes pr')" "offs_ok (pmes pr') 0" using es sk(3) by simp_all
    have prev': "e_hi (pmes pr ! j) \<le> unat v" if "j < Suc i" for j
      using that prev behind(2) by (cases "j = i") (auto simp: e_def)
    show ?thesis
    proof (cases "Suc i < length (pmes pr)")
      case True
      obtain pr2 where ad: "advance pr' = (1, pr2)" "at_page pr2 (Suc i) 0" "curr_pme pr2 = int (Suc i)" "pmes pr2 = pmes pr"
        using advance_ok(1) [OF es' nx] True sk(3) by auto
      have "\<exists>z. seek_pagemap_loop pr2 v = Some z \<and> seek_post pr2 (unat v) z"
        by (rule less(1) [OF _ ad(2,3)]) (use True es prev' al ad(4) in auto)
      then show ?thesis using unf ad(1) seek_post_cong [OF ad(4)] by auto
    next
      case False
      then have last: "Suc i = length (pmes pr)" using i(1) by simp
      have "advance pr' = (0, pr'\<lparr>curr_pme := int (Suc i)\<rparr>)" using advance_ok(2) [OF es' nx] False sk(3) by auto
      then have "seek_pagemap_loop pr v = Some (0, pr'\<lparr>curr_pme := int (Suc i)\<rparr>)" using unf by simp
      moreover have "\<not> covered (pmes pr) (unat v)" by (rule not_covered_gap [OF es(1), of "Suc i"]) (use prev' last in auto)
      moreover have "reaches (pr'\<lparr>curr_pme := int (Suc i)\<rparr>) (unat v)"
        unfolding reaches_def using es' sk last prev' [of i] by (auto simp: at_page_def e_def)
      ultimately show ?thesis using sk(3) by (auto simp: seek_post_def)
    qed
  qed
qed

lemma seek_ok:
  assumes r: "reaches pr l" and v: "l \<le> unat v" "4096 dvd unat v"
  shows "\<exists>z. seek_pagemap pr v = Some z \<and> seek_post pr (unat v) z"
proof -
  have es: "pmap_ok (pmes pr)" "offs_ok (pmes pr) 0" using r by (auto simp: reaches_def)
  consider (start) "next_idx pr 0" | (empty) "pmes pr = []" "pe pr = None" "- 1 \<le> curr_pme pr"
    | (inside) i k where "at_page pr i k" "curr_pme pr = int i" "\<forall>j < i. e_hi (pmes pr ! j) \<le> l"
        "e_lo (pmes pr ! i) + k * 4096 \<le> l \<or> k = 0"
    | (past) i where "Suc i = length (pmes pr)" "at_page pr i (e_np (pmes pr ! i))" "curr_pme pr \<ge> int (Suc i)" "e_hi (pmes pr ! i) \<le> l"
    using r unfolding reaches_def by (elim conjE disjE exE) blast+
  then show ?thesis
  proof cases
    case start
    then have pe: "pe pr = None" by (auto simp: next_idx_def)
    show ?thesis
    proof (cases "pmes pr = []")
      case True
      then have "advance pr = (0, pr\<lparr>curr_pme := 0\<rparr>)" using advance_ok(2) [OF es start] by simp
      then show ?thesis using pe True es by (auto simp: seek_pagemap_def seek_post_def covered_def reaches_def)
    next
      case False
      then obtain pr2 where ad: "advance pr = (1, pr2)" "at_page pr2 0 0" "curr_pme pr2 = 0" "pmes pr2 = pmes pr"
        using advance_ok(1) [OF es start] by auto
      have "\<exists>z. seek_pagemap_loop pr2 v = Some z \<and> seek_post pr2 (unat v) z"
        by (rule seek_loop_ok [OF ad(2)]) (use ad es v in auto)
      then show ?thesis using pe ad(1) seek_post_cong [OF ad(4)] by (auto simp: seek_pagemap_def)
    qed
  next
    case empty
    then have "advance pr = (0, pr\<lparr>curr_pme := curr_pme pr + 1\<rparr>)" by (simp add: advance_def Let_def)
    then show ?thesis using empty es by (auto simp: seek_pagemap_def seek_post_def covered_def reaches_def)
  next
    case inside
    have "\<exists>z. seek_pagemap_loop pr v = Some z \<and> seek_post pr (unat v) z"
      by (rule seek_loop_ok [OF inside(1,2) es]) (use inside(3,4) v in force)+
    then show ?thesis using inside(1) by (auto simp: seek_pagemap_def at_page_def)
  next
    case past
    define e where "e = pmes pr ! i"
    have i: "i < length (pmes pr)" using past(1) by simp
    have pe: "pe pr = Some e" "unat (cvaddr pr) = e_hi e" using past(2) by (auto simp: at_page_def e_def e_hi_def)
    have ok: "pe_ok e" using pmap_ok_nth(1) [OF es(1) i] by (simp add: e_def)
    have "unat (vaddr e + pagemap_len e) = unat (cvaddr pr)" using entry_end [OF ok] pe(2) by simp
    then have fin: "vaddr e + pagemap_len e = cvaddr pr" by (simp add: word_unat_eq_iff)
    have hv: "e_hi e \<le> unat v" using past(4) v by (simp add: e_def)
    have ad: "advance pr = (0, pr\<lparr>curr_pme := curr_pme pr + 1\<rparr>)" using past(1,3) by (simp add: advance_def Let_def)
    have "seek_pagemap pr v = Some (0, pr\<lparr>curr_pme := curr_pme pr + 1\<rparr>)"
      using pe hv fin ad unfolding seek_pagemap_def
      by (subst seek_pagemap_loop.simps) (simp add: word_less_nat_alt word_le_nat_alt Let_def skip_pagemap_pages_def)
    moreover have "\<not> covered (pmes pr) (unat v)"
    proof (rule not_covered_gap [OF es(1), of "Suc i"])
      fix j
      assume "j < Suc i" "j < length (pmes pr)"
      then show "e_hi (pmes pr ! j) \<le> unat v"
        using pmap_ok_nth(2) [OF es(1) i, of j] pmap_ok_nth(3) [OF es(1) i] hv by (cases "j = i") (auto simp: e_def)
    qed (use past(1) in simp)
    moreover have "reaches (pr\<lparr>curr_pme := curr_pme pr + 1\<rparr>) (unat v)"
      unfolding reaches_def using es past hv by (auto simp: at_page_def e_def)
    ultimately show ?thesis by (auto simp: seek_post_def)
  qed
qed

end
