(* ===== verification/PagemapProps.thy ===== *)
theory PagemapProps
  imports PagemapSeek
begin

text \<open>
  The correctness of the pagemap reader: what \<open>init_pagemaps\<close> accepts, where
  \<open>seek_pagemap\<close> ends, and what the queries on ranges answer.
\<close>

section \<open>The cursor after a reset\<close>

lemma reset_reaches: "pmap_ok (pmes pr) \<Longrightarrow> offs_ok (pmes pr) 0 \<Longrightarrow> reaches (reset_one pr) 0"
  by (simp add: reaches_def next_idx_def reset_one_def)

section \<open>Ranges\<close>

lemma find_first_ok:
  assumes es: "pmap_ok es" and "left \<le> right" and "right \<le> length es"
    and "\<And>j. j < left \<Longrightarrow> e_hi (es ! j) \<le> unat v" and "\<And>j. right \<le> j \<Longrightarrow> j < length es \<Longrightarrow> unat v < e_hi (es ! j)"
  shows "(\<forall>j < find_first es v left right. e_hi (es ! j) \<le> unat v) \<and>
     (\<forall>j. find_first es v left right \<le> j \<longrightarrow> j < length es \<longrightarrow> unat v < e_hi (es ! j)) \<and> find_first es v left right \<le> length es"
  using assms
proof (induction es v left right rule: find_first.induct)
  case (1 es v left right)
  show ?case
  proof (cases "left < right")
    case False
    then have "find_first es v left right = left" by (simp add: find_first.simps [of es v left right])
    then show ?thesis using 1(4-) False by simp
  next
    case True
    define m where "m = left + (right - left) div 2"
    have m: "left \<le> m" "m < right" "m < length es" using True 1(5) by (auto simp: m_def)
    have mono: "e_hi (es ! j) \<le> e_hi (es ! k)" if "j \<le> k" "k < length es" for j k
      using that pmap_ok_nth(2) [OF 1(3), of k j] pmap_ok_nth(3) [OF 1(3), of k] by (cases "j = k") auto
    have end_m: "unat (vaddr (es ! m) + pagemap_len (es ! m)) = e_hi (es ! m)" using entry_end pmap_ok_nth(1) [OF 1(3) m(3)] by blast
    show ?thesis
    proof (cases "vaddr (es ! m) + pagemap_len (es ! m) \<le> v")
      case le: True
      then have hm: "e_hi (es ! m) \<le> unat v" using end_m by (simp add: word_le_nat_alt)
      have a: "e_hi (es ! j) \<le> unat v" if "j < m + 1" for j using mono [of j m] that m hm by auto
      have "(\<forall>j < find_first es v (m + 1) right. e_hi (es ! j) \<le> unat v) \<and>
          (\<forall>j. find_first es v (m + 1) right \<le> j \<longrightarrow> j < length es \<longrightarrow> unat v < e_hi (es ! j)) \<and> find_first es v (m + 1) right \<le> length es"
        by (rule 1(1) [OF True m_def refl le 1(3) _ 1(5) a 1(7)]) (use m in simp_all)
      moreover have "find_first es v left right = find_first es v (m + 1) right"
        using True le by (simp add: find_first.simps [of es v left right] Let_def m_def)
      ultimately show ?thesis by simp
    next
      case gt: False
      then have hm: "unat v < e_hi (es ! m)" using end_m by (simp add: word_le_nat_alt)
      have b: "unat v < e_hi (es ! j)" if "m \<le> j" "j < length es" for j using mono [of m j] that hm by auto
      have "(\<forall>j < find_first es v left m. e_hi (es ! j) \<le> unat v) \<and>
          (\<forall>j. find_first es v left m \<le> j \<longrightarrow> j < length es \<longrightarrow> unat v < e_hi (es ! j)) \<and> find_first es v left m \<le> length es"
        by (rule 1(2) [OF True m_def refl gt 1(3) m(1) _ 1(6) b]) (use m in simp_all)
      moreover have "find_first es v left right = find_first es v left m"
        using True gt by (simp add: find_first.simps [of es v left right] Let_def m_def)
      ultimately show ?thesis by simp
    qed
  qed
qed

lemma has_parent_loop_ok:
  assumes "\<forall>e \<in> set es. pe_ok e" and "sorted_wrt (\<lambda>e f. e_hi e \<le> e_lo f) es" and "\<forall>e \<in> set es. unat start < e_hi e"
  shows "has_parent_loop es start fin = (if \<exists>e \<in> set es. pagemap_in_parent e \<and> e_lo e < unat fin \<and> unat start < e_hi e then 1 else 0)"
  using assms
proof (induction es)
  case (Cons e es)
  have hi: "unat (vaddr e + pagemap_len e) = e_hi e" and le: "e_lo e \<le> e_hi e" using Cons(2) entry_end by (auto simp: e_hi_def)
  show ?case
  proof (cases "vaddr e \<ge> fin")
    case True
    then have "unat fin \<le> e_lo e" by (simp add: e_lo_def word_le_nat_alt)
    then have "\<not> e_lo f < unat fin" if "f \<in> set (e # es)" for f using that Cons(3) le by force
    then have "\<not> (\<exists>f \<in> set (e # es). pagemap_in_parent f \<and> e_lo f < unat fin \<and> unat start < e_hi f)" by blast
    then show ?thesis using True by simp
  next
    case False
    then have "e_lo e < unat fin" by (simp add: e_lo_def word_le_nat_alt)
    moreover have "vaddr e + pagemap_len e > start" using Cons(4) hi by (simp add: word_less_nat_alt)
    ultimately show ?thesis using False Cons by (cases "pagemap_in_parent e") auto
  qed
qed simp

section \<open>Properties\<close>

text \<open>C18: An image that \<open>init_pagemaps\<close> accepts yields its entries, in order, each with its compatibility fields
  filled in; all of them are consistent, they are sorted by address without overlap, and the offsets of all payloads
  in the pages image stay in the range of \<^verbatim>\<open>off_t\<close>.  The number of entries stays below \<^verbatim>\<open>INT_MAX\<close>.\<close>

theorem init_pagemaps_valid:
  assumes "init_pagemaps alloc msgs = Some es"
  shows "pmap_ok es \<and> offs_ok es 0 \<and> length es < 2 ^ 31 \<and> None \<notin> set msgs \<and>
    es = map (\<lambda>m. init_compat_pagemap_entry (the m)) msgs"
proof -
  have "init_pagemaps_loop alloc 64 [] 0 0 msgs = Some es" using assms by (auto simp: init_pagemaps_def split: if_splits)
  moreover have "init_inv [] 0 0" by (simp add: init_inv_def pmap_ok_def OFF_MAX_def)
  ultimately show ?thesis using init_pagemaps_loop_ok [of alloc 64 "[]" 0 0 msgs es] by (auto simp: init_inv_def)
qed

definition mk_entry :: "u64 \<Rightarrow> u64 \<Rightarrow> u32 \<Rightarrow> pagemap_blocks option \<Rightarrow> pagemap_entry" where
  "mk_entry v n f b = \<lparr>vaddr = v, compat_nr_pages = 0, has_in_parent = False, in_parent = False, has_flags = True, flags = f,
     has_nr_pages = True, nr_pages = n, blocks = b\<rparr>"

definition w_es :: "pagemap_entry list" where
  "w_es = [mk_entry 0x1000 2 4 None, mk_entry 0x8000 1 1 None,
     mk_entry 0x10000 3 12 (Some \<lparr>block_sizes = [100, 200], total_payload_size = 300, pages_per_block = 2\<rparr>)]"

lemma w_init: "init_pagemaps (\<lambda>_. True) (map Some w_es) = Some w_es"
  by (simp add: init_pagemaps_def w_es_def mk_entry_def init_pagemaps_loop.simps init_compat_pagemap_entry_def
      validate_pagemap_entry_layout_def validate_compressed_pagemap_entry_def validate_pages_image_layout_def
      pagemap_payload_aligned_def pagemap_present_def pagemap_in_parent_def PE_PAYLOAD_ALIGNED_def PE_PRESENT_def PE_PARENT_def
      pagemap_page_align_offset_def OFF_MAX_def MAX_BLOCK_PAGES_def block_nr_blocks_def Let_def word_le_nat_alt)

theorem init_pagemaps_valid_witness: "init_pagemaps (\<lambda>_. True) (map Some w_es) = Some w_es \<and> pmap_ok w_es \<and> offs_ok w_es 0"
  using init_pagemaps_valid [OF w_init] w_init by simp

text \<open>C5: \<open>seek_pagemap\<close> of a page at or behind the cursor always returns, and finds exactly what the image holds: 1 with the
  cursor in front of that page of the entry that covers it, its offset in the pages image being the sum of the
  payloads (or blocks) before it, or 0 when no entry covers it.  The cursor then serves any later page.\<close>

theorem seek_pagemap_exact:
  assumes "reaches pr l" and "l \<le> unat v" and "4096 dvd unat v"
  shows "\<exists>r pr'. seek_pagemap pr v = Some (r, pr') \<and> pmes pr' = pmes pr \<and> reaches pr' (unat v) \<and>
    (r = 1 \<longleftrightarrow> (\<exists>e \<in> set (pmes pr). e_lo e \<le> unat v \<and> unat v < e_hi e)) \<and> (r = 0 \<or> r = 1) \<and>
    (r = 1 \<longrightarrow> cvaddr pr' = v \<and> (\<exists>i k. i < length (pmes pr) \<and> pe pr' = Some (pmes pr ! i) \<and> curr_pme pr' = int i \<and>
       k < e_np (pmes pr ! i) \<and> unat v = e_lo (pmes pr ! i) + k * 4096 \<and>
       pi_off pr' = ent_off (pmes pr) 0 i + int (skipped (pmes pr ! i) k)))"
proof -
  obtain r pr' where s: "seek_pagemap pr v = Some (r, pr')" "seek_post pr (unat v) (r, pr')"
    using seek_ok [OF assms] by (metis surj_pair)
  have c: "covered (pmes pr) (unat v) \<longleftrightarrow> (\<exists>e \<in> set (pmes pr). e_lo e \<le> unat v \<and> unat v < e_hi e)" by (simp add: covered_def)
  have p: "pmes pr' = pmes pr" "reaches pr' (unat v)" using s(2) by (auto simp: seek_post_def)
  show ?thesis
  proof (cases "covered (pmes pr) (unat v)")
    case True
    then obtain i k where "r = 1" "at_page pr' i k" "curr_pme pr' = int i" "unat v = e_lo (pmes pr ! i) + k * 4096" "k < e_np (pmes pr ! i)"
      using s(2) by (auto simp: seek_post_def)
    moreover have "cvaddr pr' = v" using calculation p by (simp add: at_page_def word_unat_eq_iff)
    ultimately show ?thesis using s(1) p c True by (auto simp: at_page_def)
  next
    case False
    then have "r = 0" using s(2) by (simp add: seek_post_def)
    then show ?thesis using s(1) p c False by auto
  qed
qed

definition w_pr :: page_read where
  "w_pr = \<lparr>pmes = w_es, curr_pme = - 1, pe = None, cvaddr = 0, pi_off = 0, stream_padding = 0, block_idx = 0, block_offset = 0,
     bunch_base = 0, bunch_len = 0, disable_dedup = False\<rparr>"

lemma w_ok: "pmap_ok w_es \<and> offs_ok w_es 0"
  using init_pagemaps_loop_ok [of "\<lambda>_. True" 64 "[]" 0 0 "map Some w_es" w_es] w_init
  by (auto simp: init_inv_def init_pagemaps_def pmap_ok_def OFF_MAX_def)

theorem seek_pagemap_exact_witness:
  "reaches w_pr 0 \<and> (\<exists>r pr'. seek_pagemap w_pr 0x12000 = Some (r, pr') \<and> r = 1 \<and> cvaddr pr' = 0x12000 \<and> reaches pr' 0x12000)"
proof -
  have r: "reaches w_pr 0" using w_ok by (simp add: reaches_def next_idx_def w_pr_def)
  moreover have "\<exists>e \<in> set (pmes w_pr). e_lo e \<le> unat (0x12000 :: u64) \<and> unat (0x12000 :: u64) < e_hi e"
    by (simp add: w_pr_def w_es_def mk_entry_def e_lo_def e_hi_def e_np_def)
  ultimately show ?thesis using seek_pagemap_exact [OF r, of "0x12000"] by auto
qed

text \<open>C27: The binary search and the scan behind it answer exactly whether some entry that overlaps the range refers to the
  parent image; a range that is empty or not aligned is refused.\<close>

theorem page_read_range_has_parent_iff:
  assumes "pmap_ok (pmes pr)"
  shows "page_read_range_has_parent pr start fin =
    (if start \<ge> fin \<or> start mod PAGE \<noteq> 0 \<or> fin mod PAGE \<noteq> 0 then - 1
     else if \<exists>e \<in> set (pmes pr). pagemap_in_parent e \<and> e_lo e < unat fin \<and> unat start < e_hi e then 1 else 0)"
proof -
  define n where "n = find_first (pmes pr) start 0 (length (pmes pr))"
  have n: "\<forall>j < n. e_hi (pmes pr ! j) \<le> unat start" "\<forall>j. n \<le> j \<longrightarrow> j < length (pmes pr) \<longrightarrow> unat start < e_hi (pmes pr ! j)"
    using find_first_ok [OF assms, of 0 "length (pmes pr)" start] by (auto simp: n_def)
  have low: "e_hi e \<le> unat start" if "e \<in> set (take n (pmes pr))" for e using that n(1) by (auto simp: in_set_conv_nth)
  have high: "\<forall>e \<in> set (drop n (pmes pr)). unat start < e_hi e" using n(2) by (auto simp: in_set_conv_nth)
  have "set (pmes pr) = set (take n (pmes pr)) \<union> set (drop n (pmes pr))" by (metis append_take_drop_id set_append)
  then have "(\<exists>e \<in> set (pmes pr). pagemap_in_parent e \<and> e_lo e < unat fin \<and> unat start < e_hi e) \<longleftrightarrow>
      (\<exists>e \<in> set (drop n (pmes pr)). pagemap_in_parent e \<and> e_lo e < unat fin \<and> unat start < e_hi e)" using low by fastforce
  moreover have "has_parent_loop (drop n (pmes pr)) start fin =
      (if \<exists>e \<in> set (drop n (pmes pr)). pagemap_in_parent e \<and> e_lo e < unat fin \<and> unat start < e_hi e then 1 else 0)"
    by (rule has_parent_loop_ok [OF _ _ high]) (use assms in \<open>auto simp: pmap_ok_def sorted_wrt_drop dest: in_set_dropD\<close>)
  ultimately show ?thesis by (simp add: page_read_range_has_parent_def n_def)
qed

theorem page_read_range_has_parent_iff_witness:
  "page_read_range_has_parent w_pr 0x7000 0x9000 = 1 \<and> page_read_range_has_parent w_pr 0x9000 0x20000 = 0"
proof -
  have "pmap_ok (pmes w_pr)" using w_ok by (simp add: w_pr_def)
  from page_read_range_has_parent_iff [OF this] show ?thesis
    by (simp add: w_pr_def w_es_def mk_entry_def e_lo_def e_hi_def e_np_def pagemap_in_parent_def PE_PARENT_def)
qed

end
