(* ===== verification/Compress.thy ===== *)
theory Compress
  imports PagemapSeek
begin

text \<open>
  The compression of page blocks and the budget of decompression threads, \<^verbatim>\<open>criu/compression.c\<close>.  The
  LZ4 library is a parameter; what its documentation says is a hypothesis where it is needed.  The
  budget is shared by processes: its operations are cut into the atomic accesses of the code.
\<close>

section \<open>Blocks\<close>

text \<open>\<open>lz4_compress src dst_cap acceleration\<close> and \<open>lz4_decompress src original_size\<close> give the return value
  and the bytes stored.\<close>

type_synonym lz4_compress = "u8 list \<Rightarrow> nat \<Rightarrow> int \<Rightarrow> int \<times> u8 list"
type_synonym lz4_decompress = "u8 list \<Rightarrow> nat \<Rightarrow> int \<times> u8 list"

definition BLOCK_COMPRESSION_THRESHOLD :: "nat \<Rightarrow> nat" where
  "BLOCK_COMPRESSION_THRESHOLD block_bytes = block_bytes * 7 div 8"

text \<open>A load of an \<^verbatim>\<open>unsigned long\<close>, little endian.\<close>

fun le_val :: "u8 list \<Rightarrow> nat" where
  "le_val [] = 0"
| "le_val (b # bs) = unat b + 256 * le_val bs"

definition load_word :: "u8 list \<Rightarrow> nat \<Rightarrow> u64 option" where
  "load_word page i = (if 8 * i + 8 \<le> length page then Some (of_nat (le_val (take 8 (drop (8 * i) page)))) else None)"

fun zero_words :: "u8 list \<Rightarrow> nat \<Rightarrow> nat \<Rightarrow> bool option" where
  "zero_words page i 0 = Some True"
| "zero_words page i (Suc n) = do { w \<leftarrow> load_word page i; if w \<noteq> 0 then Some False else zero_words page (Suc i) n }"

definition page_is_all_zero :: "u8 list \<Rightarrow> bool option" where
  "page_is_all_zero page =
     (let lst = 4096 div 8 - 1 in
      do { w \<leftarrow> load_word page lst; if w \<noteq> 0 then Some False else zero_words page 0 lst })"

text \<open>The number of the first page that is not zero, from page \<open>i\<close> on, or \<open>i + n\<close>.\<close>

fun zero_pages :: "u8 list \<Rightarrow> nat \<Rightarrow> nat \<Rightarrow> nat option" where
  "zero_pages src i 0 = Some i"
| "zero_pages src i (Suc n) = do { z \<leftarrow> page_is_all_zero (drop (i * 4096) src); if z then zero_pages src (Suc i) n else Some i }"

text \<open>A null pointer is \<open>None\<close>.  The result is the return value and what is stored at \<open>dst\<close>.\<close>

definition compress_block ::
  "lz4_compress \<Rightarrow> u8 list option \<Rightarrow> nat \<Rightarrow> bool \<Rightarrow> nat \<Rightarrow> int \<Rightarrow> (int \<times> u8 list) option" where
  "compress_block lz4 src n_pages dst dst_cap acceleration =
     (if n_pages = 0 \<or> n_pages > MAX_BLOCK_PAGES then Some (- 1, [])
      else
        case src of
          None \<Rightarrow> Some (- 1, [])
        | Some s \<Rightarrow>
            if \<not> dst then Some (- 1, [])
            else
              let block_bytes = n_pages * 4096 in
              do {
                i \<leftarrow> zero_pages s 0 n_pages;
                if i = n_pages then Some (0, [])
                else if dst_cap < block_bytes then Some (- 1, [])
                else if length s < block_bytes then None
                else
                  let (ret, out) = lz4 (take block_bytes s) dst_cap (if acceleration < 1 then 1 else acceleration)
                  in if ret \<le> 0 \<or> ret \<ge> int (BLOCK_COMPRESSION_THRESHOLD block_bytes)
                     then Some (int block_bytes, take block_bytes s)
                     else Some (ret, out)
              })"

definition decompress_data_nolog :: "lz4_decompress \<Rightarrow> u8 list \<Rightarrow> nat \<Rightarrow> int \<times> u8 list" where
  "decompress_data_nolog lz4 compressed_data original_size =
     (let (ret, out) = lz4 compressed_data original_size in (if ret = int original_size then 0 else - 1, out))"

definition decompress_block :: "lz4_decompress \<Rightarrow> u8 list option \<Rightarrow> int \<Rightarrow> nat \<Rightarrow> bool \<Rightarrow> (int \<times> u8 list) option" where
  "decompress_block lz4 src compressed_size n_pages dst =
     (if n_pages = 0 \<or> n_pages > MAX_BLOCK_PAGES then Some (- 1, [])
      else if compressed_size < 0 then Some (- 1, [])
      else if \<not> dst \<or> compressed_size \<noteq> 0 \<and> src = None then Some (- 1, [])
      else
        let block_bytes = n_pages * 4096; cs = nat compressed_size in
        if cs > block_bytes then Some (- 1, [])
        else if cs = 0 then Some (0, replicate block_bytes 0)
        else if length (the src) < cs then None
        else if cs = block_bytes then Some (0, take block_bytes (the src))
        else
          case decompress_data_nolog lz4 (take cs (the src)) block_bytes of (r, out) \<Rightarrow>
            Some (if r \<noteq> 0 then - 1 else 0, out))"

section \<open>The budget\<close>

definition decompression_thread_limit :: "u32 \<Rightarrow> u32 \<Rightarrow> u32" where
  "decompression_thread_limit requested available_cpus =
     (let available_cpus = (if available_cpus = 0 then 1 else available_cpus)
      in if requested = 0 then available_cpus else min requested available_cpus)"

text \<open>\<open>cpus\<close> is the result of \<^verbatim>\<open>decompression_available_cpus\<close>, which asks the kernel.\<close>

definition decompression_cpu_limit :: "u32 \<Rightarrow> u32 \<Rightarrow> u32" where
  "decompression_cpu_limit cpus requested = decompression_thread_limit requested cpus"

definition decompression_budget_capacity :: "u32 \<Rightarrow> u32 \<Rightarrow> u32" where
  "decompression_budget_capacity cpus configured_threads =
     (if configured_threads < 2 then decompression_cpu_limit cpus 0 else decompression_cpu_limit cpus configured_threads)"

record decompression_shared_budget =
  threads :: u32
  batches :: u32
  thread_capacity :: u32

definition decompression_shared_budget_init :: "u32 \<Rightarrow> u32 \<Rightarrow> decompression_shared_budget" where
  "decompression_shared_budget_init cpus requested_threads =
     (let threads = decompression_budget_capacity cpus requested_threads
      in \<lparr>threads = threads, batches = 2, thread_capacity = threads\<rparr>)"

definition compressed_restore_has_parallel_capacity :: "decompression_shared_budget option \<Rightarrow> u32 \<Rightarrow> bool" where
  "compressed_restore_has_parallel_capacity budget requested_threads =
     (case budget of
        None \<Rightarrow> False
      | Some b \<Rightarrow> requested_threads \<noteq> 1 \<and> decompression_thread_limit requested_threads (thread_capacity b) > 1)"

definition decompress_batch_threads :: "u32 \<Rightarrow> u64 \<Rightarrow> u64 \<Rightarrow> u32 \<Rightarrow> u32" where
  "decompress_batch_threads cpus nr_jobs total_uncompressed requested_threads =
     (if total_uncompressed < 2 ^ 20 then 1
      else
        let nr_threads = decompression_cpu_limit cpus requested_threads;
            work_limit = nr_jobs;
            nr_threads = (if work_limit < ucast nr_threads then ucast work_limit else nr_threads);
            work_limit = total_uncompressed div 2 ^ 19;
            nr_threads = (if work_limit < ucast nr_threads then ucast work_limit else nr_threads)
        in if nr_threads < 2 then 1 else nr_threads)"

text \<open>
  Where a user of a budget is: in front of the read of \<^verbatim>\<open>shared_budget_acquire\<close>, or of its compare and
  exchange with \<^verbatim>\<open>current\<close> read; the same for \<^verbatim>\<open>shared_budget_try_acquire\<close>, which may also refuse; holding an
  amount; or in front of the addition of \<^verbatim>\<open>shared_budget_release\<close> of some of it.
\<close>

datatype budget_pc = Idle | AcqGet u32 | AcqCas u32 u32 | TryGet | TryCas u32 | Refused | Held u32 | Release u32 u32

definition cmpxchg :: "u32 \<Rightarrow> u32 \<Rightarrow> u32 \<Rightarrow> u32 \<times> u32" where
  "cmpxchg v old new = (v, if v = old then new else v)"

text \<open>One access to the word, which gives the new value and the next place.  A reader of zero in
  \<^verbatim>\<open>shared_budget_acquire\<close> waits and reads again.\<close>

definition shared_budget_acquire :: "u32 \<Rightarrow> budget_pc \<Rightarrow> u32 \<times> budget_pc" where
  "shared_budget_acquire avail pc =
     (case pc of
        AcqGet requested \<Rightarrow> (avail, if avail = 0 then AcqGet requested else AcqCas requested avail)
      | AcqCas requested current \<Rightarrow>
          let granted = min requested current; (previous, avail) = cmpxchg avail current (current - granted)
          in (avail, if previous = current then Held granted else AcqGet requested)
      | _ \<Rightarrow> (avail, pc))"

definition shared_budget_try_acquire :: "u32 \<Rightarrow> budget_pc \<Rightarrow> u32 \<times> budget_pc" where
  "shared_budget_try_acquire avail pc =
     (case pc of
        TryGet \<Rightarrow> (avail, if avail = 0 then Refused else TryCas avail)
      | TryCas current \<Rightarrow>
          let (previous, avail) = cmpxchg avail current (current - 1)
          in (avail, if previous = current then Held 1 else if previous = 0 then Refused else TryCas previous)
      | _ \<Rightarrow> (avail, pc))"

definition shared_budget_release :: "u32 \<Rightarrow> budget_pc \<Rightarrow> u32 \<times> budget_pc" where
  "shared_budget_release avail pc =
     (case pc of
        Release held amount \<Rightarrow> (avail + amount, if amount = held then Idle else Held (held - amount))
      | _ \<Rightarrow> (avail, pc))"

definition budget_op :: "u32 \<Rightarrow> budget_pc \<Rightarrow> u32 \<times> budget_pc" where
  "budget_op avail pc =
     (case pc of
        AcqGet _ \<Rightarrow> shared_budget_acquire avail pc
      | AcqCas _ _ \<Rightarrow> shared_budget_acquire avail pc
      | TryGet \<Rightarrow> shared_budget_try_acquire avail pc
      | TryCas _ \<Rightarrow> shared_budget_try_acquire avail pc
      | Release _ _ \<Rightarrow> shared_budget_release avail pc
      | _ \<Rightarrow> (avail, pc))"

text \<open>The calls, which start these operations; \<open>shared\<close> says whether there is a shared budget.  \<^verbatim>\<open>BUG_ON\<close> is
  \<open>None\<close>; a release of nothing is not done.\<close>

definition decompress_budget_acquire :: "bool \<Rightarrow> u32 \<Rightarrow> budget_pc" where
  "decompress_budget_acquire shared requested = (if \<not> shared then Held 0 else AcqGet requested)"

definition decompression_batch_acquire :: "bool \<Rightarrow> budget_pc" where
  "decompression_batch_acquire shared = (if \<not> shared then Held 0 else AcqGet 1)"

definition decompression_batch_try_acquire :: "bool \<Rightarrow> budget_pc" where
  "decompression_batch_try_acquire shared = (if \<not> shared then Held 0 else TryGet)"

definition decompress_budget_release :: "bool \<Rightarrow> u32 \<Rightarrow> u32 \<Rightarrow> budget_pc" where
  "decompress_budget_release shared held nr_threads = (if nr_threads = 0 \<or> \<not> shared then Held (held - nr_threads) else Release held nr_threads)"

definition decompression_batch_release :: "bool \<Rightarrow> u32 \<Rightarrow> budget_pc" where
  "decompression_batch_release shared held = (if \<not> shared then Held held else Release held 1)"

definition decompress_budget_trim_reservation :: "bool \<Rightarrow> u32 \<Rightarrow> u32 \<Rightarrow> budget_pc option" where
  "decompress_budget_trim_reservation shared threads_held threads_to_keep =
     (if threads_to_keep > threads_held then None
      else Some (decompress_budget_release shared threads_held (threads_held - threads_to_keep)))"

text \<open>The processes interleave in any order: the available amount and the place of each.\<close>

inductive budget_step :: "u32 \<times> budget_pc list \<Rightarrow> u32 \<times> budget_pc list \<Rightarrow> bool" where
  acquire: "i < length pcs \<Longrightarrow> pcs ! i \<in> {Idle, Refused} \<Longrightarrow> budget_step (av, pcs) (av, pcs[i := decompress_budget_acquire True r])"
| batch_acquire: "i < length pcs \<Longrightarrow> pcs ! i \<in> {Idle, Refused} \<Longrightarrow> budget_step (av, pcs) (av, pcs[i := decompression_batch_acquire True])"
| try_acquire: "i < length pcs \<Longrightarrow> pcs ! i \<in> {Idle, Refused} \<Longrightarrow> budget_step (av, pcs) (av, pcs[i := decompression_batch_try_acquire True])"
| release: "i < length pcs \<Longrightarrow> pcs ! i = Held h \<Longrightarrow> budget_step (av, pcs) (av, pcs[i := decompress_budget_release True h h])"
| batch_release: "i < length pcs \<Longrightarrow> pcs ! i = Held h \<Longrightarrow> 0 < h \<Longrightarrow> budget_step (av, pcs) (av, pcs[i := decompression_batch_release True h])"
| trim: "i < length pcs \<Longrightarrow> pcs ! i = Held h \<Longrightarrow> decompress_budget_trim_reservation True h k = Some pc \<Longrightarrow>
    budget_step (av, pcs) (av, pcs[i := pc])"
| access: "i < length pcs \<Longrightarrow> budget_op av (pcs ! i) = (av', pc) \<Longrightarrow> budget_step (av, pcs) (av', pcs[i := pc])"

inductive_cases budget_stepE: "budget_step s s'"

section \<open>Properties of blocks\<close>

lemma le_val_bound: "le_val bs < 256 ^ length bs"
proof (induction bs)
  case (Cons b bs)
  have "unat b < 256" using unsigned_less [of b, where ?'a = nat] by simp
  then have "le_val (b # bs) < 256 + 256 * le_val bs" by simp
  also have "\<dots> \<le> 256 ^ length (b # bs)" using Cons by simp
  finally show ?case .
qed simp

lemma le_val_0: "le_val bs = 0 \<longleftrightarrow> (\<forall>b \<in> set bs. b = 0)"
proof (induction bs)
  case (Cons b bs)
  have "le_val (b # bs) = 0 \<longleftrightarrow> unat b = 0 \<and> le_val bs = 0" by simp
  also have "unat b = 0 \<longleftrightarrow> b = 0" by (rule unsigned_eq_0_iff)
  finally show ?case using Cons by simp
qed simp

lemma of_nat_u64_0: "n < 2 ^ 64 \<Longrightarrow> (of_nat n :: u64) = 0 \<longleftrightarrow> n = 0"
  using unat_of_nat_u64 [of n] by auto

lemma load_word_ok:
  assumes "8 * i + 8 \<le> length page"
  shows "\<exists>w. load_word page i = Some w \<and> (w = 0 \<longleftrightarrow> (\<forall>k < 8. page ! (8 * i + k) = 0))"
proof -
  define bs where "bs = take 8 (drop (8 * i) page)"
  have len: "length bs = 8" using assms by (simp add: bs_def)
  have "le_val bs < 2 ^ 64" using le_val_bound [of bs] by (simp add: len)
  then have z: "(of_nat (le_val bs) :: u64) = 0 \<longleftrightarrow> (\<forall>k < 8. bs ! k = 0)"
    using all_set_conv_all_nth [of bs "\<lambda>b. b = 0"] by (simp add: of_nat_u64_0 le_val_0 len)
  have "bs ! k = page ! (8 * i + k)" if "k < 8" for k
    using that assms by (simp add: bs_def)
  then have "(\<forall>k < 8. bs ! k = 0) \<longleftrightarrow> (\<forall>k < 8. page ! (8 * i + k) = 0)" by metis
  then show ?thesis using assms z by (auto simp: load_word_def bs_def [symmetric])
qed

lemma zero_words_ok:
  "8 * (i + n) \<le> length page \<Longrightarrow> zero_words page i n = Some (\<forall>k. 8 * i \<le> k \<and> k < 8 * (i + n) \<longrightarrow> page ! k = 0)"
proof (induction n arbitrary: i)
  case (Suc n)
  have l: "8 * i + 8 \<le> length page" "8 * (Suc i + n) \<le> length page" using Suc(2) by auto
  obtain w where w: "load_word page i = Some w" "w = 0 \<longleftrightarrow> (\<forall>k < 8. page ! (8 * i + k) = 0)" using load_word_ok [OF l(1)] by blast
  have first: "(\<forall>k < 8. page ! (8 * i + k) = 0) \<longleftrightarrow> (\<forall>k. 8 * i \<le> k \<and> k < 8 * i + 8 \<longrightarrow> page ! k = 0)"
    by (metis le_add1 le_iff_add nat_add_left_cancel_less)
  have split: "(\<forall>k. 8 * i \<le> k \<and> k < 8 * (i + Suc n) \<longrightarrow> page ! k = 0) \<longleftrightarrow>
     (\<forall>k. 8 * i \<le> k \<and> k < 8 * i + 8 \<longrightarrow> page ! k = 0) \<and> (\<forall>k. 8 * Suc i \<le> k \<and> k < 8 * (Suc i + n) \<longrightarrow> page ! k = 0)" (is "?a = (?b \<and> ?c)")
  proof
    assume a: ?a
    then show "?b \<and> ?c" by auto
  next
    assume "?b \<and> ?c"
    then show ?a by (metis add.commute add_Suc_right add_Suc_shift mult_Suc_right not_le)
  qed
  show ?case using w first split Suc(1) [OF l(2)] by (simp del: mult_Suc_right)
qed auto

lemma page_is_all_zero_ok:
  assumes "4096 \<le> length page"
  shows "page_is_all_zero page = Some (\<forall>k < 4096. page ! k = 0)"
proof -
  obtain w where w: "load_word page 511 = Some w" "w = 0 \<longleftrightarrow> (\<forall>k < 8. page ! (8 * 511 + k) = 0)"
    using load_word_ok [of 511 page] assms by auto
  have z: "zero_words page 0 511 = Some (\<forall>k < 4088. page ! k = 0)" using zero_words_ok [of 0 511 page] assms by simp
  have "(\<forall>k < 4096. page ! k = 0) \<longleftrightarrow> (\<forall>k < 4088. page ! k = 0) \<and> (\<forall>k < 8. page ! (4088 + k) = 0)"
  proof (intro iffI conjI allI impI)
    fix k assume a: "(\<forall>k < 4088. page ! k = 0) \<and> (\<forall>k < 8. page ! (4088 + k) = 0)" and k: "k < (4096 :: nat)"
    show "page ! k = 0"
    proof (cases "k < 4088")
      case False
      then have "k = 4088 + (k - 4088)" "k - 4088 < 8" using k by auto
      then show ?thesis using a by metis
    qed (use a in simp)
  qed auto
  then show ?thesis using w z by (simp add: page_is_all_zero_def)
qed

lemma zero_pages_ok:
  "(i + n) * 4096 \<le> length src \<Longrightarrow>
     \<exists>j. zero_pages src i n = Some j \<and> (j = i + n \<longleftrightarrow> (\<forall>k. i * 4096 \<le> k \<and> k < (i + n) * 4096 \<longrightarrow> src ! k = 0)) \<and> i \<le> j \<and> j \<le> i + n"
proof (induction n arbitrary: i)
  case (Suc n)
  have z: "page_is_all_zero (drop (i * 4096) src) = Some (\<forall>k < 4096. src ! (i * 4096 + k) = 0)"
    using page_is_all_zero_ok [of "drop (i * 4096) src"] Suc(2) by simp
  show ?case
  proof (cases "\<forall>k < 4096. src ! (i * 4096 + k) = 0")
    case True
    have "(Suc i + n) * 4096 \<le> length src" using Suc(2) by simp
    from Suc(1) [OF this] obtain j where j: "zero_pages src (Suc i) n = Some j"
        "j = Suc i + n \<longleftrightarrow> (\<forall>k. Suc i * 4096 \<le> k \<and> k < (Suc i + n) * 4096 \<longrightarrow> src ! k = 0)" "Suc i \<le> j" "j \<le> Suc i + n" by blast
    have low: "src ! k = 0" if "i * 4096 \<le> k" "k < Suc i * 4096" for k
      using True [rule_format, of "k - i * 4096"] that by simp
    have "(\<forall>k. Suc i * 4096 \<le> k \<and> k < (Suc i + n) * 4096 \<longrightarrow> src ! k = 0) \<longleftrightarrow>
        (\<forall>k. i * 4096 \<le> k \<and> k < (i + Suc n) * 4096 \<longrightarrow> src ! k = 0)" (is "?a = ?b")
    proof
      assume a: ?a
      show ?b
      proof (intro allI impI)
        fix k assume "i * 4096 \<le> k \<and> k < (i + Suc n) * 4096"
        then show "src ! k = 0" using low [of k] a by (cases "k < Suc i * 4096") auto
      qed
    qed auto
    then show ?thesis using True z j by auto
  next
    case False
    then obtain k where k: "k < 4096" "src ! (i * 4096 + k) \<noteq> 0" by blast
    have "i * 4096 \<le> i * 4096 + k" "i * 4096 + k < (i + Suc n) * 4096" using k(1) by auto
    then have "\<not> (\<forall>k. i * 4096 \<le> k \<and> k < (i + Suc n) * 4096 \<longrightarrow> src ! k = 0)" using k(2) by blast
    then show ?thesis using False z by auto
  qed
qed auto

lemma zero_block: "length src = n \<Longrightarrow> (\<forall>k < n. src ! k = 0) \<longleftrightarrow> src = replicate n (0 :: u8)"
  by (metis length_replicate nth_equalityI nth_replicate)

text \<open>What the documentation of LZ4 says: the compressed bytes decompress to the source.\<close>

definition lz4_ok :: "lz4_compress \<Rightarrow> lz4_decompress \<Rightarrow> bool" where
  "lz4_ok lz4 unlz4 \<longleftrightarrow> (\<forall>s cap a r out. lz4 s cap a = (r, out) \<longrightarrow> 0 < r \<longrightarrow>
     int (length out) = r \<and> unlz4 out (length s) = (int (length s), s))"

text \<open>C19: A block of 1 to 1024 pages that is compressed into a large enough buffer gives a size of at most the block,
  and decompression with that size gives the block back: a zero block takes no bytes, a block
  that does not compress well is stored as it is, and no LZ4 payload is taken for one of these.\<close>

theorem compress_then_decompress:
  assumes lz4: "lz4_ok lz4 unlz4" and n: "0 < n" "n \<le> MAX_BLOCK_PAGES" and src: "length src = n * 4096" and cap: "n * 4096 \<le> cap"
  shows "\<exists>cs out. compress_block lz4 (Some src) n True cap a = Some (cs, out) \<and> 0 \<le> cs \<and> cs \<le> int (n * 4096) \<and>
    int (length out) = cs \<and> (cs = 0 \<longleftrightarrow> src = replicate (n * 4096) 0) \<and> decompress_block unlz4 (Some out) cs n True = Some (0, src)"
proof -
  obtain j where j: "zero_pages src 0 n = Some j" "j = n \<longleftrightarrow> (\<forall>k < n * 4096. src ! k = 0)"
    using zero_pages_ok [of 0 n src] src by auto
  obtain r out where c: "lz4 src cap (if a < 1 then 1 else a) = (r, out)" by force
  consider (zero) "j = n" | (raw) "j \<noteq> n" "r \<le> 0 \<or> r \<ge> int (BLOCK_COMPRESSION_THRESHOLD (n * 4096))"
    | (lz4) "j \<noteq> n" "0 < r" "r < int (BLOCK_COMPRESSION_THRESHOLD (n * 4096))" by linarith
  then show ?thesis
  proof cases
    case zero
    then have "src = replicate (n * 4096) 0" using j(2) zero_block [OF src] by simp
    then show ?thesis using zero j n by (simp add: compress_block_def decompress_block_def)
  next
    case raw
    then have "src \<noteq> replicate (n * 4096) 0" using j(2) zero_block [OF src] by simp
    moreover have "src \<noteq> []" using src n by auto
    ultimately show ?thesis using raw j n src cap c by (simp add: compress_block_def decompress_block_def Let_def)
  next
    case lz4
    then have "src \<noteq> replicate (n * 4096) 0" using j(2) zero_block [OF src] by simp
    moreover have "int (length out) = r" "unlz4 out (n * 4096) = (int (n * 4096), src)"
      using \<open>lz4_ok lz4 unlz4\<close> c lz4 src unfolding lz4_ok_def by force+
    moreover have "r < int (n * 4096)" using lz4(3) n unfolding BLOCK_COMPRESSION_THRESHOLD_def by linarith
    ultimately show ?thesis using lz4 j n src cap c
      by (auto simp: compress_block_def decompress_block_def decompress_data_nolog_def Let_def)
  qed
qed

definition demo_lz4 :: lz4_compress where
  "demo_lz4 s cap a = (if s \<noteq> [] \<and> (\<forall>b \<in> set s. b = hd s) then (1, [hd s]) else (0, []))"

definition demo_unlz4 :: lz4_decompress where
  "demo_unlz4 s n = (if length s = 1 then (int n, replicate n (hd s)) else (- 1, []))"

theorem compress_then_decompress_witness:
  "lz4_ok demo_lz4 demo_unlz4 \<and> (\<exists>cs out. compress_block demo_lz4 (Some (replicate 8192 7)) 2 True 9000 1 = Some (cs, out) \<and>
     cs \<noteq> 0 \<and> decompress_block demo_unlz4 (Some out) cs 2 True = Some (0, replicate 8192 7))"
proof -
  have "s = replicate (length s) (hd s)" if "\<forall>b \<in> set s. b = hd s" for s :: "u8 list"
    using that by (metis replicate_length_same)
  then have "lz4_ok demo_lz4 demo_unlz4" by (auto simp: lz4_ok_def demo_lz4_def demo_unlz4_def split: if_splits)
  moreover have "replicate 8192 (7 :: u8) \<noteq> replicate 8192 0" using replicate_eq_replicate [of 8192 "7 :: u8" 8192 0] by simp
  ultimately show ?thesis
    using compress_then_decompress [of demo_lz4 demo_unlz4 2 "replicate 8192 7" 9000 1] by (auto simp: MAX_BLOCK_PAGES_def)
qed

section \<open>Properties of the budget\<close>

fun holds :: "budget_pc \<Rightarrow> nat" where
  "holds (Held h) = unat h"
| "holds (Release h a) = unat h"
| "holds _ = 0"

fun pc_ok :: "budget_pc \<Rightarrow> bool" where
  "pc_ok (Release h a) \<longleftrightarrow> a \<le> h \<and> 0 < a"
| "pc_ok (AcqCas r c) \<longleftrightarrow> 0 < c"
| "pc_ok (TryCas c) \<longleftrightarrow> 0 < c"
| "pc_ok _ \<longleftrightarrow> True"

definition held :: "budget_pc list \<Rightarrow> nat" where "held pcs = sum_list (map holds pcs)"

definition budget_inv :: "u32 \<Rightarrow> u32 \<times> budget_pc list \<Rightarrow> bool" where
  "budget_inv cap s \<longleftrightarrow> unat (fst s) + held (snd s) = unat cap \<and> (\<forall>pc \<in> set (snd s). pc_ok pc)"

lemma held_update: "i < length pcs \<Longrightarrow> held (pcs[i := pc]) + holds (pcs ! i) = held pcs + holds pc"
proof -
  assume i: "i < length pcs"
  then have "holds (pcs ! i) \<le> held pcs" unfolding held_def using member_le_sum_list [of "holds (pcs ! i)" "map holds pcs"] by simp
  then show ?thesis using i unfolding held_def by (simp add: map_update sum_list_update)
qed

lemma budget_inv_update:
  assumes "budget_inv cap (av, pcs)" and "i < length pcs" and "pc_ok pc" and "unat av' + holds pc = unat av + holds (pcs ! i)"
  shows "budget_inv cap (av', pcs[i := pc])"
  using assms held_update [OF assms(2), of pc] by (auto simp: budget_inv_def dest: set_update_subset_insert [THEN subsetD])

lemma unat_sub_u32: "b \<le> a \<Longrightarrow> unat (a - b) + unat b = unat (a :: u32)"
  by (simp add: unat_sub word_le_nat_alt)

lemma budget_op_ok:
  assumes "budget_op av pc = (av', pc')" and "pc_ok pc" and "unat av + holds pc < 2 ^ 32"
  shows "pc_ok pc' \<and> unat av' + holds pc' = unat av + holds pc"
proof (cases pc)
  case (Release h a)
  then have "unat a \<le> unat h" using assms(2) by (simp add: word_le_nat_alt)
  then have "unat (av + a) = unat av + unat a" using assms(3) Release by (simp add: unat_word_ariths)
  then show ?thesis using assms(1,2) Release unat_sub_u32 [of a h]
    by (auto simp: budget_op_def shared_budget_release_def split: if_splits)
next
  case (AcqCas r c)
  then show ?thesis using assms(1) unat_sub_u32 [of "min r c" c]
    by (auto simp: budget_op_def shared_budget_acquire_def cmpxchg_def Let_def split: if_splits)
next
  case (TryCas c)
  have "1 \<le> c" using assms(2) TryCas by (simp add: word_le_nat_alt word_less_nat_alt)
  then show ?thesis using assms(1) TryCas unat_sub_u32 [of 1 c]
    by (auto simp: budget_op_def shared_budget_try_acquire_def cmpxchg_def Let_def word_neq_0_conv split: if_splits)
qed (use assms in \<open>auto simp: budget_op_def shared_budget_acquire_def shared_budget_try_acquire_def word_neq_0_conv split: if_splits\<close>)

lemma budget_step_inv:
  assumes "budget_step s s'" and "budget_inv cap s"
  shows "budget_inv cap s' \<and> length (snd s') = length (snd s)"
  using assms
proof (induction rule: budget_step.induct)
  case (access i pcs av av' pc)
  have ok: "pc_ok (pcs ! i)" using access by (auto simp: budget_inv_def)
  have "unat av + holds (pcs ! i) \<le> unat cap"
    using access held_update [OF access(1), of Idle] by (auto simp: budget_inv_def)
  then have "unat av + holds (pcs ! i) < 2 ^ 32" using unat_lt_u32 [of cap] by linarith
  from budget_op_ok [OF access(2) ok this] show ?case using budget_inv_update [OF access(3,1)] by simp
next
  case (batch_release i pcs h av)
  then have "(1 :: u32) \<le> h" by (simp add: word_le_nat_alt word_less_nat_alt)
  then show ?case using batch_release budget_inv_update [of cap av pcs i "decompression_batch_release True h" av]
    by (simp add: decompression_batch_release_def)
next
  case (trim i pcs h k pc av)
  have "k \<le> h" "pc = decompress_budget_release True h (h - k)"
    using trim(3) by (auto simp: decompress_budget_trim_reservation_def split: if_splits)
  moreover have "h - k \<le> h" using \<open>k \<le> h\<close> by (simp add: word_le_nat_alt unat_sub)
  moreover have "h - k = 0 \<or> 0 < h - k" using word_neq_0_conv by blast
  ultimately show ?case using trim budget_inv_update [of cap av pcs i pc av]
    by (auto simp: decompress_budget_release_def)
next
  case (release i pcs h av)
  then show ?case using budget_inv_update [of cap av pcs i "decompress_budget_release True h h" av]
    by (auto simp: decompress_budget_release_def word_neq_0_conv)
qed (auto intro!: budget_inv_update simp: decompress_budget_acquire_def decompression_batch_acquire_def decompression_batch_try_acquire_def)

text \<open>C15: However the processes of a restore interleave their accesses to a shared budget of \<open>cap\<close> slots, the slots that are
  held and those that are available always add up to \<open>cap\<close>: none is lost and none is given out twice, so that
  at most \<open>cap\<close> are in use.  When no process holds a slot, one that asks for some alone gets what it
  asks for, up to \<open>cap\<close>.\<close>

theorem shared_budget_conserved:
  assumes "budget_step\<^sup>*\<^sup>* (cap, replicate n Idle) (av, pcs)"
  shows "unat av + held pcs = unat cap \<and> held pcs \<le> unat cap \<and>
    (held pcs = 0 \<and> 0 < cap \<longrightarrow> (\<forall>i < n. \<forall>r. pcs ! i = AcqGet r \<longrightarrow>
      budget_step\<^sup>*\<^sup>* (av, pcs) (cap - min r cap, pcs[i := Held (min r cap)])))"
proof -
  have "budget_inv cap (av, pcs) \<and> length pcs = n"
    using assms
  proof (induction "(av, pcs)" arbitrary: av pcs rule: rtranclp_induct)
    case base
    then show ?case by (auto simp: budget_inv_def held_def sum_list_replicate)
  next
    case (step s)
    then show ?case using budget_step_inv [of s] by (cases s) force
  qed
  then have inv: "unat av + held pcs = unat cap" and len: "length pcs = n" by (auto simp: budget_inv_def)
  have "budget_step\<^sup>*\<^sup>* (av, pcs) (cap - min r cap, pcs[i := Held (min r cap)])"
    if "held pcs = 0" and cap: "0 < cap" and i: "i < n" and pc: "pcs ! i = AcqGet r" for i r
  proof -
    have av: "av = cap" using inv \<open>held pcs = 0\<close> by (simp add: word_unat_eq_iff)
    have "budget_step (av, pcs) (cap, pcs[i := AcqCas r cap])"
      using i len pc av cap by (intro budget_step.access) (auto simp: budget_op_def shared_budget_acquire_def)
    moreover have "budget_step (cap, pcs[i := AcqCas r cap]) (cap - min r cap, (pcs[i := AcqCas r cap])[i := Held (min r cap)])"
      using i len by (intro budget_step.access) (auto simp: budget_op_def shared_budget_acquire_def cmpxchg_def Let_def)
    ultimately show ?thesis by (simp add: converse_rtranclp_into_rtranclp)
  qed
  then show ?thesis using inv by auto
qed

theorem shared_budget_conserved_witness:
  "budget_step\<^sup>*\<^sup>* (3, replicate 2 Idle) (1, [Held 2, Idle]) \<and> unat (1 :: u32) + held [Held 2, Idle] = 3"
proof -
  have "budget_step (3, [Idle, Idle]) (3, [AcqGet 2, Idle])"
    using budget_step.acquire [of 0 "[Idle, Idle]" 3 2] by (simp add: decompress_budget_acquire_def)
  moreover have "budget_step (3, [AcqGet 2, Idle]) (3, [AcqCas 2 3, Idle])"
    using budget_step.access [of 0 "[AcqGet 2, Idle]" 3 3 "AcqCas 2 3"] by (simp add: budget_op_def shared_budget_acquire_def)
  moreover have "budget_step (3, [AcqCas 2 3, Idle]) (1, [Held 2, Idle])"
    using budget_step.access [of 0 "[AcqCas 2 3, Idle]" 3 1 "Held 2"]
    by (simp add: budget_op_def shared_budget_acquire_def cmpxchg_def Let_def min_def word_le_nat_alt)
  ultimately have "budget_step\<^sup>*\<^sup>* (3, replicate 2 Idle) (1, [Held 2, Idle])"
    by (simp add: numeral_2_eq_2 converse_rtranclp_into_rtranclp)
  from shared_budget_conserved [OF this] this show ?thesis by simp
qed

lemma decompress_batch_threads_bounds:
  "1 \<le> unat (decompress_batch_threads cpus jobs tot req) \<and>
   unat (decompress_batch_threads cpus jobs tot req) \<le> max 1 (unat (decompression_cpu_limit cpus req))"
proof -
  have le: "unat (if w < ucast t then ucast w else t) \<le> unat t" for w :: u64 and t :: u32
  proof -
    have "unat (ucast w :: u32) \<le> unat w" by (simp add: unsigned_ucast_eq take_bit_nat_less_eq_self)
    then show ?thesis using unat_ucast_u32 [of t] by (auto simp: word_less_nat_alt)
  qed
  have two: "unat (if n < 2 then 1 else n) \<le> max 1 (unat n) \<and> 1 \<le> unat (if n < 2 then 1 else n)" for n :: u32
    by (auto simp: word_less_nat_alt)
  show ?thesis
  proof (cases "tot < 2 ^ 20")
    case False
    define n1 where "n1 = decompression_cpu_limit cpus req"
    define n2 where "n2 = (if jobs < ucast n1 then ucast jobs else n1)"
    define n3 where "n3 = (if tot div 2 ^ 19 < ucast n2 then ucast (tot div 2 ^ 19) else n2)"
    have "unat n2 \<le> unat n1" unfolding n2_def by (rule le)
    moreover have "unat n3 \<le> unat n2" unfolding n3_def by (rule le)
    moreover have "decompress_batch_threads cpus jobs tot req = (if n3 < 2 then 1 else n3)"
      using False unfolding decompress_batch_threads_def Let_def n1_def n2_def n3_def by (simp only: if_False)
    ultimately show ?thesis using two [of n3] unfolding n1_def by (auto simp only: max_def split: if_splits)
  qed (simp add: decompress_batch_threads_def)
qed

end
