(* ===== verification/PagemapIov.thy ===== *)
theory PagemapIov
  imports Compress
begin

text \<open>
  The queue of asynchronous page reads of \<^verbatim>\<open>criu/pagemap.c\<close>: requests for pages are joined to jobs for one
  \<^verbatim>\<open>preadv\<close>, cut where the storage of the blocks changes.  In the types of results \<open>Inl ()\<close> is the
  error return of the code.
\<close>

section \<open>Jobs\<close>

datatype restore_vma_io_storage = VMA_IO_UNCOMPRESSED | VMA_IO_ENCODED | VMA_IO_PACKED_RAW | VMA_IO_ZERO

record iov =
  iov_base :: u64
  iov_len :: u64

text \<open>Of the arrays the first \<^verbatim>\<open>nr\<close> and \<^verbatim>\<open>nr_blocks\<close> elements are in use: the lists are those.\<close>

record page_read_iov =
  piov_from :: int
  piov_end :: int
  piov_to :: "iov list"
  piov_storage :: restore_vma_io_storage
  b_sizes :: "u32 list"
  b_total :: u64
  b_ppb :: u32
  n_pages :: u64
  block_pages :: "16 word list"

type_synonym 'a c_result = "unit + 'a"
type_synonym 'w alloc = "'w \<Rightarrow> bool \<times> 'w"

abbreviation ASYNC_BATCH_MAX_PAGES :: u64 where "ASYNC_BATCH_MAX_PAGES \<equiv> 8192"
abbreviation IOV_MAX :: nat where "IOV_MAX \<equiv> 1024"

section \<open>The storage of blocks\<close>

text \<open>The number of pages and of bytes of a block.\<close>

definition compressed_block_layout :: "pagemap_entry \<Rightarrow> nat \<Rightarrow> (u32 \<times> u64) c_result" where
  "compressed_block_layout e index =
     (let pages_per_block = pagemap_block_pages e in
      case blocks e of
        None \<Rightarrow> Inl ()
      | Some bl \<Rightarrow>
          if index \<ge> length (block_sizes bl) then Inl ()
          else
            let first_page = of_nat index * ucast pages_per_block in
            if first_page \<ge> nr_pages e then Inl ()
            else
              let pages_left = nr_pages e - first_page;
                  bp = (if pages_left < ucast pages_per_block then ucast pages_left else pages_per_block)
              in Inr (bp, ucast bp * PAGE))"

definition compressed_block_storage :: "pagemap_entry \<Rightarrow> nat \<Rightarrow> (restore_vma_io_storage \<times> u32) c_result" where
  "compressed_block_storage e index =
     (case compressed_block_layout e index of
        Inl _ \<Rightarrow> Inl ()
      | Inr (bp, block_bytes) \<Rightarrow>
          let compressed_size = block_sizes (the (blocks e)) ! index in
          Inr (if compressed_size = 0 then VMA_IO_ZERO
               else if ucast compressed_size = block_bytes then VMA_IO_PACKED_RAW else VMA_IO_ENCODED, bp))"

text \<open>The loop over the blocks \<open>idx, ..., idx + n - 1\<close>: their sizes and numbers of pages.\<close>

fun add_blocks :: "pagemap_entry \<Rightarrow> restore_vma_io_storage \<Rightarrow> nat \<Rightarrow> nat \<Rightarrow> (u32 \<times> 16 word) list c_result" where
  "add_blocks e storage idx 0 = Inr []"
| "add_blocks e storage idx (Suc n) =
     (case compressed_block_storage e idx of
        Inl _ \<Rightarrow> Inl ()
      | Inr (block_storage, cur_block_pages) \<Rightarrow>
          if (storage = VMA_IO_PACKED_RAW \<or> storage = VMA_IO_ZERO) \<and> block_storage \<noteq> storage then Inl ()
          else
            case add_blocks e storage (Suc idx) n of
              Inl _ \<Rightarrow> Inl ()
            | Inr bs \<Rightarrow> Inr ((block_sizes (the (blocks e)) ! idx, ucast cur_block_pages) # bs))"

text \<open>The return value, the job and the world.\<close>

definition piov_add_compressed_blocks ::
  "'w alloc \<Rightarrow> page_read_iov \<Rightarrow> page_read \<Rightarrow> u64 \<Rightarrow> restore_vma_io_storage \<Rightarrow> 'w \<Rightarrow> (int \<times> page_read_iov \<times> 'w) option" where
  "piov_add_compressed_blocks xrealloc piov pr nr storage w =
     do {
       e \<leftarrow> pe pr;
       let bp = pagemap_block_pages e;
       let pages_consumed = of_nat (block_idx pr) * ucast bp;
       let end_page = pages_consumed + nr;
       if pages_consumed mod ucast bp \<noteq> 0 \<or> (nr mod ucast bp \<noteq> 0 \<and> end_page \<noteq> nr_pages e) then Some (- 1, piov, w)
       else
         let n_blocks = unat (block_nr_blocks nr bp) in
         if (case blocks e of None \<Rightarrow> True | Some bl \<Rightarrow> block_idx pr + n_blocks > length (block_sizes bl)) then Some (- 1, piov, w)
         else
           let (ok, w) = xrealloc w in
           if \<not> ok then Some (- 1, piov, w)
           else
             let (ok, w) = xrealloc w in
             if \<not> ok then Some (- 1, piov, w)
             else
               case add_blocks e storage (block_idx pr) n_blocks of
                 Inl _ \<Rightarrow> Some (- 1, piov, w)
               | Inr bs \<Rightarrow>
                   let added = sum_sizes (map fst bs) 0
                   in Some (0, piov\<lparr>b_sizes := b_sizes piov @ map fst bs, block_pages := block_pages piov @ map snd bs,
                                    b_total := b_total piov + added, b_ppb := bp, piov_end := piov_end piov + uint added\<rparr>, w)
     }"

section \<open>One job\<close>

definition enqueue_async_iov ::
  "'w alloc \<Rightarrow> page_read \<Rightarrow> u64 \<Rightarrow> u64 \<Rightarrow> page_read_iov list \<Rightarrow> restore_vma_io_storage \<Rightarrow> 'w \<Rightarrow> (int \<times> page_read_iov list \<times> 'w) option" where
  "enqueue_async_iov al pr buf len to storage w =
     (if len = 0 \<or> len mod PAGE \<noteq> 0 then Some (- 1, to, w)
      else
        let packed = (case pe pr of None \<Rightarrow> False | Some e \<Rightarrow> blocks e \<noteq> None) in
        if storage = VMA_IO_UNCOMPRESSED \<and> packed then Some (- 1, to, w)
        else if storage \<noteq> VMA_IO_UNCOMPRESSED \<and> \<not> packed then Some (- 1, to, w)
        else
          let (ok, w) = al w in
          if \<not> ok then Some (- 1, to, w)
          else
            let (ok, w) = al w in
            if \<not> ok then Some (- 1, to, w)
            else
              let pr_iov = \<lparr>piov_from = pi_off pr, piov_end = pi_off pr, piov_to = [\<lparr>iov_base = buf, iov_len = len\<rparr>], piov_storage = storage,
                            b_sizes = [], b_total = 0, b_ppb = 0, n_pages = len div PAGE, block_pages = []\<rparr>
              in if storage = VMA_IO_UNCOMPRESSED then Some (0, to @ [pr_iov\<lparr>piov_end := piov_end pr_iov + uint len\<rparr>], w)
                 else do {
                   (r, pr_iov, w) \<leftarrow> piov_add_compressed_blocks al pr_iov pr (len div PAGE) storage w;
                   if r \<noteq> 0 then Some (- 1, to, w) else Some (0, to @ [pr_iov], w)
                 })"

text \<open>A request that continues the last job is appended to it: its last vector grows, or a vector is added.  If the blocks
  cannot be added, that is taken back.\<close>

definition pagemap_enqueue_iovec_one ::
  "'w alloc \<Rightarrow> page_read \<Rightarrow> u64 \<Rightarrow> u64 \<Rightarrow> page_read_iov list \<Rightarrow> restore_vma_io_storage \<Rightarrow> 'w \<Rightarrow> (int \<times> page_read_iov list \<times> 'w) option" where
  "pagemap_enqueue_iovec_one al pr buf len to storage w =
     do {
       new_block_pages \<leftarrow> (if storage \<noteq> VMA_IO_UNCOMPRESSED then do { e \<leftarrow> pe pr; Some (pagemap_block_pages e) } else Some 0);
       let cur = last to;
       if to = [] \<or> pi_off pr \<noteq> piov_end cur then enqueue_async_iov al pr buf len to storage w
       else if piov_storage cur \<noteq> storage then enqueue_async_iov al pr buf len to storage w
       else if b_ppb cur \<noteq> new_block_pages then enqueue_async_iov al pr buf len to storage w
       else if storage \<noteq> VMA_IO_UNCOMPRESSED \<and> n_pages cur + len div PAGE > ASYNC_BATCH_MAX_PAGES then enqueue_async_iov al pr buf len to storage w
       else if piov_to cur = [] then None
       else
         let v = last (piov_to cur); extend = (iov_base v + iov_len v = buf) in
         if \<not> extend \<and> length (piov_to cur) + 1 > IOV_MAX then enqueue_async_iov al pr buf len to storage w
         else
           let (ok, w) = (if extend then (True, w) else al w) in
           if \<not> ok then Some (- 1, to, w)
           else
             let vs = (if extend then butlast (piov_to cur) @ [v\<lparr>iov_len := iov_len v + len\<rparr>]
                       else piov_to cur @ [\<lparr>iov_base = buf, iov_len = len\<rparr>]);
                 cur = cur\<lparr>piov_to := vs, n_pages := n_pages cur + len div PAGE\<rparr>
             in if storage = VMA_IO_UNCOMPRESSED then Some (0, butlast to @ [cur\<lparr>piov_end := piov_end cur + uint len\<rparr>], w)
                else do {
                  (r, cur, w) \<leftarrow> piov_add_compressed_blocks al cur pr (len div PAGE) storage w;
                  if r \<noteq> 0 then
                    let vs = (if extend then butlast (piov_to cur) @ [(last (piov_to cur))\<lparr>iov_len := iov_len (last (piov_to cur)) - len\<rparr>]
                              else butlast (piov_to cur))
                    in Some (- 1, butlast to @ [cur\<lparr>n_pages := n_pages cur - len div PAGE, piov_to := vs\<rparr>], w)
                  else Some (0, butlast to @ [cur], w)
                }
     }"

section \<open>Runs of blocks with the same storage\<close>

fun sum_block_sizes :: "u32 list \<Rightarrow> int \<Rightarrow> int" where
  "sum_block_sizes [] off = off"
| "sum_block_sizes (cs # css) off = sum_block_sizes css (off + uint cs)"

definition advance_compressed_offsets :: "page_read \<Rightarrow> u64 \<Rightarrow> page_read c_result option" where
  "advance_compressed_offsets pr nr =
     do {
       e \<leftarrow> pe pr;
       case blocks e of
         None \<Rightarrow> Some (Inl ())
       | Some bl \<Rightarrow>
           if block_idx pr = 0 \<and> nr = nr_pages e then
             Some (Inr (pr\<lparr>pi_off := pi_off pr + uint (total_payload_size bl), block_idx := length (block_sizes bl)\<rparr>))
           else
             let n_blocks = unat (block_nr_blocks nr (pagemap_block_pages e)) in
             if block_idx pr + n_blocks > length (block_sizes bl) then Some (Inl ())
             else Some (Inr (pr\<lparr>pi_off := sum_block_sizes (take n_blocks (drop (block_idx pr) (block_sizes bl))) (pi_off pr),
                               block_idx := block_idx pr + n_blocks\<rparr>))
     }"

definition skip_compressed_offsets :: "page_read \<Rightarrow> u64 \<Rightarrow> page_read option" where
  "skip_compressed_offsets pr nr =
     do { r \<leftarrow> advance_compressed_offsets pr nr; case r of Inl _ \<Rightarrow> None | Inr pr \<Rightarrow> Some pr }"

text \<open>The flags \<^verbatim>\<open>has_lz4\<close> and \<^verbatim>\<open>mixed_direct\<close>; \<open>prev\<close> is \<^verbatim>\<open>previous_storage\<close> once there is one.\<close>

partial_function (option) has_lz4_loop ::
  "pagemap_entry \<Rightarrow> u64 \<Rightarrow> nat \<Rightarrow> u64 \<Rightarrow> restore_vma_io_storage option \<Rightarrow> bool \<Rightarrow> bool \<Rightarrow> (bool \<times> bool) c_result option" where
  "has_lz4_loop e nr index pages_done prev has_lz4 mixed =
     (if pages_done < nr then
        case compressed_block_storage e index of
          Inl _ \<Rightarrow> Some (Inl ())
        | Inr (storage, bp) \<Rightarrow>
            if ucast bp > nr - pages_done then Some (Inl ())
            else has_lz4_loop e nr (index + 1) (pages_done + ucast bp)
                   (if storage \<noteq> VMA_IO_ENCODED then Some storage else prev)
                   (has_lz4 \<or> storage = VMA_IO_ENCODED)
                   (mixed \<or> storage \<noteq> VMA_IO_ENCODED \<and> prev \<noteq> None \<and> prev \<noteq> Some storage)
      else Some (Inr (has_lz4, mixed)))"

definition compressed_request_has_lz4 :: "page_read \<Rightarrow> u64 \<Rightarrow> (bool \<times> bool) c_result option" where
  "compressed_request_has_lz4 pr nr = do { e \<leftarrow> pe pr; has_lz4_loop e nr (block_idx pr) 0 None False False }"

partial_function (option) storage_run_loop ::
  "pagemap_entry \<Rightarrow> u64 \<Rightarrow> restore_vma_io_storage \<Rightarrow> u32 \<Rightarrow> nat \<Rightarrow> u64 \<Rightarrow> nat \<Rightarrow> (u64 \<times> nat) c_result option" where
  "storage_run_loop e pages_left first_storage bp index run_pages run_blocks =
     (if run_pages < pages_left then
        case (if run_pages \<noteq> 0 then compressed_block_storage e index else Inr (first_storage, bp)) of
          Inl _ \<Rightarrow> Some (Inl ())
        | Inr (block_storage, bp) \<Rightarrow>
            if block_storage \<noteq> first_storage then Some (Inr (run_pages, run_blocks))
            else if ucast bp > pages_left - run_pages then Some (Inl ())
            else if run_pages \<noteq> 0 \<and> ucast bp > ASYNC_BATCH_MAX_PAGES - run_pages then Some (Inr (run_pages, run_blocks))
            else if run_pages + ucast bp \<ge> ASYNC_BATCH_MAX_PAGES then Some (Inr (run_pages + ucast bp, run_blocks + 1))
            else storage_run_loop e pages_left first_storage bp (index + 1) (run_pages + ucast bp) (run_blocks + 1)
      else Some (Inr (run_pages, run_blocks)))"

definition compressed_storage_run :: "page_read \<Rightarrow> u64 \<Rightarrow> (restore_vma_io_storage \<times> u64 \<times> nat) c_result option" where
  "compressed_storage_run pr pages_left =
     do {
       e \<leftarrow> pe pr;
       case compressed_block_storage e (block_idx pr) of
         Inl _ \<Rightarrow> Some (Inl ())
       | Inr (first_storage, bp) \<Rightarrow>
           do { r \<leftarrow> storage_run_loop e pages_left first_storage bp (block_idx pr) 0 0;
                case r of
                  Inl _ \<Rightarrow> Some (Inl ())
                | Inr (run_pages, run_blocks) \<Rightarrow> if run_pages = 0 then Some (Inl ()) else Some (Inr (first_storage, run_pages, run_blocks)) }
     }"

section \<open>A request\<close>

text \<open>Which storage a run of \<open>chunk\<close> pages gets.  \<open>par\<close> is \<^verbatim>\<open>parallel_zero\<close> and \<open>own\<close> says that the queue is the one of the reader.\<close>

definition run_storage :: "bool \<Rightarrow> bool \<Rightarrow> bool \<Rightarrow> bool \<Rightarrow> restore_vma_io_storage \<Rightarrow> u64 \<Rightarrow> nat \<Rightarrow> restore_vma_io_storage" where
  "run_storage par own has_lz4 mixed_direct storage chunk nblocks =
     (let storage = (if storage = VMA_IO_ZERO \<and> par \<and> nblocks > 1 \<and> chunk * PAGE \<ge> 2 ^ 20 then VMA_IO_ENCODED else storage)
      in if storage \<noteq> VMA_IO_ENCODED \<and> (has_lz4 \<or> mixed_direct \<and> own) \<and> chunk * PAGE < 64 * 1024 then VMA_IO_ENCODED
         else storage)"

partial_function (option) enqueue_runs ::
  "'w alloc \<Rightarrow> bool \<Rightarrow> bool \<Rightarrow> bool \<Rightarrow> bool \<Rightarrow> page_read \<Rightarrow> u64 \<Rightarrow> u64 \<Rightarrow> u64 \<Rightarrow> page_read_iov list \<Rightarrow> 'w \<Rightarrow>
     (int \<times> page_read_iov list \<times> 'w) option" where
  "enqueue_runs al par own has_lz4 mixed pr buf nr pages_done to w =
     (if pages_done < nr then
        do {
          r \<leftarrow> compressed_storage_run pr (nr - pages_done);
          case r of
            Inl _ \<Rightarrow> Some (- 1, to, w)
          | Inr (storage, chunk, nblocks) \<Rightarrow>
              do {
                (ret, to, w) \<leftarrow> pagemap_enqueue_iovec_one al pr (buf + pages_done * PAGE) (chunk * PAGE) to
                                 (run_storage par own has_lz4 mixed storage chunk nblocks) w;
                if ret \<noteq> 0 then Some (ret, to, w)
                else do {
                  a \<leftarrow> advance_compressed_offsets pr chunk;
                  case a of
                    Inl _ \<Rightarrow> Some (- 1, to, w)
                  | Inr pr \<Rightarrow> enqueue_runs al par own has_lz4 mixed pr buf nr (pages_done + chunk) to w
                }
              }
        }
      else Some (0, to, w))"

text \<open>The fields of a job that a failed request sets back.\<close>

definition restore_tail :: "page_read_iov \<Rightarrow> page_read_iov \<Rightarrow> page_read_iov" where
  "restore_tail orig cur =
     (let vs = take (length (piov_to orig)) (piov_to cur) in
      cur\<lparr>piov_end := piov_end orig, b_sizes := take (length (b_sizes orig)) (b_sizes cur),
          block_pages := take (length (b_sizes orig)) (block_pages cur), b_total := b_total orig, n_pages := n_pages orig,
          piov_to := butlast vs @ [(last vs)\<lparr>iov_len := iov_len (last (piov_to orig))\<rparr>]\<rparr>)"

definition pagemap_enqueue_iovec ::
  "'w alloc \<Rightarrow> bool \<Rightarrow> bool \<Rightarrow> page_read \<Rightarrow> u64 \<Rightarrow> u64 \<Rightarrow> page_read_iov list \<Rightarrow> 'w \<Rightarrow> (int \<times> page_read_iov list \<times> 'w) option" where
  "pagemap_enqueue_iovec al capacity own pr buf len to w =
     (let nr = len div PAGE in
      if len = 0 \<or> len mod PAGE \<noteq> 0 then Some (- 1, to, w)
      else if (case pe pr of None \<Rightarrow> True | Some e \<Rightarrow> blocks e = None) then pagemap_enqueue_iovec_one al pr buf len to VMA_IO_UNCOMPRESSED w
      else
        do {
          r \<leftarrow> compressed_request_has_lz4 pr nr;
          case r of
            Inl _ \<Rightarrow> Some (- 1, to, w)
          | Inr (has_lz4, mixed) \<Rightarrow>
              do {
                (ret, q, w) \<leftarrow> enqueue_runs al (own \<and> capacity) own has_lz4 mixed pr buf nr 0 to w;
                if ret \<noteq> 0 then
                  let q = take (length to) q
                  in Some (ret, if to = [] then q else butlast q @ [restore_tail (last to) (last q)], w)
                else Some (ret, q, w)
              }
        })"

section \<open>Direct reads\<close>

fun sum_iov_lens :: "iov list \<Rightarrow> u64 \<Rightarrow> u64 option" where
  "sum_iov_lens [] n = Some n"
| "sum_iov_lens (v # vs) n =
     (if iov_base v mod PAGE \<noteq> 0 \<or> iov_len v mod PAGE \<noteq> 0 then None
      else if n > - 1 - iov_len v then None
      else sum_iov_lens vs (n + iov_len v))"

fun direct_compatible_loop :: "page_read_iov list \<Rightarrow> bool \<Rightarrow> bool" where
  "direct_compatible_loop [] has_file_backed = has_file_backed"
| "direct_compatible_loop (p # ps) has_file_backed =
     (if piov_to p = [] \<or> piov_storage p = VMA_IO_ENCODED then False
      else if piov_storage p \<noteq> VMA_IO_UNCOMPRESSED \<and> piov_storage p \<noteq> VMA_IO_PACKED_RAW \<and> piov_storage p \<noteq> VMA_IO_ZERO then False
      else if piov_storage p \<noteq> VMA_IO_ZERO \<and>
        (piov_from p < 0 \<or> piov_end p < piov_from p \<or> piov_from p smod 4096 \<noteq> 0 \<or> (piov_end p - piov_from p) smod 4096 \<noteq> 0) then False
      else
        case sum_iov_lens (piov_to p) 0 of
          None \<Rightarrow> False
        | Some n \<Rightarrow>
            if piov_storage p \<noteq> VMA_IO_ZERO \<and> n \<noteq> word_of_int (piov_end p - piov_from p) then False
            else direct_compatible_loop ps (has_file_backed \<or> piov_storage p \<noteq> VMA_IO_ZERO))"

definition pagemap_iovec_is_direct_compatible :: "page_read_iov list \<Rightarrow> bool" where
  "pagemap_iovec_is_direct_compatible from' = direct_compatible_loop from' False"

end
