(* ===== verification/PageRead.thy ===== *)
theory PageRead
  imports PagemapIov
begin

text \<open>
  Reading of pages through a chain of incremental images, \<^verbatim>\<open>criu/pagemap.c\<close> and the decompression of queued
  reads of \<^verbatim>\<open>criu/compression.c\<close>, for local images and \<^verbatim>\<open>--decompress-threads 1\<close>: then no batch is given to worker
  threads, no read is prefetched and zero blocks are cleared in place.  The destination is the memory of the process,
  a function of addresses; the files are behind the system calls, which are parameters.
\<close>

section \<open>Files and memory\<close>

datatype read_res = RIntr | RError | RGot "u8 list"

record 'w page_io =
  op_alloc :: "'w alloc"
  op_pread :: "int \<Rightarrow> nat \<Rightarrow> int \<Rightarrow> 'w \<Rightarrow> read_res \<times> 'w"
  op_preadv :: "int \<Rightarrow> nat \<Rightarrow> int \<Rightarrow> 'w \<Rightarrow> read_res \<times> 'w"
  op_punch :: "int \<Rightarrow> u64 \<Rightarrow> u64 \<Rightarrow> 'w \<Rightarrow> int \<times> 'w"
  op_fadvise :: "int \<Rightarrow> int \<Rightarrow> int \<Rightarrow> 'w \<Rightarrow> 'w"
  op_io_complete :: "u64 \<Rightarrow> u64 \<Rightarrow> 'w \<Rightarrow> int \<times> 'w"
  op_lz4 :: lz4_decompress
  auto_dedup :: bool
  fi_partial_pages :: bool

text \<open>\<open>enc_ctx\<close>: the context of encoded reads, which the chain shares, is allocated.\<close>

record 'w env =
  ram :: "u64 \<Rightarrow> u8"
  wld :: 'w
  enc_ctx :: bool

text \<open>A reader: its cursor, the descriptor of its pages image, its queue and the block it has decompressed last.\<close>

record reader =
  rd :: page_read
  pi_fd :: int
  async :: "page_read_iov list"
  cache_buf :: "u8 list"
  cache_vaddr :: u64
  cache_size :: u64
  has_io_complete :: bool
  use_direct :: bool

fun store :: "(u64 \<Rightarrow> u8) \<Rightarrow> u64 \<Rightarrow> u8 list \<Rightarrow> (u64 \<Rightarrow> u8)" where
  "store m a [] = m"
| "store m a (b # bs) = store (m(a := b)) (a + 1) bs"

text \<open>What \<^verbatim>\<open>preadv\<close> does with the bytes.\<close>

fun scatter :: "(u64 \<Rightarrow> u8) \<Rightarrow> iov list \<Rightarrow> u8 list \<Rightarrow> (u64 \<Rightarrow> u8)" where
  "scatter m [] bs = m"
| "scatter m (v # vs) bs = scatter (store m (iov_base v) (take (unat (iov_len v)) bs)) vs (drop (unat (iov_len v)) bs)"

fun clear_iovs :: "(u64 \<Rightarrow> u8) \<Rightarrow> iov list \<Rightarrow> (u64 \<Rightarrow> u8)" where
  "clear_iovs m [] = m"
| "clear_iovs m (v # vs) = clear_iovs (store m (iov_base v) (replicate (unat (iov_len v)) 0)) vs"

definition put :: "u64 \<Rightarrow> u8 list \<Rightarrow> 'w env \<Rightarrow> 'w env" where
  "put a bs s = s\<lparr>ram := store (ram s) a bs\<rparr>"

section \<open>Holes\<close>

definition can_extend_bunch :: "u64 \<Rightarrow> u64 \<Rightarrow> u64 \<Rightarrow> u64 \<Rightarrow> bool" where
  "can_extend_bunch base blen off len \<longleftrightarrow> base + blen = off \<and> (blen = 0 \<or> blen + len < 256 * PAGE)"

definition punch_hole :: "'w page_io \<Rightarrow> reader \<Rightarrow> u64 \<Rightarrow> u64 \<Rightarrow> bool \<Rightarrow> 'w env \<Rightarrow> int \<times> reader \<times> 'w env" where
  "punch_hole k r off len cleanup s =
     (let p = rd r in
      if \<not> cleanup \<and> can_extend_bunch (bunch_base p) (bunch_len p) off len then (0, r\<lparr>rd := p\<lparr>bunch_len := bunch_len p + len\<rparr>\<rparr>, s)
      else
        let (ret, w) = (if bunch_len p > 0 then op_punch k (pi_fd r) (bunch_base p) (bunch_len p) (wld s) else (0, wld s));
            s = s\<lparr>wld := w\<rparr>
        in if ret \<noteq> 0 then (- 1, r, s)
           else (0, r\<lparr>rd := p\<lparr>bunch_base := off, bunch_len := len\<rparr>\<rparr>, s))"

section \<open>Serial decompression\<close>

record decompress_job =
  job_src :: "u8 list"
  job_dst :: u64
  job_cs :: u32
  job_pages :: nat
  job_block :: int

text \<open>The return value and what is stored at the destination.\<close>

definition decompress_job_run :: "lz4_decompress \<Rightarrow> decompress_job \<Rightarrow> int \<times> u8 list" where
  "decompress_job_run lz4 job =
     (if job_pages job = 0 \<or> job_pages job > MAX_BLOCK_PAGES then (- 1, [])
      else
        let block_bytes = job_pages job * 4096 in
        if job_cs job = 0 then (0, replicate block_bytes 0)
        else if unat (job_cs job) \<ge> block_bytes then (- 1, [])
        else decompress_data_nolog lz4 (job_src job) block_bytes)"

record decompress_queue =
  job_chunk :: nat
  next_job :: nat
  failed :: bool
  failed_block :: int

definition decompress_queue_init :: "nat \<Rightarrow> nat \<Rightarrow> decompress_queue" where
  "decompress_queue_init nr_jobs nr_threads =
     (let chunk = nr_jobs div nr_threads div 4;
          chunk = (if chunk = 0 then 1 else chunk)
      in \<lparr>job_chunk = (if chunk > 8 then 8 else chunk), next_job = 0, failed = False, failed_block = 2 ^ 31 - 1\<rparr>)"

text \<open>The claimed range, if any.\<close>

definition decompress_queue_claim_chunk :: "nat \<Rightarrow> decompress_queue \<Rightarrow> (nat \<times> nat) option \<times> decompress_queue" where
  "decompress_queue_claim_chunk nr_jobs q =
     (if failed q then (None, q)
      else
        let first = next_job q; q = q\<lparr>next_job := next_job q + job_chunk q\<rparr>
        in if first \<ge> nr_jobs then (None, q)
           else (Some (first, if first + job_chunk q > nr_jobs then nr_jobs else first + job_chunk q), q))"

definition decompress_queue_record_failure :: "decompress_queue \<Rightarrow> int \<Rightarrow> decompress_queue" where
  "decompress_queue_record_failure q block_index =
     q\<lparr>failed_block := (if block_index < failed_block q then block_index else failed_block q), failed := True\<rparr>"

fun run_chunk :: "lz4_decompress \<Rightarrow> decompress_job list \<Rightarrow> decompress_queue \<Rightarrow> 'w env \<Rightarrow> decompress_queue \<times> 'w env" where
  "run_chunk lz4 [] q s = (q, s)"
| "run_chunk lz4 (job # jobs) q s =
     (let (r, out) = decompress_job_run lz4 job; s = put (job_dst job) out s
      in if r = 0 then run_chunk lz4 jobs q s else (decompress_queue_record_failure q (job_block job), s))"

partial_function (option) decompress_queue_run ::
  "lz4_decompress \<Rightarrow> decompress_job list \<Rightarrow> decompress_queue \<Rightarrow> 'w env \<Rightarrow> (decompress_queue \<times> 'w env) option" where
  "decompress_queue_run lz4 jobs q s =
     (case decompress_queue_claim_chunk (length jobs) q of
        (None, q) \<Rightarrow> Some (q, s)
      | (Some (first, fin), q) \<Rightarrow>
          case run_chunk lz4 (take (fin - first) (drop first jobs)) q s of (q, s) \<Rightarrow> decompress_queue_run lz4 jobs q s)"

definition decompress_jobs_serial :: "lz4_decompress \<Rightarrow> decompress_job list \<Rightarrow> 'w env \<Rightarrow> (int \<times> 'w env) option" where
  "decompress_jobs_serial lz4 jobs s =
     do { (q, s) \<leftarrow> decompress_queue_run lz4 jobs (decompress_queue_init (length jobs) 1) s;
          Some (if failed q then - 1 else 0, s) }"

section \<open>Queued reads\<close>

text \<open>The sums of the sizes and of the pages of the blocks, or \<open>None\<close> for the error return.\<close>

fun validate_direct_blocks ::
  "restore_vma_io_storage \<Rightarrow> u32 \<Rightarrow> u32 list \<Rightarrow> 16 word list \<Rightarrow> u64 \<Rightarrow> u64 \<Rightarrow> (u64 \<times> u64) option" where
  "validate_direct_blocks st ppb [] bps pay out = Some (pay, out)"
| "validate_direct_blocks st ppb (cs # css) bps pay out =
     (let bp = (if ppb \<noteq> 0 then ucast (hd bps) else 1 :: u32); block_bytes = ucast bp * PAGE :: u64 in
      if bp = 0 \<or> (ppb \<noteq> 0 \<and> bp > ppb) then None
      else if st = VMA_IO_PACKED_RAW \<and> ucast cs \<noteq> block_bytes then None
      else if st = VMA_IO_ZERO \<and> cs \<noteq> 0 then None
      else if pay > - 1 - ucast cs \<or> out > - 1 - block_bytes then None
      else validate_direct_blocks st ppb css (tl bps) (pay + ucast cs) (out + block_bytes))"

fun add_iov_lens :: "iov list \<Rightarrow> u64 \<Rightarrow> u64 option" where
  "add_iov_lens [] n = Some n"
| "add_iov_lens (v # vs) n = (if n > - 1 - iov_len v then None else add_iov_lens vs (n + iov_len v))"

definition validate_direct_compressed_iov :: "page_read_iov \<Rightarrow> int" where
  "validate_direct_compressed_iov piov =
     (if piov_storage piov \<noteq> VMA_IO_PACKED_RAW \<and> piov_storage piov \<noteq> VMA_IO_ZERO then - 1
      else if b_sizes piov = [] then - 1
      else
        case validate_direct_blocks (piov_storage piov) (b_ppb piov) (b_sizes piov) (block_pages piov) 0 0 of
          None \<Rightarrow> - 1
        | Some (payload_bytes, output_bytes) \<Rightarrow>
            case add_iov_lens (piov_to piov) 0 of
              None \<Rightarrow> - 1
            | Some iov_bytes \<Rightarrow>
                if payload_bytes \<noteq> b_total piov \<or> output_bytes \<noteq> iov_bytes \<or> piov_end piov < piov_from piov \<or>
                   payload_bytes \<noteq> word_of_int (piov_end piov - piov_from piov) \<or>
                   n_pages piov > - 1 div PAGE \<or> output_bytes \<noteq> n_pages piov * PAGE then - 1 else 0)"

text \<open>The position in the vectors: those still to be filled and the offset in the first.\<close>

partial_function (option) skip_iovs :: "iov list \<Rightarrow> u64 \<Rightarrow> (iov list \<times> u64) option" where
  "skip_iovs vs off =
     (case vs of
        v # vs' \<Rightarrow> if off \<ge> iov_len v then skip_iovs vs' (off - iov_len v) else Some (vs, off)
      | [] \<Rightarrow> Some (vs, off))"

text \<open>The bytes are those of the block, zeroes if there is no source.\<close>

partial_function (option) transfer_async_block :: "iov list \<Rightarrow> u64 \<Rightarrow> u8 list \<Rightarrow> 'w env \<Rightarrow> (int \<times> iov list \<times> u64 \<times> 'w env) option" where
  "transfer_async_block vs off src s =
     (if src = [] then Some (0, vs, off, s)
      else do {
        (vs, off) \<leftarrow> skip_iovs vs off;
        case vs of
          [] \<Rightarrow> Some (- 1, vs, off, s)
        | v # _ \<Rightarrow>
            let chunk = (if unat (iov_len v - off) > length src then length src else unat (iov_len v - off));
                s = put (iov_base v + off) (take chunk src) s
            in transfer_async_block vs (off + of_nat chunk) (drop chunk src) s
      })"

text \<open>The context of encoded reads: a slot for a batch is held, and the sizes of its buffers.\<close>

record encoded_read_ctx =
  batch_acquired :: bool
  jobs_cap :: nat
  compressed_cap :: u64
  scratch_cap :: u64

definition encoded_read_ctx_end_work :: "encoded_read_ctx option \<Rightarrow> encoded_read_ctx option" where
  "encoded_read_ctx_end_work ctx =
     (case ctx of
        None \<Rightarrow> None
      | Some c \<Rightarrow> if \<not> batch_acquired c then Some c
                  else Some \<lparr>batch_acquired = False, jobs_cap = 0, compressed_cap = 0, scratch_cap = 0\<rparr>)"

partial_function (option) pread_full :: "'w page_io \<Rightarrow> int \<Rightarrow> nat \<Rightarrow> int \<Rightarrow> 'w \<Rightarrow> (int \<times> u8 list \<times> 'w) option" where
  "pread_full k fd count off w =
     (if count > 0 then
        case op_pread k fd count off w of
          (RIntr, w) \<Rightarrow> pread_full k fd count off w
        | (RError, w) \<Rightarrow> Some (- 1, [], w)
        | (RGot bs, w) \<Rightarrow>
            if bs = [] then Some (- 1, [], w)
            else do { (r, bs', w) \<leftarrow> pread_full k fd (count - length bs) (off + int (length bs)) w; Some (r, bs @ bs', w) }
      else Some (0, [], w))"

definition BLOCK_COMPRESSED_SIZE_BOUND :: "u64 \<Rightarrow> u64" where
  "BLOCK_COMPRESSED_SIZE_BOUND n = n * PAGE + n * PAGE div 255 + 16"

text \<open>
  The state of the loop over the blocks of an encoded job: what is left of the payload, the vectors that are left and the
  offset in the first, the bytes put out, the jobs so far, and the size of the scratch buffer.
\<close>

record enc_state =
  e_pay :: "u8 list"
  e_vs :: "iov list"
  e_off :: u64
  e_out :: u64
  e_jobs :: "decompress_job list"
  e_scratch :: u64

text \<open>What is done for a block of \<open>bp\<close> pages and \<open>cs\<close> bytes in front of the vector \<open>v\<close>.\<close>

definition encoded_block ::
  "'w page_io \<Rightarrow> int \<Rightarrow> u32 \<Rightarrow> u32 \<Rightarrow> iov \<Rightarrow> enc_state \<Rightarrow> 'w env \<Rightarrow> (int \<times> enc_state \<times> 'w env) option" where
  "encoded_block k i cs bp v st s =
     (let block_bytes = ucast bp * PAGE :: u64;
          direct = (block_bytes \<le> iov_len v - e_off st);
          src = take (unat cs) (e_pay st)
      in if cs = 0 then
           do { (r, vs, off, s) \<leftarrow> transfer_async_block (e_vs st) (e_off st) (replicate (unat block_bytes) 0) s;
                Some (r, st\<lparr>e_vs := vs, e_off := off\<rparr>, s) }
         else if ucast cs = block_bytes then
           do { (r, vs, off, s) \<leftarrow> transfer_async_block (e_vs st) (e_off st) src s;
                Some (r, st\<lparr>e_vs := vs, e_off := off\<rparr>, s) }
         else if ucast cs \<ge> block_bytes then Some (- 1, st, s)
         else if direct then
           Some (0, st\<lparr>e_off := e_off st + block_bytes,
                       e_jobs := e_jobs st @ [\<lparr>job_src = src, job_dst = iov_base v + e_off st, job_cs = cs, job_pages = unat bp, job_block = i\<rparr>]\<rparr>, s)
         else
           let grow = e_scratch st < block_bytes;
               (ok, w) = (if grow then op_alloc k (wld s) else (True, wld s)); s = s\<lparr>wld := w\<rparr>
           in if \<not> ok then Some (- 1, st, s)
              else
                let st = (if grow then st\<lparr>e_scratch := block_bytes\<rparr> else st) in
                do { (r, scratch) \<leftarrow> decompress_block (op_lz4 k) (Some src) (int (unat cs)) (unat bp) True;
                     if r \<noteq> 0 then Some (- 1, st, s)
                     else do { (r, vs, off, s) \<leftarrow> transfer_async_block (e_vs st) (e_off st) scratch s;
                               Some (r, st\<lparr>e_vs := vs, e_off := off\<rparr>, s) } })"

fun encoded_blocks ::
  "'w page_io \<Rightarrow> u32 \<Rightarrow> int \<Rightarrow> u32 list \<Rightarrow> 16 word list \<Rightarrow> enc_state \<Rightarrow> 'w env \<Rightarrow> (int \<times> enc_state \<times> 'w env) option" where
  "encoded_blocks k ppb i [] bps st s = Some (0, st, s)"
| "encoded_blocks k ppb i (cs # css) bps st s =
     (let bp = (if ppb \<noteq> 0 then ucast (hd bps) else 1 :: u32); block_bytes = ucast bp * PAGE :: u64;
          bound = BLOCK_COMPRESSED_SIZE_BOUND (if ppb \<noteq> 0 then ucast bp else 1)
      in if bp = 0 \<or> (ppb \<noteq> 0 \<and> bp > ppb) then Some (- 1, st, s)
         else if ucast cs > bound \<or> unat cs > length (e_pay st) then Some (- 1, st, s)
         else if e_out st > - 1 - block_bytes then Some (- 1, st, s)
         else do {
           (vs, off) \<leftarrow> skip_iovs (e_vs st) (e_off st);
           let st = st\<lparr>e_out := e_out st + block_bytes, e_vs := vs, e_off := off\<rparr>;
           if vs = [] then Some (- 1, st, s)
           else do {
             (r, st, s) \<leftarrow> encoded_block k i cs bp (hd vs) st s;
             if r \<noteq> 0 then Some (- 1, st, s)
             else encoded_blocks k ppb (i + 1) css (tl bps) (st\<lparr>e_pay := drop (unat cs) (e_pay st)\<rparr>) s
           }
         })"

definition process_encoded_async_read ::
  "'w page_io \<Rightarrow> int \<Rightarrow> page_read_iov \<Rightarrow> encoded_read_ctx option \<Rightarrow> 'w env \<Rightarrow> (int \<times> encoded_read_ctx option \<times> 'w env) option" where
  "process_encoded_async_read k fd piov ctx s =
     (case ctx of
        None \<Rightarrow> Some (- 1, ctx, s)
      | Some c \<Rightarrow>
          if \<not> batch_acquired c then Some (- 1, ctx, s)
          else if b_sizes piov = [] then Some (- 1, ctx, s)
          else if length (b_sizes piov) > 2 ^ 31 - 1 then Some (- 1, ctx, s)
          else if n_pages piov > - 1 div PAGE then Some (- 1, ctx, s)
          else
            let expected_output = n_pages piov * PAGE;
                grow = jobs_cap c < length (b_sizes piov);
                (ok, w) = (if grow then op_alloc k (wld s) else (True, wld s)); s = s\<lparr>wld := w\<rparr>
            in if \<not> ok then Some (- 1, ctx, s)
               else
                 let c = (if grow then c\<lparr>jobs_cap := length (b_sizes piov)\<rparr> else c);
                     grow = compressed_cap c < b_total piov;
                     (ok, w) = (if grow then op_alloc k (wld s) else (True, wld s)); s = s\<lparr>wld := w\<rparr>
                 in if \<not> ok then Some (- 1, Some c, s)
                    else
                      let c = (if grow then c\<lparr>compressed_cap := b_total piov\<rparr> else c) in
                      do {
                        (r, pay, w) \<leftarrow> pread_full k fd (unat (b_total piov)) (piov_from piov) (wld s);
                        let s = s\<lparr>wld := w\<rparr>;
                        if r \<noteq> 0 then Some (- 1, Some c, s)
                        else do {
                          (r, st, s) \<leftarrow> encoded_blocks k (b_ppb piov) 0 (b_sizes piov) (block_pages piov)
                             \<lparr>e_pay = pay, e_vs = piov_to piov, e_off = 0, e_out = 0, e_jobs = [], e_scratch = scratch_cap c\<rparr> s;
                          let c = c\<lparr>scratch_cap := e_scratch st\<rparr>;
                          if r \<noteq> 0 then Some (- 1, Some c, s)
                          else do {
                            (vs, off) \<leftarrow> skip_iovs (e_vs st) (e_off st);
                            if e_pay st \<noteq> [] \<or> vs \<noteq> [] \<or> off \<noteq> 0 \<or> e_out st \<noteq> expected_output then Some (- 1, Some c, s)
                            else if e_jobs st = [] then Some (0, Some c, s)
                            else do { (r, s) \<leftarrow> decompress_jobs_serial (op_lz4 k) (e_jobs st) s;
                                      Some (if r \<noteq> 0 then - 1 else 0, Some c, s) }
                          }
                        }
                      })"

definition encoded_async_read_batch ::
  "'w page_io \<Rightarrow> int \<Rightarrow> page_read_iov \<Rightarrow> encoded_read_ctx option \<Rightarrow> 'w env \<Rightarrow> (int \<times> encoded_read_ctx option \<times> 'w env) option" where
  "encoded_async_read_batch k fd piov ctx s =
     (case ctx of
        None \<Rightarrow> Some (- 1, ctx, s)
      | Some c \<Rightarrow> process_encoded_async_read k fd piov (Some (c\<lparr>batch_acquired := True\<rparr>)) s)"

partial_function (option) consume_iovs :: "iov list \<Rightarrow> u64 \<Rightarrow> (iov list \<times> u64) option" where
  "consume_iovs vs len =
     (case vs of
        v # vs' \<Rightarrow> if iov_len v \<le> len then consume_iovs vs' (len - iov_len v) else Some (vs, len)
      | [] \<Rightarrow> Some (vs, len))"

definition advance_piov :: "page_read_iov \<Rightarrow> u64 \<Rightarrow> page_read_iov option" where
  "advance_piov piov len =
     do {
       (vs, left) \<leftarrow> consume_iovs (piov_to piov) len;
       let piov = piov\<lparr>piov_from := piov_from piov + uint len\<rparr>;
       if left = 0 then Some (piov\<lparr>piov_to := vs\<rparr>)
       else case vs of
              [] \<Rightarrow> None
            | v # vs \<Rightarrow> Some (piov\<lparr>piov_to := v\<lparr>iov_base := iov_base v + left, iov_len := iov_len v - left\<rparr> # vs\<rparr>)
     }"

definition iov_total :: "iov list \<Rightarrow> nat" where "iov_total vs = sum_list (map (\<lambda>v. unat (iov_len v)) vs)"

text \<open>The label \<^verbatim>\<open>more\<close>; the mask \<^verbatim>\<open>PAGE_MASK\<close> rounds down.\<close>

partial_function (option) read_more :: "'w page_io \<Rightarrow> reader \<Rightarrow> page_read_iov \<Rightarrow> 'w env \<Rightarrow> (int \<times> reader \<times> 'w env) option" where
  "read_more k r piov s =
     (case op_preadv k (pi_fd r) (iov_total (piov_to piov)) (piov_from piov) (wld s) of
        (RIntr, w) \<Rightarrow> Some (- 1, r, s\<lparr>wld := w\<rparr>)
      | (RError, w) \<Rightarrow> Some (- 1, r, s\<lparr>wld := w\<rparr>)
      | (RGot bs, w) \<Rightarrow>
          let s = s\<lparr>ram := scatter (ram s) (piov_to piov) bs, wld := w\<rparr>;
              ret = (if fi_partial_pages k \<and> length bs \<ge> 2 * 4096 then length bs div 2 div 4096 * 4096 else length bs)
          in if ret = 0 \<and> piov_end piov \<noteq> piov_from piov then Some (- 1, r, s)
             else
               case (if auto_dedup k \<and> piov_storage piov \<noteq> VMA_IO_PACKED_RAW
                     then punch_hole k r (word_of_int (piov_from piov)) (of_nat ret) False s else (0, r, s)) of
                 (p, r, s) \<Rightarrow>
                   if p \<noteq> 0 then Some (- 1, r, s)
                   else if int ret \<noteq> piov_end piov - piov_from piov then
                     do { piov \<leftarrow> advance_piov piov (of_nat ret); read_more k r piov s }
                   else Some (0, r, s))"

definition process_piov ::
  "'w page_io \<Rightarrow> reader \<Rightarrow> page_read_iov \<Rightarrow> encoded_read_ctx option \<Rightarrow> 'w env \<Rightarrow> (int \<times> encoded_read_ctx option \<times> reader \<times> 'w env) option" where
  "process_piov k r piov ctx s =
     (let ctx = (if piov_storage piov \<noteq> VMA_IO_ENCODED then encoded_read_ctx_end_work ctx else ctx) in
      case piov_storage piov of
        VMA_IO_ZERO \<Rightarrow>
          if validate_direct_compressed_iov piov \<noteq> 0 then Some (- 1, ctx, r, s)
          else Some (0, ctx, r, s\<lparr>ram := clear_iovs (ram s) (piov_to piov)\<rparr>)
      | VMA_IO_PACKED_RAW \<Rightarrow>
          if validate_direct_compressed_iov piov \<noteq> 0 then Some (- 1, ctx, r, s)
          else do { (ret, r, s) \<leftarrow> read_more k r piov s; Some (ret, ctx, r, s) }
      | VMA_IO_ENCODED \<Rightarrow> do { (ret, ctx, s) \<leftarrow> encoded_async_read_batch k (pi_fd r) piov ctx s; Some (ret, ctx, r, s) }
      | VMA_IO_UNCOMPRESSED \<Rightarrow> do { (ret, r, s) \<leftarrow> read_more k r piov s; Some (ret, ctx, r, s) })"

text \<open>The loop over the queue; it leaves what has not been read.\<close>

fun process_queue ::
  "'w page_io \<Rightarrow> reader \<Rightarrow> page_read_iov list \<Rightarrow> encoded_read_ctx option \<Rightarrow> 'w env \<Rightarrow> (int \<times> encoded_read_ctx option \<times> reader \<times> 'w env) option" where
  "process_queue k r [] ctx s = Some (0, ctx, r\<lparr>async := []\<rparr>, s)"
| "process_queue k r (piov # ps) ctx s =
     do {
       (ret, ctx, r, s) \<leftarrow> process_piov k r piov ctx s;
       if ret < 0 then Some (- 1, ctx, r\<lparr>async := piov # ps\<rparr>, s)
       else if has_io_complete r then None
       else process_queue k r ps ctx s
     }"

fun drain_async_queue :: "reader list \<Rightarrow> reader list" where
  "drain_async_queue [] = []"
| "drain_async_queue (r # parents) = r\<lparr>async := []\<rparr> # drain_async_queue parents"

fun page_read_chain_has_encoded_async :: "reader list \<Rightarrow> bool" where
  "page_read_chain_has_encoded_async [] = False"
| "page_read_chain_has_encoded_async (r # parents) =
     (list_ex (\<lambda>p. piov_storage p = VMA_IO_ENCODED) (async r) \<or> page_read_chain_has_encoded_async parents)"

text \<open>The ranges that the kernel is told of before they are read; \<open>cur\<close> is the one that is being joined.\<close>

fun readahead :: "page_read_iov list \<Rightarrow> (int \<times> int) option \<Rightarrow> (int \<times> int) list" where
  "readahead [] cur = (case cur of Some (a, b) \<Rightarrow> if b > a then [(a, b - a)] else [] | None \<Rightarrow> [])"
| "readahead (p # ps) cur =
     (case cur of
        None \<Rightarrow> readahead ps (Some (piov_from p, piov_end p))
      | Some (a, b) \<Rightarrow>
          if \<not> (piov_from p \<ge> b \<and> piov_from p - b \<le> 2 ^ 20 \<and> 0 \<le> piov_end p - a \<and> piov_end p - a \<le> 2 ^ 28) \<and> b > a
          then (a, b - a) # readahead ps (Some (piov_from p, piov_end p))
          else readahead ps (Some (a, max (piov_end p) b)))"

fun process_async_reads_ctx ::
  "'w page_io \<Rightarrow> reader list \<Rightarrow> encoded_read_ctx option \<Rightarrow> 'w env \<Rightarrow> (int \<times> encoded_read_ctx option \<times> reader list \<times> 'w env) option" where
  "process_async_reads_ctx k [] ctx s = Some (0, ctx, [], s)"
| "process_async_reads_ctx k (r # parents) ctx s =
     do {
       let s = (if use_direct r then s
                else s\<lparr>wld := fold (\<lambda>(off, len). op_fadvise k (pi_fd r) off len) (readahead (async r) None) (wld s)\<rparr>);
       (ret, ctx, r, s) \<leftarrow> process_queue k r (async r) ctx s;
       if ret \<noteq> 0 then Some (- 1, ctx, drain_async_queue (r # parents), s)
       else do {
         (ret, ctx, parents, s) \<leftarrow> process_async_reads_ctx k parents (encoded_read_ctx_end_work ctx) s;
         if ret \<noteq> 0 then Some (ret, ctx, r # parents, s)
         else if bunch_len (rd r) > 0 then
           case punch_hole k r 0 0 True s of (ret, r, s) \<Rightarrow>
             if ret \<noteq> 0 then Some (ret, ctx, r # parents, s)
             else Some (ret, ctx, r\<lparr>rd := (rd r)\<lparr>bunch_len := 0\<rparr>\<rparr> # parents, s)
         else Some (ret, ctx, r # parents, s)
       }
     }"

definition process_async_reads :: "'w page_io \<Rightarrow> reader list \<Rightarrow> 'w env \<Rightarrow> (int \<times> reader list \<times> 'w env) option" where
  "process_async_reads k chain s =
     (let encoded = page_read_chain_has_encoded_async chain;
          (ok, w) = (if encoded \<and> \<not> enc_ctx s then op_alloc k (wld s) else (True, wld s)); s = s\<lparr>wld := w\<rparr>
      in if \<not> ok then Some (- 1, drain_async_queue chain, s)
         else do {
           let s = (if encoded then s\<lparr>enc_ctx := True\<rparr> else s);
           (ret, ctx, chain, s) \<leftarrow> process_async_reads_ctx k chain
              (if encoded then Some \<lparr>batch_acquired = False, jobs_cap = 0, compressed_cap = 0, scratch_cap = 0\<rparr> else None) s;
           Some (ret, chain, s)
         })"

section \<open>Reading now\<close>

partial_function (option) read_local_loop :: "'w page_io \<Rightarrow> int \<Rightarrow> nat \<Rightarrow> u64 \<Rightarrow> int \<Rightarrow> 'w env \<Rightarrow> (int \<times> 'w env) option" where
  "read_local_loop k fd len buf off s =
     (case op_pread k fd len off (wld s) of
        (RIntr, w) \<Rightarrow> Some (- 1, s\<lparr>wld := w\<rparr>)
      | (RError, w) \<Rightarrow> Some (- 1, s\<lparr>wld := w\<rparr>)
      | (RGot bs, w) \<Rightarrow>
          let s = put buf bs (s\<lparr>wld := w\<rparr>) in
          if bs = [] then Some (- 1, s)
          else if length bs = len then Some (0, s)
          else read_local_loop k fd (len - length bs) (buf + of_nat (length bs)) (off + int (length bs)) s)"

definition read_local_page :: "'w page_io \<Rightarrow> reader list \<Rightarrow> u64 \<Rightarrow> u64 \<Rightarrow> 'w env \<Rightarrow> (int \<times> reader list \<times> 'w env) option" where
  "read_local_page k chain len buf s =
     (if pi_fd (hd chain) < 0 then Some (- 1, chain, s)
      else do {
        (ret, chain, s) \<leftarrow> process_async_reads k chain s;
        if ret \<noteq> 0 then Some (- 1, chain, s)
        else do {
          (ret, s) \<leftarrow> read_local_loop k (pi_fd (hd chain)) (unat len) buf (pi_off (rd (hd chain))) s;
          if ret \<noteq> 0 then Some (- 1, chain, s)
          else if auto_dedup k \<and> \<not> disable_dedup (rd (hd chain)) then
            case punch_hole k (hd chain) (word_of_int (pi_off (rd (hd chain)))) len False s of
              (ret, r, s) \<Rightarrow> Some (if ret = - 1 then - 1 else 0, r # tl chain, s)
          else Some (0, chain, s)
        }
      })"

definition io_complete :: "'w page_io \<Rightarrow> reader \<Rightarrow> u64 \<Rightarrow> u64 \<Rightarrow> 'w env \<Rightarrow> int \<times> 'w env" where
  "io_complete k r v nr s = (if has_io_complete r then let (ret, w) = op_io_complete k v nr (wld s) in (ret, s\<lparr>wld := w\<rparr>) else (0, s))"

definition maybe_read_page_local :: "'w page_io \<Rightarrow> reader list \<Rightarrow> u64 \<Rightarrow> u64 \<Rightarrow> u64 \<Rightarrow> u32 \<Rightarrow> 'w env \<Rightarrow> (int \<times> reader list \<times> 'w env) option" where
  "maybe_read_page_local k chain v nr buf fl s =
     do {
       let len = nr * PAGE;
       (ret, chain, s) \<leftarrow>
         (if fl AND 3 = 1 then
            do { (ret, q, w) \<leftarrow> pagemap_enqueue_iovec (op_alloc k) False True (rd (hd chain)) buf len (async (hd chain)) (wld s);
                 Some (ret, (hd chain)\<lparr>async := q\<rparr> # tl chain, s\<lparr>wld := w\<rparr>) }
          else
            do { (ret, chain, s) \<leftarrow> read_local_page k chain len buf s;
                 if ret = 0 then case io_complete k (hd chain) v nr s of (ret, s) \<Rightarrow> Some (ret, chain, s)
                 else Some (ret, chain, s) });
       let r = hd chain;
       Some (ret, r\<lparr>rd := (rd r)\<lparr>pi_off := pi_off (rd r) + uint len\<rparr>\<rparr> # tl chain, s)
     }"

definition block_cache_hit :: "reader \<Rightarrow> u64 \<Rightarrow> u64 \<Rightarrow> bool" where
  "block_cache_hit r v size' \<longleftrightarrow> cache_size r = size' \<and> cache_vaddr r = v"

definition block_cache_load ::
  "'w page_io \<Rightarrow> reader \<Rightarrow> u64 \<Rightarrow> u32 \<Rightarrow> u32 \<Rightarrow> u64 \<Rightarrow> 'w \<Rightarrow> (int \<times> reader \<times> 'w) option" where
  "block_cache_load k r v cs pages nbytes w =
     (let old_size = cache_size r; r = r\<lparr>cache_size := 0\<rparr>;
          (ok, w) = (if nbytes \<noteq> old_size then op_alloc k w else (True, w))
      in if \<not> ok then Some (- 1, r, w)
         else do {
           (ret, cbuf, w) \<leftarrow> pread_full k (pi_fd r) (unat cs) (pi_off (rd r)) w;
           if ret \<noteq> 0 then Some (- 1, r, w)
           else do {
             (ret, out) \<leftarrow> decompress_block (op_lz4 k) (Some cbuf) (uint cs) (unat pages) True;
             if ret \<noteq> 0 then Some (- 1, r\<lparr>cache_buf := out\<rparr>, w)
             else Some (0, r\<lparr>cache_buf := out, cache_vaddr := v, cache_size := nbytes\<rparr>, w)
           }
         })"

text \<open>What is done with one block of \<open>this_block\<close> pages: \<open>tk\<close> pages from \<open>off\<close> on are put at \<open>dst\<close>.  \<open>cap\<close> is \<^verbatim>\<open>scratch_cap\<close>.\<close>

definition read_block ::
  "'w page_io \<Rightarrow> reader \<Rightarrow> u32 \<Rightarrow> u32 \<Rightarrow> u32 \<Rightarrow> u32 \<Rightarrow> u64 \<Rightarrow> u64 \<Rightarrow> u64 \<Rightarrow> 'w env \<Rightarrow> (int \<times> reader \<times> u64 \<times> 'w env) option" where
  "read_block k r cs this_block off tk block_vaddr dst cap s =
     (let this_bytes = ucast this_block * PAGE :: u64;
          out_bytes = ucast tk * PAGE :: u64;
          need = cap < ucast cs;
          p = rd r
      in if cs = 0 then Some (0, r, cap, put dst (replicate (unat out_bytes) 0) s)
         else if ucast cs = this_bytes then
           do { (ret, bs, w) \<leftarrow> pread_full k (pi_fd r) (unat out_bytes) (pi_off p + uint off * 4096) (wld s);
                Some (ret, r, cap, put dst bs (s\<lparr>wld := w\<rparr>)) }
         else if off = 0 \<and> tk = this_block then
           let (ok, w) = (if need then op_alloc k (wld s) else (True, wld s))
           in if \<not> ok then Some (- 1, r, cap, s\<lparr>wld := w\<rparr>)
              else do {
                let cap = (if need then ucast cs else cap);
                (ret, scratch, w) \<leftarrow> pread_full k (pi_fd r) (unat cs) (pi_off p) w;
                if ret \<noteq> 0 then Some (- 1, r, cap, s\<lparr>wld := w\<rparr>)
                else do { (ret, out) \<leftarrow> decompress_block (op_lz4 k) (Some scratch) (uint cs) (unat this_block) True;
                          Some (ret, r, cap, put dst out (s\<lparr>wld := w\<rparr>)) }
              }
         else
           do {
             (ret, r, cap, w) \<leftarrow>
               (if \<not> block_cache_hit r block_vaddr this_bytes then
                  let (ok, w) = (if need then op_alloc k (wld s) else (True, wld s))
                  in if \<not> ok then Some (- 1, r, cap, w)
                     else do { (ret, r, w) \<leftarrow> block_cache_load k r block_vaddr cs this_block this_bytes w;
                               Some (ret, r, if need then ucast cs else cap, w) }
                else Some (0, r, cap, wld s));
             if ret \<noteq> 0 then Some (ret, r, cap, s\<lparr>wld := w\<rparr>)
             else if length (cache_buf r) < unat off * 4096 + unat out_bytes then None
             else Some (0, r, cap, put dst (take (unat out_bytes) (drop (unat off * 4096) (cache_buf r))) (s\<lparr>wld := w\<rparr>))
           })"

partial_function (option) read_compressed_loop ::
  "'w page_io \<Rightarrow> reader \<Rightarrow> u64 \<Rightarrow> u64 \<Rightarrow> u64 \<Rightarrow> u64 \<Rightarrow> u64 \<Rightarrow> 'w env \<Rightarrow> (int \<times> reader \<times> 'w env) option" where
  "read_compressed_loop k r v nr buf pages_done cap s =
     (if pages_done < nr then
        do {
          e \<leftarrow> pe (rd r);
          case blocks e of
            None \<Rightarrow> Some (- 1, r, s)
          | Some bl \<Rightarrow>
              let idx = block_idx (rd r); off = block_offset (rd r) in
              if idx \<ge> length (block_sizes bl) then Some (- 1, r, s)
              else
                let cs = block_sizes bl ! idx;
                    this_block = current_block_pages e idx
                in if ucast cs > (ucast this_block * PAGE :: u64) then Some (- 1, r, s)
                   else
                     let avail = this_block - off;
                         tk = (if nr - pages_done < ucast avail then ucast (nr - pages_done) else avail)
                     in do {
                          (ret, r, cap, s) \<leftarrow> read_block k r cs this_block off tk (v + pages_done * PAGE - ucast off * PAGE) (buf + pages_done * PAGE) cap s;
                          if ret \<noteq> 0 then Some (- 1, r, s)
                          else
                            let p = (rd r)\<lparr>block_offset := off + tk\<rparr>;
                                p = (if off + tk = this_block then p\<lparr>pi_off := pi_off p + uint cs, block_idx := idx + 1, block_offset := 0\<rparr> else p)
                            in read_compressed_loop k (r\<lparr>rd := p\<rparr>) v nr buf (pages_done + ucast tk) cap s
                        }
        }
      else Some (0, r, s))"

definition read_compressed_pages :: "'w page_io \<Rightarrow> reader \<Rightarrow> u64 \<Rightarrow> u64 \<Rightarrow> u64 \<Rightarrow> 'w env \<Rightarrow> (int \<times> reader \<times> 'w env) option" where
  "read_compressed_pages k r v nr buf s = read_compressed_loop k r v nr buf 0 0 s"

definition maybe_read_page_local_compressed ::
  "'w page_io \<Rightarrow> reader list \<Rightarrow> u64 \<Rightarrow> u64 \<Rightarrow> u64 \<Rightarrow> u32 \<Rightarrow> 'w env \<Rightarrow> (int \<times> reader list \<times> 'w env) option" where
  "maybe_read_page_local_compressed k chain v nr buf fl s =
     do {
       e \<leftarrow> pe (rd (hd chain));
       if blocks e = None then maybe_read_page_local k chain v nr buf fl s
       else
         let bp = pagemap_block_pages e; p = rd (hd chain) in
         if unat bp > MAX_BLOCK_PAGES then Some (- 1, chain, s)
         else if fl AND 3 = 1 \<and> block_offset p = 0 \<and> (nr mod ucast bp = 0 \<or> of_nat (block_idx p) * ucast bp + nr = nr_pages e) then
           do {
             (ret, q, w) \<leftarrow> pagemap_enqueue_iovec (op_alloc k) False True p buf (nr * PAGE) (async (hd chain)) (wld s);
             let chain = (hd chain)\<lparr>async := q\<rparr> # tl chain;
             if ret \<noteq> 0 then Some (ret, chain, s\<lparr>wld := w\<rparr>)
             else do { p \<leftarrow> skip_compressed_offsets p nr; Some (0, (hd chain)\<lparr>rd := p\<rparr> # tl chain, s\<lparr>wld := w\<rparr>) }
           }
         else if pi_fd (hd chain) < 0 then Some (- 1, chain, s)
         else do {
           (ret, chain, s) \<leftarrow> process_async_reads k chain s;
           if ret \<noteq> 0 then Some (- 1, chain, s)
           else do {
             (ret, r, s) \<leftarrow> read_compressed_pages k (hd chain) v nr buf s;
             if ret \<noteq> 0 then Some (ret, r # tl chain, s)
             else case io_complete k r v nr s of (ret, s) \<Rightarrow> Some (ret, r # tl chain, s)
           }
         }
     }"

text \<open>The loop of \<^verbatim>\<open>read_parent_page\<close> over the pieces that the parents \<open>ps\<close> have in one entry; \<open>rp\<close> is \<^verbatim>\<open>read_pages\<close>
  of the parent.\<close>

partial_function (option) read_parent_loop ::
  "(reader list \<Rightarrow> u64 \<Rightarrow> u64 \<Rightarrow> u64 \<Rightarrow> 'w env \<Rightarrow> (int \<times> reader list \<times> 'w env) option) \<Rightarrow>
     reader list \<Rightarrow> u64 \<Rightarrow> u64 \<Rightarrow> u64 \<Rightarrow> 'w env \<Rightarrow> (int \<times> reader list \<times> 'w env) option" where
  "read_parent_loop rp ps v nr buf s =
     do {
       (ret, p) \<leftarrow> seek_pagemap (rd (hd ps)) v;
       let ps = (hd ps)\<lparr>rd := p\<rparr> # tl ps;
       if ret \<le> 0 then Some (- 1, ps, s)
       else do {
         e \<leftarrow> pe p;
         let p_nr = nr_pages e - (v - vaddr e) div PAGE;
         let p_nr = (if p_nr > nr then nr else p_nr);
         (ret, ps, s) \<leftarrow> rp ps v p_nr buf s;
         if ret = - 1 then Some (- 1, ps, s)
         else if nr - p_nr \<noteq> 0 then read_parent_loop rp ps (v + p_nr * PAGE) (nr - p_nr) (buf + p_nr * PAGE) s
         else Some (0, ps, s)
       }
     }"

text \<open>\<open>n\<close> is the length of the chain.\<close>

fun read_pages :: "nat \<Rightarrow> 'w page_io \<Rightarrow> u32 \<Rightarrow> reader list \<Rightarrow> u64 \<Rightarrow> u64 \<Rightarrow> u64 \<Rightarrow> 'w env \<Rightarrow> (int \<times> reader list \<times> 'w env) option" where
  "read_pages 0 k fl chain v nr buf s = None"
| "read_pages (Suc n) k fl chain v nr buf s =
     do {
       e \<leftarrow> pe (rd (hd chain));
       pagemap_bound_check e v nr;
       (ret, chain, s) \<leftarrow>
         (if pagemap_in_parent e then
            if n = 0 then Some (- 1, chain, s)
            else do { (ret, ps, s) \<leftarrow> read_parent_loop (read_pages n k fl) (tl chain) v nr buf s; Some (ret, hd chain # ps, s) }
          else maybe_read_page_local_compressed k chain v nr buf fl s);
       if ret < 0 then Some (- 1, chain, s)
       else let r = hd chain in Some (1, r\<lparr>rd := (rd r)\<lparr>cvaddr := cvaddr (rd r) + nr * PAGE\<rparr>\<rparr> # tl chain, s)
     }"

definition read_pagemap_page :: "'w page_io \<Rightarrow> u32 \<Rightarrow> reader list \<Rightarrow> u64 \<Rightarrow> u64 \<Rightarrow> u64 \<Rightarrow> 'w env \<Rightarrow> (int \<times> reader list \<times> 'w env) option" where
  "read_pagemap_page k fl chain v nr buf s = read_pages (length chain) k fl chain v nr buf s"

end
