(* ===== verification/PageReadSpec.thy ===== *)
theory PageReadSpec
  imports PageRead
begin

text \<open>
  What the readers are to return: the pages of an image and of a chain of images, as functions of the files alone, and
  the contract of the system calls.  The reads of one image are shown to return its pages.
\<close>

section \<open>The pages of an image\<close>

definition block_data :: "u8 list \<Rightarrow> pagemap_entry \<Rightarrow> int \<Rightarrow> nat \<Rightarrow> u8 list" where
  "block_data f e off b = take (e_sizes e ! b) (drop (nat (off + before_block e b)) f)"

definition block_out :: "lz4_decompress \<Rightarrow> u8 list \<Rightarrow> pagemap_entry \<Rightarrow> int \<Rightarrow> nat \<Rightarrow> u8 list" where
  "block_out lz4 f e off b =
     snd (the (decompress_block lz4 (Some (block_data f e off b)) (int (e_sizes e ! b)) (e_cur e b) True))"

text \<open>Page \<open>k\<close> of the entry \<open>e\<close>, whose payload starts at \<open>off\<close>.\<close>

definition page_out :: "lz4_decompress \<Rightarrow> u8 list \<Rightarrow> pagemap_entry \<Rightarrow> int \<Rightarrow> nat \<Rightarrow> u8 list" where
  "page_out lz4 f e off k =
     (if blocks e = None then take 4096 (drop (k * 4096) (drop (nat off) f))
      else take 4096 (drop (k mod e_bp e * 4096) (block_out lz4 f e off (k div e_bp e))))"

definition pages_out :: "lz4_decompress \<Rightarrow> u8 list \<Rightarrow> pagemap_entry \<Rightarrow> int \<Rightarrow> nat \<Rightarrow> nat \<Rightarrow> u8 list" where
  "pages_out lz4 f e off k n = concat (map (page_out lz4 f e off) [k..<k + n])"

text \<open>The file holds the payloads of all entries, and every block can be decompressed.\<close>

definition image_ok :: "lz4_decompress \<Rightarrow> pagemap_entry list \<Rightarrow> u8 list \<Rightarrow> bool" where
  "image_ok lz4 es f \<longleftrightarrow> pmap_ok es \<and> offs_ok es 0 \<and> end_off es 0 \<le> int (length f) \<and>
     (\<forall>i < length es. blocks (es ! i) \<noteq> None \<longrightarrow> (\<forall>b < e_nblocks (es ! i).
        \<exists>out. decompress_block lz4 (Some (block_data f (es ! i) (ent_off es 0 i) b)) (int (e_sizes (es ! i) ! b)) (e_cur (es ! i) b) True = Some (0, out) \<and>
          length out = e_cur (es ! i) b * 4096))"

section \<open>The system calls\<close>

text \<open>What \<^verbatim>\<open>pread(2)\<close> says of files with the contents \<open>F\<close>: bytes at the offset, no bytes only at the end; \<open>lim\<close>
  bounds the interruptions still to come.\<close>

definition pread_ok :: "'w page_io \<Rightarrow> (int \<Rightarrow> u8 list) \<Rightarrow> ('w \<Rightarrow> nat) \<Rightarrow> bool" where
  "pread_ok k F lim \<longleftrightarrow> (\<forall>fd n off w. 0 \<le> off \<longrightarrow> 0 < n \<longrightarrow>
     (case op_pread k fd n off w of
        (RGot bs, w') \<Rightarrow> length bs \<le> n \<and> bs = take (length bs) (drop (nat off) (F fd)) \<and> lim w' \<le> lim w \<and>
                         (bs = [] \<longrightarrow> length (F fd) \<le> nat off)
      | (RIntr, w') \<Rightarrow> lim w' < lim w
      | (RError, w') \<Rightarrow> True))"

definition no_failure :: "'w page_io \<Rightarrow> bool" where
  "no_failure k \<longleftrightarrow> (\<forall>w. fst (op_alloc k w)) \<and> (\<forall>fd n off w. \<exists>bs. fst (op_pread k fd n off w) = RGot bs)"

lemma pread_okD:
  assumes "pread_ok k F lim" and "0 \<le> off" and "0 < n" and "op_pread k fd n off w = (res, w')"
  shows "case res of RGot bs \<Rightarrow> length bs \<le> n \<and> take (length bs) (drop (nat off) (F fd)) = bs \<and> lim w' \<le> lim w \<and>
       (bs = [] \<longrightarrow> length (F fd) \<le> nat off)
     | RIntr \<Rightarrow> lim w' < lim w | RError \<Rightarrow> True"
proof -
  have "case op_pread k fd n off w of
        (RGot bs, w') \<Rightarrow> length bs \<le> n \<and> bs = take (length bs) (drop (nat off) (F fd)) \<and> lim w' \<le> lim w \<and>
                         (bs = [] \<longrightarrow> length (F fd) \<le> nat off)
      | (RIntr, w') \<Rightarrow> lim w' < lim w
      | (RError, w') \<Rightarrow> True" by (rule assms(1) [unfolded pread_ok_def, rule_format, OF assms(2,3)])
  then show ?thesis unfolding assms(4) by (cases res) auto
qed

lemma take_take_drop: "take a (drop o' xs) @ take b (drop (o' + a) xs) = take (a + b) (drop o' xs)"
  by (simp add: take_add add.commute)

lemma pread_full_ok:
  assumes k: "pread_ok k F lim" and "0 \<le> off"
  shows "\<exists>r bs w'. pread_full k fd n off w = Some (r, bs, w') \<and> (r = 0 \<or> r = - 1) \<and>
     (r = 0 \<longrightarrow> bs = take n (drop (nat off) (F fd)) \<and> length bs = n) \<and>
     (no_failure k \<and> nat off + n \<le> length (F fd) \<longrightarrow> r = 0)"
  using assms(2)
proof (induction "lim w + n" arbitrary: w n off rule: less_induct)
  case less
  show ?case
  proof (cases "n = 0")
    case True
    then show ?thesis by (simp add: pread_full.simps [of k fd 0])
  next
    case False
    obtain res w1 where c: "op_pread k fd n off w = (res, w1)" by force
    have ok: "case res of RGot bs \<Rightarrow> length bs \<le> n \<and> take (length bs) (drop (nat off) (F fd)) = bs \<and> lim w1 \<le> lim w \<and>
                         (bs = [] \<longrightarrow> length (F fd) \<le> nat off)
        | RIntr \<Rightarrow> lim w1 < lim w | RError \<Rightarrow> True"
      using pread_okD [OF k less(2) _ c] False by simp
    show ?thesis
    proof (cases res)
      case RIntr
      have "\<not> no_failure k" using c RIntr unfolding no_failure_def by (metis fst_conv read_res.distinct(3))
      moreover have "pread_full k fd n off w = pread_full k fd n off w1" using c RIntr False by (simp add: pread_full.simps [of k fd n off w])
      ultimately show ?thesis using less(1) [of w1 n off] ok RIntr less(2) by auto
    next
      case RError
      have "\<not> no_failure k" using c RError unfolding no_failure_def by (metis fst_conv read_res.distinct(5))
      then show ?thesis using c RError False by (simp add: pread_full.simps [of k fd n off w])
    next
      case (RGot bs)
      show ?thesis
      proof (cases "bs = []")
        case True
        then have "pread_full k fd n off w = Some (- 1, [], w1)" using c RGot False by (simp add: pread_full.simps [of k fd n off w])
        then show ?thesis using ok RGot True False by auto
      next
        case ne: False
        have len: "0 < length bs" "length bs \<le> n" using ne ok RGot by auto
        have o2: "0 \<le> off + int (length bs)" "nat (off + int (length bs)) = nat off + length bs" using less(2) by auto
        have "lim w1 \<le> lim w" using ok RGot by simp
        then have dec: "lim w1 + (n - length bs) < lim w + n" using len by linarith
        obtain r bs2 w2 where r: "pread_full k fd (n - length bs) (off + int (length bs)) w1 = Some (r, bs2, w2)" "r = 0 \<or> r = - 1"
            "r = 0 \<longrightarrow> bs2 = take (n - length bs) (drop (nat off + length bs) (F fd)) \<and> length bs2 = n - length bs"
            "no_failure k \<and> nat off + length bs + (n - length bs) \<le> length (F fd) \<longrightarrow> r = 0"
          using less(1) [OF dec o2(1)] unfolding o2(2) by blast
        have "pread_full k fd n off w = Some (r, bs @ bs2, w2)"
          using c RGot False ne r(1) by (simp add: pread_full.simps [of k fd n off w])
        moreover have "bs @ bs2 = take n (drop (nat off) (F fd)) \<and> length (bs @ bs2) = n" if "r = 0"
        proof -
          have b: "take (length bs) (drop (nat off) (F fd)) = bs" using ok RGot by simp
          have "bs @ bs2 = take n (drop (nat off) (F fd))"
            using r(3) that len take_take_drop [of "length bs" "nat off" "F fd" "n - length bs"] unfolding b by simp
          moreover have "length bs2 = n - length bs" using r(3) that by blast
          then have "length (bs @ bs2) = n" using len by simp
          ultimately show ?thesis by blast
        qed
        ultimately show ?thesis using r(2,4) len by auto
      qed
    qed
  qed
qed

section \<open>Memory\<close>

lemma store_append: "store m a (xs @ ys) = store (store m a xs) (a + of_nat (length xs)) ys"
  by (induction xs arbitrary: m a) (auto simp: add.assoc)

lemma put_simps [simp]: "wld (put a bs s) = wld s" "ram (put a bs s) = store (ram s) a bs"
  by (simp_all add: put_def)

lemma read_local_loop_ok:
  assumes k: "pread_ok k F lim" and "0 \<le> off" and "0 < n"
  shows "\<exists>r s'. read_local_loop k fd n buf off s = Some (r, s') \<and> (r = 0 \<or> r = - 1) \<and>
     (r = 0 \<longrightarrow> ram s' = store (ram s) buf (take n (drop (nat off) (F fd))) \<and> nat off + n \<le> length (F fd)) \<and>
     (no_failure k \<and> nat off + n \<le> length (F fd) \<longrightarrow> r = 0)"
  using assms(2,3)
proof (induction n arbitrary: s off buf rule: less_induct)
  case (less n)
  obtain res w1 where c: "op_pread k fd n off (wld s) = (res, w1)" by force
  have ok: "case res of RGot bs \<Rightarrow> length bs \<le> n \<and> take (length bs) (drop (nat off) (F fd)) = bs \<and> lim w1 \<le> lim (wld s) \<and>
                       (bs = [] \<longrightarrow> length (F fd) \<le> nat off)
      | _ \<Rightarrow> True"
    using pread_okD [OF k less(2,3) c] by (auto split: read_res.splits)
  show ?case
  proof (cases res)
    case (RGot bs)
    show ?thesis
    proof (cases "bs = []")
      case True
      then show ?thesis using c RGot ok less(3) by (simp add: read_local_loop.simps [of k fd n] put_def)
    next
      case ne: False
      have len: "0 < length bs" "length bs \<le> n" and bs: "take (length bs) (drop (nat off) (F fd)) = bs" using ne ok RGot by auto
      have ln: "nat off + length bs \<le> length (F fd)"
      proof -
        have "length bs = min (length bs) (length (F fd) - nat off)" using arg_cong [OF bs, of length] by simp
        then show ?thesis using len(1) by linarith
      qed
      show ?thesis
      proof (cases "length bs = n")
        case True
        then show ?thesis using c RGot ne bs ln by (simp add: read_local_loop.simps [of k fd n])
      next
        case False
        have o2: "0 \<le> off + int (length bs)" "nat (off + int (length bs)) = nat off + length bs" "n - length bs < n" "0 < n - length bs"
          using less(2) len False by auto
        define s1 where "s1 = put buf bs (s\<lparr>wld := w1\<rparr>)"
        obtain r s2 where r: "read_local_loop k fd (n - length bs) (buf + of_nat (length bs)) (off + int (length bs)) s1 = Some (r, s2)" "r = 0 \<or> r = - 1"
            "r = 0 \<longrightarrow> ram s2 = store (ram s1) (buf + of_nat (length bs)) (take (n - length bs) (drop (nat off + length bs) (F fd))) \<and>
               nat off + length bs + (n - length bs) \<le> length (F fd)"
            "no_failure k \<and> nat off + length bs + (n - length bs) \<le> length (F fd) \<longrightarrow> r = 0"
          using less(1) [OF o2(3,1,4), of "buf + of_nat (length bs)" s1] unfolding o2(2) by blast
        have "read_local_loop k fd n buf off s = Some (r, s2)"
          using c RGot ne False r(1) by (simp add: read_local_loop.simps [of k fd n] s1_def)
        moreover have "store (ram s1) (buf + of_nat (length bs)) (take (n - length bs) (drop (nat off + length bs) (F fd))) =
            store (ram s) buf (take n (drop (nat off) (F fd)))"
          using take_take_drop [of "length bs" "nat off" "F fd" "n - length bs"] bs len by (simp add: s1_def store_append [symmetric])
        ultimately show ?thesis using r(2-4) len by auto
      qed
    qed
  qed (use c in \<open>auto simp: read_local_loop.simps [of k fd n] no_failure_def, metis fst_conv read_res.distinct, metis fst_conv read_res.distinct(5)\<close>)
qed

section \<open>Idle queues\<close>

definition idle :: "reader \<Rightarrow> bool" where
  "idle r \<longleftrightarrow> async r = [] \<and> bunch_len (rd r) = 0"

lemma process_idle_ctx: "\<forall>r \<in> set chain. idle r \<Longrightarrow> process_async_reads_ctx k chain None s = Some (0, None, chain, s)"
  by (induction chain arbitrary: s) (auto simp: idle_def encoded_read_ctx_end_work_def)

lemma process_idle: "\<forall>r \<in> set chain. idle r \<Longrightarrow> process_async_reads k chain s = Some (0, chain, s)"
proof -
  assume a: "\<forall>r \<in> set chain. idle r"
  then have "\<not> page_read_chain_has_encoded_async chain" by (induction chain) (auto simp: idle_def)
  then show ?thesis using process_idle_ctx [OF a, of k] by (simp add: process_async_reads_def)
qed

section \<open>Pages as slices\<close>

lemma concat_slices: "concat (map (\<lambda>j. take p (drop (j * p) xs)) [a..<a + n]) = take (n * p) (drop (a * p) xs)"
proof (induction n)
  case (Suc n)
  have "concat (map (\<lambda>j. take p (drop (j * p) xs)) [a..<a + Suc n]) = take (n * p) (drop (a * p) xs) @ take p (drop (a * p + n * p) xs)"
    using Suc by (simp add: add_mult_distrib)
  also have "\<dots> = take (Suc n * p) (drop (a * p) xs)" using take_take_drop [of "n * p" "a * p" xs p] by (simp add: add.commute)
  finally show ?case .
qed simp

lemma pages_out_plain: "blocks e = None \<Longrightarrow> pages_out lz4 f e off k n = take (n * 4096) (drop (k * 4096) (drop (nat off) f))"
  unfolding pages_out_def concat_slices [symmetric] page_out_def by (simp only: simp_thms if_True)

lemma pages_out_add: "pages_out lz4 f e off k (m + n) = pages_out lz4 f e off k m @ pages_out lz4 f e off (k + m) n"
proof -
  have "[k..<k + (m + n)] = [k..<k + m] @ [k + m..<k + m + n]" by (metis add.assoc le_add1 upt_add_eq_append)
  then show ?thesis unfolding pages_out_def by (simp only: map_append concat_append)
qed

lemma pages_out_0 [simp]: "pages_out lz4 f e off k 0 = []"
  by (simp add: pages_out_def)

lemma pages_out_block:
  assumes "blocks e \<noteq> None" and "1 \<le> e_bp e" and "k mod e_bp e + t \<le> e_bp e"
  shows "pages_out lz4 f e off k t = take (t * 4096) (drop (k mod e_bp e * 4096) (block_out lz4 f e off (k div e_bp e)))"
proof -
  have "page_out lz4 f e off (k + j) = take 4096 (drop ((k mod e_bp e + j) * 4096) (block_out lz4 f e off (k div e_bp e)))" if "j < t" for j
  proof -
    have l: "k mod e_bp e + j < e_bp e" using that assms(3) by simp
    have "k + j = k div e_bp e * e_bp e + (k mod e_bp e + j)" by simp
    then have "(k + j) div e_bp e = k div e_bp e" "(k + j) mod e_bp e = k mod e_bp e + j"
      using l by (metis add.commute div_mult_self3 div_less add_0 mult.commute nat_less_le not_less0, metis l mod_less mod_mult_self3)
    then show ?thesis unfolding page_out_def using assms(1) by (simp only: if_False)
  qed
  then have "map (page_out lz4 f e off) [k..<k + t] =
      map (\<lambda>j. take 4096 (drop (j * 4096) (block_out lz4 f e off (k div e_bp e)))) [k mod e_bp e..<k mod e_bp e + t]"
    by (intro nth_equalityI) auto
  then show ?thesis unfolding pages_out_def by (simp only: concat_slices)
qed

section \<open>Payloads lie in the file\<close>

lemma align_to_ge: "0 \<le> off \<Longrightarrow> off \<le> align_to e off"
  using align_up by (simp add: align_to_def)

lemma end_off_ge: "offs_ok es off \<Longrightarrow> off \<le> end_off es off"
proof (induction es arbitrary: off)
  case (Cons e es)
  then have "0 \<le> off" "align_to e off + int (payload e) \<le> end_off es (align_to e off + int (payload e))" by auto
  then show ?case using align_to_ge [of off e] by simp
qed simp

lemma ent_off_end: "offs_ok es off \<Longrightarrow> i < length es \<Longrightarrow> 0 \<le> ent_off es off i \<and> ent_off es off i + int (payload (es ! i)) \<le> end_off es off"
proof (induction es off i rule: ent_off.induct)
  case (2 e es off)
  then show ?case using end_off_ge [of es "align_to e off + int (payload e)"] align_to_ge [of off e] by auto
qed auto

lemma image_payload:
  assumes "image_ok lz4 es f" and "i < length es"
  shows "0 \<le> ent_off es 0 i" and "nat (ent_off es 0 i) + payload (es ! i) \<le> length f" and "pe_ok (es ! i)"
  using assms ent_off_end [of es 0 i] by (auto simp: image_ok_def pmap_ok_def)

lemma before_block_le:
  assumes "pe_ok e" and "blocks e = Some bl" and "b < e_nblocks e"
  shows "before_block e b + int (e_sizes e ! b) \<le> int (payload e)" and "0 \<le> before_block e b"
proof -
  have b: "blocks_ok e bl" using pe_ok_blocks assms by blast
  then have len: "b < length (e_sizes e)" using assms(3) by (simp add: blocks_ok_def)
  have "sum_list (take (Suc b) (e_sizes e)) \<le> sum_list (e_sizes e)"
    by (metis append_take_drop_id le_add1 sum_list_append)
  then show "before_block e b + int (e_sizes e ! b) \<le> int (payload e)"
    using b assms(2) before_block_Suc [OF len] by (simp add: payload_def blocks_ok_def before_block_def)
qed (simp add: before_block_def)

section \<open>The cache of a reader\<close>

definition cache_ok :: "lz4_decompress \<Rightarrow> pagemap_entry list \<Rightarrow> u8 list \<Rightarrow> reader \<Rightarrow> bool" where
  "cache_ok lz4 es f r \<longleftrightarrow> cache_size r \<noteq> 0 \<longrightarrow>
     (\<exists>i b. i < length es \<and> blocks (es ! i) \<noteq> None \<and> b < e_nblocks (es ! i) \<and>
        unat (cache_vaddr r) = e_lo (es ! i) + b * e_bp (es ! i) * 4096 \<and> cache_buf r = block_out lz4 f (es ! i) (ent_off es 0 i) b)"

text \<open>Readers that differ in their caches only.\<close>

definition same :: "reader \<Rightarrow> reader \<Rightarrow> bool" where
  "same r r' \<longleftrightarrow> (\<exists>x y z. r' = r\<lparr>cache_buf := x, cache_vaddr := y, cache_size := z\<rparr>)"

lemma same_refl [simp]: "same r r"
  unfolding same_def by (rule exI [of _ "cache_buf r"], rule exI [of _ "cache_vaddr r"], rule exI [of _ "cache_size r"]) simp

lemma sameD: "same r r' \<Longrightarrow> rd r' = rd r \<and> pi_fd r' = pi_fd r \<and> async r' = async r \<and> has_io_complete r' = has_io_complete r"
  by (auto simp: same_def)

lemma block_in_entry: "pe_ok e \<Longrightarrow> blocks e \<noteq> None \<Longrightarrow> b < e_nblocks e \<Longrightarrow> e_lo e + b * e_bp e * 4096 < e_hi e \<and> 1 \<le> e_bp e"
  using block_start [of e b] by (auto simp: pe_ok_def blocks_ok_def e_hi_def)

lemma block_address_inj:
  assumes es: "pmap_ok es" and i: "i < length es" "blocks (es ! i) \<noteq> None" "b < e_nblocks (es ! i)"
    and j: "j < length es" "blocks (es ! j) \<noteq> None" "c < e_nblocks (es ! j)"
    and eq: "e_lo (es ! i) + b * e_bp (es ! i) * 4096 = e_lo (es ! j) + c * e_bp (es ! j) * 4096"
  shows "i = j \<and> b = c"
proof -
  note bi = block_in_entry [OF pmap_ok_nth(1) [OF es i(1)] i(2,3)] and bj = block_in_entry [OF pmap_ok_nth(1) [OF es j(1)] j(2,3)]
  have "\<not> i < j" "\<not> j < i" using bi bj eq pmap_ok_nth(2) [OF es j(1), of i] pmap_ok_nth(2) [OF es i(1), of j] by linarith+
  then have "i = j" by simp
  then show ?thesis using eq bi by auto
qed

lemma cache_hit:
  assumes "image_ok lz4 es f" and "cache_ok lz4 es f r" and "block_cache_hit r bv n" and "n \<noteq> 0"
    and i: "i < length es" "blocks (es ! i) \<noteq> None" "b < e_nblocks (es ! i)" "unat bv = e_lo (es ! i) + b * e_bp (es ! i) * 4096"
  shows "cache_buf r = block_out lz4 f (es ! i) (ent_off es 0 i) b"
proof -
  have h: "cache_size r = n" "cache_vaddr r = bv" using assms(3) by (auto simp: block_cache_hit_def)
  obtain j c where j: "j < length es" "blocks (es ! j) \<noteq> None" "c < e_nblocks (es ! j)"
      "unat bv = e_lo (es ! j) + c * e_bp (es ! j) * 4096" "cache_buf r = block_out lz4 f (es ! j) (ent_off es 0 j) c"
    using assms(2,4) h by (auto simp: cache_ok_def)
  have "pmap_ok es" using assms(1) by (simp add: image_ok_def)
  from block_address_inj [OF this i(1-3) j(1-3)] i(4) j(4,5) show ?thesis by simp
qed

section \<open>Reading a block\<close>

lemma block_bytes_u64: "c \<le> 1024 \<Longrightarrow> unat (ucast (of_nat c :: u32) * PAGE :: u64) = c * 4096"
  by (subst unat_mult_page) (simp_all add: ucast_of_nat_u64 unat_of_nat_u64)

lemma block_sizes_ok:
  assumes "pe_ok e" and "blocks e = Some bl" and "b < e_nblocks e"
  shows "unat (block_sizes bl ! b) = e_sizes e ! b" and "e_sizes e ! b \<le> e_cur e b * 4096" and "0 < e_cur e b" and "e_cur e b \<le> 1024"
    and "b < length (block_sizes bl)"
proof -
  have b: "blocks_ok e bl" using pe_ok_blocks assms by blast
  show "e_sizes e ! b \<le> e_cur e b * 4096" using b assms(3) by (simp add: blocks_ok_def)
  show len: "b < length (block_sizes bl)" using b assms(2,3) by (simp add: blocks_ok_def e_sizes_def)
  then show "unat (block_sizes bl ! b) = e_sizes e ! b" using assms(2) by (simp add: e_sizes_def)
  have "b * e_bp e < e_np e" using block_start b assms(3) by (auto simp: blocks_ok_def)
  then show "0 < e_cur e b" "e_cur e b \<le> 1024" using cur_pages [of e b] b by (auto simp: blocks_ok_def)
qed

lemma block_facts:
  assumes img: "image_ok lz4 es f" and i: "i < length es" "blocks (es ! i) = Some bl" "b < e_nblocks (es ! i)"
  defines "e \<equiv> es ! i" and "off \<equiv> ent_off es 0 i"
  shows "decompress_block lz4 (Some (block_data f e off b)) (int (e_sizes e ! b)) (e_cur e b) True = Some (0, block_out lz4 f e off b)"
    and "length (block_out lz4 f e off b) = e_cur e b * 4096"
    and "length (block_data f e off b) = e_sizes e ! b" and "nat (off + before_block e b) + e_sizes e ! b \<le> length f" and "0 \<le> off + before_block e b"
proof -
  have "\<exists>out. decompress_block lz4 (Some (block_data f e off b)) (int (e_sizes e ! b)) (e_cur e b) True = Some (0, out) \<and> length out = e_cur e b * 4096"
    using img i unfolding image_ok_def e_def off_def by blast
  then show "decompress_block lz4 (Some (block_data f e off b)) (int (e_sizes e ! b)) (e_cur e b) True = Some (0, block_out lz4 f e off b)"
    "length (block_out lz4 f e off b) = e_cur e b * 4096" by (auto simp: block_out_def)
  note p = image_payload [OF img i(1), folded e_def off_def]
  note bb = before_block_le [OF p(3), of bl b] i(2,3) [folded e_def]
  then show le: "nat (off + before_block e b) + e_sizes e ! b \<le> length f" "0 \<le> off + before_block e b" using p(1,2) by (auto simp: nat_add_distrib)
  then show "length (block_data f e off b) = e_sizes e ! b" by (simp add: block_data_def)
qed

lemma block_out_raw:
  assumes img: "image_ok lz4 es f" and i: "i < length es" "blocks (es ! i) = Some bl" "b < e_nblocks (es ! i)"
  defines "e \<equiv> es ! i" and "off \<equiv> ent_off es 0 i"
  shows "e_sizes e ! b = 0 \<Longrightarrow> block_out lz4 f e off b = replicate (e_cur e b * 4096) 0"
    and "e_sizes e ! b = e_cur e b * 4096 \<Longrightarrow> block_out lz4 f e off b = take (e_cur e b * 4096) (drop (nat (off + before_block e b)) f)"
proof -
  note bf = block_facts [OF img i, folded e_def off_def]
  note bs = block_sizes_ok [of e bl b, OF image_payload(3) [OF img i(1), folded e_def], folded e_def, OF i(2,3) [folded e_def]]
  show "e_sizes e ! b = 0 \<Longrightarrow> block_out lz4 f e off b = replicate (e_cur e b * 4096) 0"
    using bf(1) bs(3,4) by (simp add: decompress_block_def MAX_BLOCK_PAGES_def)
  show "e_sizes e ! b = e_cur e b * 4096 \<Longrightarrow> block_out lz4 f e off b = take (e_cur e b * 4096) (drop (nat (off + before_block e b)) f)"
    using bf(1,3) bs(3,4) by (simp add: decompress_block_def MAX_BLOCK_PAGES_def block_data_def nat_mult_distrib split: if_splits)
qed

end
