(* ===== verification/PageReadBlock.thy ===== *)
theory PageReadBlock
  imports PageReadSpec
begin

text \<open>
  Reading of a compressed entry block by block, with the cache of the last partial block: the pages that come out are
  those of the image, and the cursor is behind them.
\<close>

section \<open>A block\<close>

lemma take_drop_take: "o' + n \<le> m \<Longrightarrow> take n (drop o' (take m xs)) = take n (drop o' xs)"
  by (simp add: drop_take)

lemma cache_load_ok:
  assumes k: "pread_ok k F lim" and img: "image_ok (op_lz4 k) es (F (pi_fd r))"
    and i: "i < length es" "blocks (es ! i) = Some bl" "b < e_nblocks (es ! i)"
    and off: "pi_off (rd r) = ent_off es 0 i + before_block (es ! i) b" and bv: "unat bv = e_lo (es ! i) + b * e_bp (es ! i) * 4096"
  shows "\<exists>ret r' w'. block_cache_load k r bv (block_sizes bl ! b) (of_nat (e_cur (es ! i) b)) n w = Some (ret, r', w') \<and>
     (ret = 0 \<longrightarrow> same r r' \<and> cache_ok (op_lz4 k) es (F (pi_fd r)) r' \<and>
        cache_buf r' = block_out (op_lz4 k) (F (pi_fd r)) (es ! i) (ent_off es 0 i) b) \<and> (no_failure k \<longrightarrow> ret = 0)"
proof -
  define e where "e = es ! i"
  note bf = block_facts [OF img i, folded e_def]
  note bs = block_sizes_ok [OF image_payload(3) [OF img i(1)] i(2,3), folded e_def]
  define r0 where "r0 = r\<lparr>cache_size := 0\<rparr>"
  obtain ok w1 where a: "(if n \<noteq> cache_size r then op_alloc k w else (True, w)) = (ok, w1)" by force
  have nf: "no_failure k \<longrightarrow> ok" using a by (auto simp: no_failure_def split: if_splits) (metis fst_conv)
  have u: "unat (of_nat (e_cur e b) :: u32) = e_cur e b" using bs(4) by (intro unat_of_nat_u32) simp
  have ui: "uint (block_sizes bl ! b) = int (e_sizes e ! b)" using bs(1) by (metis uint_nat)
  obtain p d w2 where p: "pread_full k (pi_fd r) (e_sizes e ! b) (ent_off es 0 i + before_block e b) w1 = Some (p, d, w2)"
      "p = 0 \<longrightarrow> d = block_data (F (pi_fd r)) e (ent_off es 0 i) b" "no_failure k \<longrightarrow> p = 0"
    using pread_full_ok [OF k bf(5), of "pi_fd r" "e_sizes e ! b" w1] bf(4) unfolding block_data_def by blast
  show ?thesis
  proof (cases "ok \<and> p = 0")
    case True
    define r1 where "r1 = r\<lparr>cache_size := n, cache_buf := block_out (op_lz4 k) (F (pi_fd r)) e (ent_off es 0 i) b, cache_vaddr := bv\<rparr>"
    have "block_cache_load k r bv (block_sizes bl ! b) (of_nat (e_cur e b)) n w = Some (0, r1, w2)"
      unfolding block_cache_load_def Let_def using a True p bf(1) bs(1) off u ui by (simp add: e_def [symmetric] r1_def)
    moreover have "same r r1" unfolding same_def r1_def
      by (rule exI [of _ "block_out (op_lz4 k) (F (pi_fd r)) e (ent_off es 0 i) b"], rule exI [of _ bv], rule exI [of _ n]) simp
    moreover have "cache_ok (op_lz4 k) es (F (pi_fd r)) r1"
      unfolding cache_ok_def using i bv by (auto simp: r1_def e_def)
    ultimately show ?thesis by (auto simp: r1_def e_def)
  next
    case False
    then have nf': "\<not> no_failure k" using nf p(3) by blast
    have "\<exists>r' w'. block_cache_load k r bv (block_sizes bl ! b) (of_nat (e_cur e b)) n w = Some (- 1, r', w')"
      unfolding block_cache_load_def Let_def using a False p bs(1) off by (auto simp: e_def [symmetric])
    then show ?thesis using nf' by (auto simp: e_def)
  qed
qed

text \<open>\<^verbatim>\<open>read_compressed_pages\<close> on one block, with the sizes as numbers.\<close>

lemma read_block_eq:
  assumes c: "c \<le> 1024" "o' + t \<le> c" and cs: "unat cs = z"
  shows "read_block k r cs (of_nat c) (of_nat o') (of_nat t) bv dst cap s =
    (if z = 0 then Some (0, r, cap, put dst (replicate (t * 4096) 0) s)
     else if z = c * 4096 then
       do { (ret, bs, w) \<leftarrow> pread_full k (pi_fd r) (t * 4096) (pi_off (rd r) + int o' * 4096) (wld s); Some (ret, r, cap, put dst bs (s\<lparr>wld := w\<rparr>)) }
     else if o' = 0 \<and> t = c then
       (case (if cap < ucast cs then op_alloc k (wld s) else (True, wld s)) of (ok, w) \<Rightarrow>
          if \<not> ok then Some (- 1, r, cap, s\<lparr>wld := w\<rparr>)
          else do {
            (ret, scratch, w) \<leftarrow> pread_full k (pi_fd r) z (pi_off (rd r)) w;
            if ret \<noteq> 0 then Some (- 1, r, max cap (ucast cs), s\<lparr>wld := w\<rparr>)
            else do { (ret, out) \<leftarrow> decompress_block (op_lz4 k) (Some scratch) (int z) c True;
                      Some (ret, r, max cap (ucast cs), put dst out (s\<lparr>wld := w\<rparr>)) } })
     else
       do {
         (ret, r, cap, w) \<leftarrow>
           (if \<not> block_cache_hit r bv (of_nat (c * 4096)) then
              (case (if cap < ucast cs then op_alloc k (wld s) else (True, wld s)) of (ok, w) \<Rightarrow>
                 if \<not> ok then Some (- 1, r, cap, w)
                 else do { (ret, r, w) \<leftarrow> block_cache_load k r bv cs (of_nat c) (of_nat (c * 4096)) w; Some (ret, r, max cap (ucast cs), w) })
            else Some (0, r, cap, wld s));
         if ret \<noteq> 0 then Some (ret, r, cap, s\<lparr>wld := w\<rparr>)
         else if length (cache_buf r) < o' * 4096 + t * 4096 then None
         else Some (0, r, cap, put dst (take (t * 4096) (drop (o' * 4096) (cache_buf r))) (s\<lparr>wld := w\<rparr>))
       })"
proof -
  have t': "t \<le> 1024" "o' \<le> 1024" using c by auto
  have tb: "unat (ucast (of_nat c :: u32) * PAGE :: u64) = c * 4096" "unat (ucast (of_nat t :: u32) * PAGE :: u64) = t * 4096"
    using block_bytes_u64 c t' by auto
  have small: "unat (of_nat o' :: u32) = o'" "unat (of_nat c :: u32) = c" "unat (of_nat t :: u32) = t"
    using t' c by (simp_all add: unat_of_nat_u32)
  have nb: "(ucast (of_nat c :: u32) * PAGE :: u64) = of_nat (c * 4096)" unfolding tb(1) [symmetric] by (simp only: of_nat_unat ucast_id)
  have cs0: "cs = 0 \<longleftrightarrow> z = 0" using cs unat_eq_zero [of cs] by simp
  have csr: "ucast cs = (ucast (of_nat c :: u32) * PAGE :: u64) \<longleftrightarrow> z = c * 4096"
    unfolding word_unat_eq_iff unat_ucast_u32 tb(1) cs by (rule refl)
  have o0: "(of_nat o' :: u32) = 0 \<longleftrightarrow> o' = 0" using small(1) unat_eq_zero [of "of_nat o' :: u32"] by simp
  have tc: "(of_nat t :: u32) = of_nat c \<longleftrightarrow> t = c" unfolding word_unat_eq_iff small by (rule refl)
  have ui: "uint (of_nat o' :: u32) = int o'" "uint cs = int z" by (simp_all only: uint_nat small(1) cs)
  have cap: "(if cap < ucast cs then ucast cs else cap) = max cap (ucast cs)" by (auto simp: max_def)
  show ?thesis unfolding read_block_def Let_def cs0 o0 tc tb ui small cs cap nb csr [unfolded nb] by (rule refl)
qed

definition read_post ::
  "'w page_io \<Rightarrow> (int \<Rightarrow> u8 list) \<Rightarrow> pagemap_entry list \<Rightarrow> reader \<Rightarrow> 'w env \<Rightarrow> u64 \<Rightarrow> u8 list \<Rightarrow> (int \<times> reader \<times> u64 \<times> 'w env) option \<Rightarrow> bool" where
  "read_post k F es r s dst out z \<longleftrightarrow> (\<exists>ret r' cap' s'. z = Some (ret, r', cap', s') \<and>
     (ret = 0 \<longrightarrow> same r r' \<and> cache_ok (op_lz4 k) es (F (pi_fd r)) r' \<and> ram s' = store (ram s) dst out) \<and> (no_failure k \<longrightarrow> ret = 0))"

lemma read_postI: "same r r' \<Longrightarrow> cache_ok (op_lz4 k) es (F (pi_fd r)) r' \<Longrightarrow> ram s' = store (ram s) dst out \<Longrightarrow>
    read_post k F es r s dst out (Some (0, r', cap', s'))"
  by (auto simp: read_post_def)

lemma read_post_fail: "ret \<noteq> 0 \<Longrightarrow> \<not> no_failure k \<Longrightarrow> read_post k F es r s dst out (Some (ret, r', cap', s'))"
  by (auto simp: read_post_def)

lemma alloc_cases:
  obtains ok w where "(if P then op_alloc k w0 else (True, w0)) = (ok, w)" "no_failure k \<Longrightarrow> ok"
  by (cases "if P then op_alloc k w0 else (True, w0)") (auto simp: no_failure_def split: if_splits, metis fst_conv)

text \<open>The reader is in front of block \<open>b\<close> of entry \<open>i\<close>, and \<open>t\<close> pages of it from \<open>o'\<close> on are to be read.\<close>

definition at_block :: "lz4_decompress \<Rightarrow> u8 list \<Rightarrow> pagemap_entry list \<Rightarrow> reader \<Rightarrow> nat \<Rightarrow> pagemap_blocks \<Rightarrow> nat \<Rightarrow> nat \<Rightarrow> nat \<Rightarrow> u64 \<Rightarrow> bool" where
  "at_block lz4 f es r i bl b o' t bv \<longleftrightarrow> image_ok lz4 es f \<and> cache_ok lz4 es f r \<and>
     i < length es \<and> blocks (es ! i) = Some bl \<and> b < e_nblocks (es ! i) \<and> o' + t \<le> e_cur (es ! i) b \<and> 0 < t \<and>
     pi_off (rd r) = ent_off es 0 i + before_block (es ! i) b \<and> unat bv = e_lo (es ! i) + b * e_bp (es ! i) * 4096"

lemma at_blockD:
  assumes "at_block lz4 f es r i bl b o' t bv"
  shows "image_ok lz4 es f" "cache_ok lz4 es f r" "i < length es" "blocks (es ! i) = Some bl" "b < e_nblocks (es ! i)"
    "o' + t \<le> e_cur (es ! i) b" "0 < t" "pi_off (rd r) = ent_off es 0 i + before_block (es ! i) b" "unat bv = e_lo (es ! i) + b * e_bp (es ! i) * 4096"
    "unat (block_sizes bl ! b) = e_sizes (es ! i) ! b" "e_cur (es ! i) b \<le> 1024" "0 < e_cur (es ! i) b"
    "o' * 4096 + t * 4096 \<le> length (block_out lz4 f (es ! i) (ent_off es 0 i) b)"
    "0 \<le> ent_off es 0 i + before_block (es ! i) b" "nat (ent_off es 0 i + before_block (es ! i) b) + e_sizes (es ! i) ! b \<le> length f"
proof -
  show a: "image_ok lz4 es f" "cache_ok lz4 es f r" "i < length es" "blocks (es ! i) = Some bl" "b < e_nblocks (es ! i)"
    "o' + t \<le> e_cur (es ! i) b" "0 < t" "pi_off (rd r) = ent_off es 0 i + before_block (es ! i) b" "unat bv = e_lo (es ! i) + b * e_bp (es ! i) * 4096"
    using assms by (simp_all add: at_block_def)
  note bf = block_facts [OF a(1,3-5)] and bs = block_sizes_ok [OF image_payload(3) [OF a(1,3)] a(4,5)]
  show "unat (block_sizes bl ! b) = e_sizes (es ! i) ! b" "e_cur (es ! i) b \<le> 1024" "0 < e_cur (es ! i) b"
    "0 \<le> ent_off es 0 i + before_block (es ! i) b" "nat (ent_off es 0 i + before_block (es ! i) b) + e_sizes (es ! i) ! b \<le> length f"
    using bf bs by simp_all
  show "o' * 4096 + t * 4096 \<le> length (block_out lz4 f (es ! i) (ent_off es 0 i) b)" unfolding bf(2) using a(6) by linarith
qed

lemma read_block_zero:
  assumes a: "at_block (op_lz4 k) (F (pi_fd r)) es r i bl b o' t bv" and z: "e_sizes (es ! i) ! b = 0"
  shows "read_post k F es r s dst (take (t * 4096) (drop (o' * 4096) (block_out (op_lz4 k) (F (pi_fd r)) (es ! i) (ent_off es 0 i) b)))
     (read_block k r (block_sizes bl ! b) (of_nat (e_cur (es ! i) b)) (of_nat o') (of_nat t) bv dst cap s)"
proof -
  note d = at_blockD [OF a]
  have out: "take (t * 4096) (drop (o' * 4096) (block_out (op_lz4 k) (F (pi_fd r)) (es ! i) (ent_off es 0 i) b)) = replicate (t * 4096) 0"
    unfolding block_out_raw(1) [OF d(1,3-5) z] using d(6) by simp
  show ?thesis unfolding out read_block_eq [OF d(11,6,10)] if_P [OF z] by (rule read_postI) (simp_all add: d(2))
qed

lemma read_block_raw:
  assumes k: "pread_ok k F lim" and a: "at_block (op_lz4 k) (F (pi_fd r)) es r i bl b o' t bv"
    and z: "e_sizes (es ! i) ! b \<noteq> 0" "e_sizes (es ! i) ! b = e_cur (es ! i) b * 4096"
  shows "read_post k F es r s dst (take (t * 4096) (drop (o' * 4096) (block_out (op_lz4 k) (F (pi_fd r)) (es ! i) (ent_off es 0 i) b)))
     (read_block k r (block_sizes bl ! b) (of_nat (e_cur (es ! i) b)) (of_nat o') (of_nat t) bv dst cap s)"
proof -
  note d = at_blockD [OF a]
  define X where "X = ent_off es 0 i + before_block (es ! i) b"
  have X: "0 \<le> X + int o' * 4096" "nat (X + int o' * 4096) = nat X + o' * 4096"
    using d(14) unfolding X_def [symmetric] by (auto simp: nat_add_distrib nat_mult_distrib)
  obtain p d' w where p: "pread_full k (pi_fd r) (t * 4096) (X + int o' * 4096) (wld s) = Some (p, d', w)"
      "p = 0 \<longrightarrow> d' = take (t * 4096) (drop (nat X + o' * 4096) (F (pi_fd r)))" "no_failure k \<and> nat X + o' * 4096 + t * 4096 \<le> length (F (pi_fd r)) \<longrightarrow> p = 0"
    using pread_full_ok [OF k X(1), of "pi_fd r" "t * 4096" "wld s"] unfolding X(2) by blast
  have le: "nat X + o' * 4096 + t * 4096 \<le> length (F (pi_fd r))" using d(15,6) z(2) unfolding X_def [symmetric] by linarith
  have out: "take (t * 4096) (drop (o' * 4096) (block_out (op_lz4 k) (F (pi_fd r)) (es ! i) (ent_off es 0 i) b)) = take (t * 4096) (drop (nat X + o' * 4096) (F (pi_fd r)))"
    unfolding block_out_raw(2) [OF d(1,3-5) z(2)] X_def [symmetric] using d(6) by (subst take_drop_take) (simp_all add: add.commute)
  have eq: "read_block k r (block_sizes bl ! b) (of_nat (e_cur (es ! i) b)) (of_nat o') (of_nat t) bv dst cap s = Some (p, r, cap, put dst d' (s\<lparr>wld := w\<rparr>))"
    unfolding read_block_eq [OF d(11,6,10)] if_not_P [OF z(1)] if_P [OF z(2)] d(8) X_def [symmetric] p(1) by simp
  show ?thesis
  proof (cases "p = 0")
    case True
    show ?thesis unfolding eq out True by (rule read_postI) (use p(2) True d(2) in simp_all)
  next
    case False
    show ?thesis unfolding eq by (rule read_post_fail) (use False p(3) le in auto)
  qed
qed

lemma read_block_whole:
  assumes k: "pread_ok k F lim" and a: "at_block (op_lz4 k) (F (pi_fd r)) es r i bl b 0 (e_cur (es ! i) b) bv"
    and z: "e_sizes (es ! i) ! b \<noteq> 0" "e_sizes (es ! i) ! b \<noteq> e_cur (es ! i) b * 4096"
  shows "read_post k F es r s dst (block_out (op_lz4 k) (F (pi_fd r)) (es ! i) (ent_off es 0 i) b)
     (read_block k r (block_sizes bl ! b) (of_nat (e_cur (es ! i) b)) (of_nat 0) (of_nat (e_cur (es ! i) b)) bv dst cap s)"
proof -
  note d = at_blockD [OF a]
  define X where "X = ent_off es 0 i + before_block (es ! i) b"
  obtain ok w1 where al: "(if cap < ucast (block_sizes bl ! b) then op_alloc k (wld s) else (True, wld s)) = (ok, w1)" "no_failure k \<Longrightarrow> ok"
    by (rule alloc_cases [of "cap < ucast (block_sizes bl ! b)" k "wld s"]) blast
  obtain p d' w2 where p: "pread_full k (pi_fd r) (e_sizes (es ! i) ! b) X w1 = Some (p, d', w2)"
      "p = 0 \<longrightarrow> d' = block_data (F (pi_fd r)) (es ! i) (ent_off es 0 i) b" "no_failure k \<longrightarrow> p = 0"
    using pread_full_ok [OF k d(14), of "pi_fd r" "e_sizes (es ! i) ! b" w1] d(15) unfolding block_data_def X_def by blast
  note eq = read_block_eq [OF d(11,6,10), of k r bv dst cap s, unfolded if_not_P [OF z(1)] if_not_P [OF z(2)] al(1) d(8) X_def [symmetric]]
  show ?thesis
  proof (cases "ok \<and> p = 0")
    case True
    then show ?thesis unfolding eq using p block_facts(1) [OF d(1,3-5)] d(2) by (auto intro!: read_postI)
  next
    case False
    then have "\<not> no_failure k" using al(2) p(3) by blast
    then show ?thesis unfolding eq using p(1) False by (auto intro: read_post_fail)
  qed
qed

lemma read_block_part:
  assumes k: "pread_ok k F lim" and a: "at_block (op_lz4 k) (F (pi_fd r)) es r i bl b o' t bv"
    and z: "e_sizes (es ! i) ! b \<noteq> 0" "e_sizes (es ! i) ! b \<noteq> e_cur (es ! i) b * 4096" "\<not> (o' = 0 \<and> t = e_cur (es ! i) b)"
  shows "read_post k F es r s dst (take (t * 4096) (drop (o' * 4096) (block_out (op_lz4 k) (F (pi_fd r)) (es ! i) (ent_off es 0 i) b)))
     (read_block k r (block_sizes bl ! b) (of_nat (e_cur (es ! i) b)) (of_nat o') (of_nat t) bv dst cap s)"
proof -
  note d = at_blockD [OF a]
  define n where "n = (of_nat (e_cur (es ! i) b * 4096) :: u64)"
  have "unat n = e_cur (es ! i) b * 4096" using d(11) unfolding n_def by (intro unat_of_nat_u64) simp
  then have n0: "n \<noteq> 0" using d(12) by auto
  obtain ok w1 where al: "(if cap < ucast (block_sizes bl ! b) then op_alloc k (wld s) else (True, wld s)) = (ok, w1)" "no_failure k \<Longrightarrow> ok"
    by (rule alloc_cases [of "cap < ucast (block_sizes bl ! b)" k "wld s"]) blast
  obtain ret r1 w2 where l: "block_cache_load k r bv (block_sizes bl ! b) (of_nat (e_cur (es ! i) b)) n w1 = Some (ret, r1, w2)"
      "ret = 0 \<longrightarrow> same r r1 \<and> cache_ok (op_lz4 k) es (F (pi_fd r)) r1 \<and> cache_buf r1 = block_out (op_lz4 k) (F (pi_fd r)) (es ! i) (ent_off es 0 i) b"
      "no_failure k \<longrightarrow> ret = 0"
    using cache_load_ok [OF k d(1,3-5,8,9), of n w1] by blast
  note eq = read_block_eq [OF d(11,6,10), of k r bv dst cap s, unfolded if_not_P [OF z(1)] if_not_P [OF z(2)] if_not_P [OF z(3)] al(1) n_def [symmetric]]
  consider (hit) "block_cache_hit r bv n" | (load) "\<not> block_cache_hit r bv n" "ok" "ret = 0"
    | (fail) "\<not> block_cache_hit r bv n" "\<not> ok \<or> ret \<noteq> 0" by blast
  then show ?thesis
  proof cases
    case hit
    have "cache_buf r = block_out (op_lz4 k) (F (pi_fd r)) (es ! i) (ent_off es 0 i) b"
      using cache_hit [OF d(1,2) hit n0 d(3) _ d(5,9)] d(4) by simp
    then show ?thesis unfolding eq using hit d(13,2) by (auto intro!: read_postI)
  next
    case load
    then show ?thesis unfolding eq using l(1,2) d(13) by (auto intro!: read_postI)
  next
    case fail
    then have "\<not> no_failure k" using al(2) l(3) by blast
    then show ?thesis unfolding eq using fail l(1) by (auto intro: read_post_fail)
  qed
qed

lemma read_block_ok:
  assumes k: "pread_ok k F lim" and a: "at_block (op_lz4 k) (F (pi_fd r)) es r i bl b o' t bv"
  shows "read_post k F es r s dst (take (t * 4096) (drop (o' * 4096) (block_out (op_lz4 k) (F (pi_fd r)) (es ! i) (ent_off es 0 i) b)))
     (read_block k r (block_sizes bl ! b) (of_nat (e_cur (es ! i) b)) (of_nat o') (of_nat t) bv dst cap s)"
proof -
  consider (zero) "e_sizes (es ! i) ! b = 0" | (raw) "e_sizes (es ! i) ! b \<noteq> 0" "e_sizes (es ! i) ! b = e_cur (es ! i) b * 4096"
    | (whole) "e_sizes (es ! i) ! b \<noteq> 0" "e_sizes (es ! i) ! b \<noteq> e_cur (es ! i) b * 4096" "o' = 0" "t = e_cur (es ! i) b"
    | (part) "e_sizes (es ! i) ! b \<noteq> 0" "e_sizes (es ! i) ! b \<noteq> e_cur (es ! i) b * 4096" "\<not> (o' = 0 \<and> t = e_cur (es ! i) b)" by blast
  then show ?thesis
  proof cases
    case whole
    have out: "take (t * 4096) (drop (o' * 4096) (block_out (op_lz4 k) (F (pi_fd r)) (es ! i) (ent_off es 0 i) b)) =
        block_out (op_lz4 k) (F (pi_fd r)) (es ! i) (ent_off es 0 i) b"
      using at_blockD [OF a] block_facts(2) [of "op_lz4 k" es "F (pi_fd r)" i bl b] whole(3,4) by simp
    show ?thesis unfolding out using read_block_whole [OF k a [unfolded whole(3,4)] whole(1,2)] by (simp only: whole(3,4))
  qed (use read_block_zero [where k = k and F = F, OF a] read_block_raw [OF k a] read_block_part [OF k a] in auto)
qed

section \<open>The blocks of an entry\<close>

text \<open>The cursor in the pages image in front of page \<open>p\<close> of a compressed entry.\<close>

definition moved :: "pagemap_entry list \<Rightarrow> nat \<Rightarrow> nat \<Rightarrow> page_read \<Rightarrow> page_read" where
  "moved es i p pr = pr\<lparr>pi_off := ent_off es 0 i + before_block (es ! i) (b_idx (es ! i) p), block_idx := b_idx (es ! i) p,
     block_offset := of_nat (b_off (es ! i) p)\<rparr>"

lemma moved_moved [simp]: "moved es i q (moved es i p pr) = moved es i q pr"
  by (simp add: moved_def)

lemma moved_simps [simp]: "pe (moved es i p pr) = pe pr" "pmes (moved es i p pr) = pmes pr" "cvaddr (moved es i p pr) = cvaddr pr"
  "block_idx (moved es i p pr) = b_idx (es ! i) p" "block_offset (moved es i p pr) = of_nat (b_off (es ! i) p)"
  "pi_off (moved es i p pr) = ent_off es 0 i + before_block (es ! i) (b_idx (es ! i) p)" "curr_pme (moved es i p pr) = curr_pme pr"
  "bunch_len (moved es i p pr) = bunch_len pr"
  by (simp_all add: moved_def)

text \<open>The next position after \<open>t\<close> pages, which do not cross the end of the block.\<close>

lemma moved_step:
  assumes e: "pe_ok (es ! i)" "blocks (es ! i) = Some bl" and n: "0 < n" "p + n \<le> e_np (es ! i)"
  defines "b \<equiv> p div e_bp (es ! i)" and "t \<equiv> min n (e_cur (es ! i) (p div e_bp (es ! i)) - p mod e_bp (es ! i))"
  shows "moved es i (p + t) pr =
    (let q = (moved es i p pr)\<lparr>block_offset := of_nat (p mod e_bp (es ! i)) + of_nat t\<rparr> in
     if p mod e_bp (es ! i) + t = e_cur (es ! i) b
     then q\<lparr>pi_off := pi_off q + uint (block_sizes bl ! b), block_idx := b + 1, block_offset := 0\<rparr> else q)"
    and "b_idx (es ! i) p = b" and "b_off (es ! i) p = p mod e_bp (es ! i)"
proof -
  define e where "e = es ! i"
  note e' = e [folded e_def]
  have p: "p < e_np e" and n': "p + n \<le> e_np e" using n by (auto simp: e_def)
  have bp: "1 \<le> e_bp e" and len: "length (e_sizes e) = e_nblocks e" using pe_ok_blocks [OF e'] by (auto simp: blocks_ok_def)
  note bt = block_take [OF e' n(1) n']
  show bk: "b_idx (es ! i) p = b" "b_off (es ! i) p = p mod e_bp (es ! i)" using p by (auto simp: b_idx_def b_off_def b_def e_def)
  show "moved es i (p + t) pr =
    (let q = (moved es i p pr)\<lparr>block_offset := of_nat (p mod e_bp (es ! i)) + of_nat t\<rparr> in
     if p mod e_bp (es ! i) + t = e_cur (es ! i) b
     then q\<lparr>pi_off := pi_off q + uint (block_sizes bl ! b), block_idx := b + 1, block_offset := 0\<rparr> else q)"
  proof (cases "p mod e_bp e + t = e_cur e b")
    case True
    then have "p + t = b * e_bp e + e_cur e b" unfolding b_def e_def by (metis add.assoc div_mult_mod_eq)
    then have nx: "b_idx e (p + t) = Suc b" "b_off e (p + t) = 0" using b_next(3,4) [OF bp p] by (auto simp: b_def e_def)
    have "before_block e (Suc b) = before_block e b + int (e_sizes e ! b)" using bt(2) len by (intro before_block_Suc) (simp add: b_def e_def)
    then show ?thesis using True nx bt(12) bk unfolding e_def by (simp add: moved_def b_def)
  next
    case False
    have "p mod e_bp e + t < e_cur e b" using False bt(3) by (auto simp: t_def b_def e_def)
    then have "b_idx e (p + t) = b" "b_off e (p + t) = p mod e_bp e + t" using b_stay [OF bp p, of t] by (auto simp: b_def e_def)
    then show ?thesis using False bk unfolding e_def by (simp add: moved_def)
  qed
qed

lemma compressed_step:
  assumes k: "pread_ok k F lim" and img: "image_ok (op_lz4 k) es (F (pi_fd r))" and ca: "cache_ok (op_lz4 k) es (F (pi_fd r)) r"
    and i: "i < length es" "blocks (es ! i) = Some bl" and r: "rd r = moved es i p (rd r)" "pe (rd r) = Some (es ! i)"
    and n: "0 < n" "p + n \<le> e_np (es ! i)" and d: "d + n < 2 ^ 64" and v: "v + of_nat d * PAGE = of_nat (e_lo (es ! i) + p * 4096)"
  obtains t ret r1 cap' s1 where "0 < t" and "t \<le> n"
    and "read_compressed_loop k r v (of_nat (d + n)) buf (of_nat d) cap s =
       (if ret \<noteq> 0 then Some (- 1, r1, s1)
        else read_compressed_loop k (r1\<lparr>rd := moved es i (p + t) (rd r)\<rparr>) v (of_nat (d + n)) buf (of_nat (d + t)) cap' s1)"
    and "ret = 0 \<longrightarrow> same r r1 \<and> cache_ok (op_lz4 k) es (F (pi_fd r)) r1 \<and>
        ram s1 = store (ram s) (buf + of_nat d * PAGE) (pages_out (op_lz4 k) (F (pi_fd r)) (es ! i) (ent_off es 0 i) p t)"
    and "no_failure k \<longrightarrow> ret = (0 :: int)"
proof -
  define e where "e = es ! i"
  have e: "pe_ok e" "blocks e = Some bl" using image_payload(3) [OF img i(1)] i(2) by (simp_all add: e_def)
  have n': "p + n \<le> e_np e" using n(2) by (simp add: e_def)
  define b where "b = p div e_bp e"
  define c where "c = e_cur e b"
  define t where "t = min n (c - p mod e_bp e)"
  note bt = block_take [OF e n(1) n', folded b_def, folded c_def, folded t_def]
  note ms1 = moved_step(1) [OF e [unfolded e_def] n, where pr = "rd r", folded e_def, folded b_def, folded c_def, folded t_def]
  note ms = moved_step(2,3) [OF e [unfolded e_def] n, folded e_def, folded b_def]
  have bp: "1 \<le> e_bp e" using pe_ok_blocks [OF e] by (simp add: blocks_ok_def)
  have tc: "p mod e_bp e + t \<le> c" using bt(3) by (simp add: t_def)
  have t32: "t < 2 ^ 32" using tc bt(4) by simp
  define bv where "bv = v + of_nat d * PAGE - ucast (of_nat (p mod e_bp e) :: u32) * PAGE"
  have o32: "p mod e_bp e < 2 ^ 32" using bt(3,4) by simp
  have bva: "unat bv = e_lo e + b * e_bp e * 4096"
  proof -
    have "bv = of_nat (e_lo e + p * 4096) - of_nat (p mod e_bp e * 4096)" using v ucast_of_nat_u64 [OF o32] by (simp add: bv_def e_def)
    also have "\<dots> = of_nat (e_lo e + p * 4096 - p mod e_bp e * 4096)" by (subst of_nat_diff) (simp_all add: le_add2 mod_less_eq_dividend trans_le_add2)
    also have "e_lo e + p * 4096 - p mod e_bp e * 4096 = e_lo e + b * e_bp e * 4096"
    proof -
      have "p * 4096 = b * e_bp e * 4096 + p mod e_bp e * 4096" unfolding b_def by (metis add_mult_distrib div_mult_mod_eq)
      then show ?thesis by simp
    qed
    finally have bv: "bv = of_nat (e_lo e + b * e_bp e * 4096)" .
    show ?thesis unfolding bv using block_in_entry [OF e(1) _ bt(2)] e by (intro unat_of_nat_u64) (auto simp: pe_ok_def)
  qed
  have ab: "at_block (op_lz4 k) (F (pi_fd r)) es r i bl b (p mod e_bp e) t bv"
    unfolding at_block_def using img ca i bt(2,5) tc bva ms(1) arg_cong [OF r(1), of pi_off] by (simp add: e_def c_def)
  from read_block_ok [OF k ab, of s "buf + of_nat d * PAGE" cap]
  obtain ret r1 cap' s1 where rb: "read_block k r (block_sizes bl ! b) (of_nat c) (of_nat (p mod e_bp e)) (of_nat t) bv (buf + of_nat d * PAGE) cap s = Some (ret, r1, cap', s1)"
      "ret = 0 \<longrightarrow> same r r1 \<and> cache_ok (op_lz4 k) es (F (pi_fd r)) r1 \<and>
        ram s1 = store (ram s) (buf + of_nat d * PAGE) (take (t * 4096) (drop (p mod e_bp e * 4096) (block_out (op_lz4 k) (F (pi_fd r)) e (ent_off es 0 i) b)))"
      "no_failure k \<longrightarrow> ret = 0"
    unfolding read_post_def e_def [symmetric] c_def [symmetric] by blast
  have out: "take (t * 4096) (drop (p mod e_bp e * 4096) (block_out (op_lz4 k) (F (pi_fd r)) e (ent_off es 0 i) b)) =
      pages_out (op_lz4 k) (F (pi_fd r)) e (ent_off es 0 i) p t"
    using pages_out_block [of e p t] e(2) bp tc by (simp add: b_def c_def e_cur_def)
  have st: "block_idx (rd r) = b" "block_offset (rd r) = of_nat (p mod e_bp e)"
    using arg_cong [OF r(1), of block_idx] arg_cong [OF r(1), of block_offset] ms(1,2) by (simp_all add: e_def)
  define N where "N = (of_nat (d + n) :: u64)"
  define D where "D = (of_nat d :: u64)"
  have lt: "D < N" unfolding D_def N_def using d n(1) by (simp add: word_less_nat_alt unat_of_nat_u64 del: of_nat_add)
  have sub: "N - D = of_nat n" by (simp add: N_def D_def)
  have dt: "of_nat (d + t) = D + ucast (of_nat t :: u32)" using ucast_of_nat_u64 [OF t32] by (simp add: D_def)
  have "unat (block_sizes bl ! b) \<le> c * 4096" using block_sizes_ok(1,2) [OF e bt(2)] by (simp add: c_def)
  then have cs: "\<not> ucast (block_sizes bl ! b) > (ucast (of_nat c :: u32) * PAGE :: u64)"
    using block_bytes_u64 [OF bt(4)] by (simp add: word_less_nat_alt unat_ucast_u32)
  have bl: "\<not> b \<ge> length (block_sizes bl)" using bt(2,11) by simp
  have rd1: "ret = 0 \<Longrightarrow> rd r1 = moved es i p (rd r)" using rb(2) sameD r(1) by metis
  have eq: "read_compressed_loop k r v N buf D cap s =
      (if ret \<noteq> 0 then Some (- 1, r1, s1)
       else read_compressed_loop k (r1\<lparr>rd := moved es i (p + t) (rd r)\<rparr>) v N buf (of_nat (d + t)) cap' s1)"
    unfolding read_compressed_loop.simps [of k r v N buf D cap s] if_P [OF lt] r(2) [folded e_def] bind.bind_lunit e(2) option.case(2)
      Let_def st if_not_P [OF bl] bt(1) if_not_P [OF cs] sub bt(7,8) bv_def [symmetric, folded D_def] rb(1) [folded D_def] dt ms1 bt(9)
    using rd1 by simp
  show ?thesis by (rule that [OF bt(5,6) eq [unfolded N_def D_def] rb(2) [unfolded out, unfolded e_def] rb(3)])
qed

lemma same_trans: "same a b \<Longrightarrow> same b c \<Longrightarrow> same a c"
  unfolding same_def by force

lemma same_rd: "same a b \<Longrightarrow> same (a\<lparr>rd := x\<rparr>) (b\<lparr>rd := x\<rparr>)"
proof -
  assume "same a b"
  then obtain u y z where "b = a\<lparr>cache_buf := u, cache_vaddr := y, cache_size := z\<rparr>" unfolding same_def by blast
  then have "b\<lparr>rd := x\<rparr> = a\<lparr>rd := x, cache_buf := u, cache_vaddr := y, cache_size := z\<rparr>" by simp
  then show ?thesis unfolding same_def by blast
qed

lemma blocks_present: "pe_ok e \<Longrightarrow> blocks e = Some bl \<Longrightarrow> pagemap_present e"
  using pe_ok_blocks by (simp add: blocks_ok_def)

lemma page_out_length:
  assumes img: "image_ok lz4 es f" and i: "i < length es" and pr: "pagemap_present (es ! i)" and k: "k < e_np (es ! i)"
  shows "length (page_out lz4 f (es ! i) (ent_off es 0 i) k) = 4096"
proof (cases "blocks (es ! i)")
  case None
  then have "nat (ent_off es 0 i) + e_np (es ! i) * 4096 \<le> length f" using image_payload(2) [OF img i] pr by (simp add: payload_def)
  then show ?thesis using None k by (simp add: page_out_def)
next
  case (Some bl)
  have ok: "pe_ok (es ! i)" using image_payload(3) [OF img i] .
  then have bp: "1 \<le> e_bp (es ! i)" using pe_ok_blocks [OF _ Some] by (simp add: blocks_ok_def)
  then have b: "k div e_bp (es ! i) < e_nblocks (es ! i)" using k by (simp add: block_start) (meson div_times_less_eq_dividend le_less_trans)
  have "k mod e_bp (es ! i) < e_cur (es ! i) (k div e_bp (es ! i))"
    using bp k mod_less_divisor [of "e_bp (es ! i)" k] div_mult_mod_eq [of k "e_bp (es ! i)"] unfolding e_cur_def by linarith
  then show ?thesis using Some block_facts(2) [OF img i Some b] by (simp add: page_out_def)
qed

lemma pages_out_length:
  assumes "image_ok lz4 es f" and "i < length es" and "pagemap_present (es ! i)"
  shows "k + n \<le> e_np (es ! i) \<Longrightarrow> length (pages_out lz4 f (es ! i) (ent_off es 0 i) k n) = n * 4096"
proof (induction n)
  case (Suc n)
  then show ?case using page_out_length [OF assms, of "k + n"] by (simp add: pages_out_def)
qed simp

lemma read_compressed_loop_ok:
  assumes k: "pread_ok k F lim" and img: "image_ok (op_lz4 k) es (F fd)" and i: "i < length es" "blocks (es ! i) = Some bl"
  shows "pi_fd r = fd \<Longrightarrow> cache_ok (op_lz4 k) es (F fd) r \<Longrightarrow> rd r = moved es i p (rd r) \<Longrightarrow> pe (rd r) = Some (es ! i) \<Longrightarrow> p + n \<le> e_np (es ! i) \<Longrightarrow>
     d + n < 2 ^ 64 \<Longrightarrow> v + of_nat d * PAGE = of_nat (e_lo (es ! i) + p * 4096) \<Longrightarrow>
     \<exists>ret r' s'. read_compressed_loop k r v (of_nat (d + n)) buf (of_nat d) cap s = Some (ret, r', s') \<and>
       (ret = 0 \<longrightarrow> same (r\<lparr>rd := moved es i (p + n) (rd r)\<rparr>) r' \<and> cache_ok (op_lz4 k) es (F fd) r' \<and>
          ram s' = store (ram s) (buf + of_nat d * PAGE) (pages_out (op_lz4 k) (F fd) (es ! i) (ent_off es 0 i) p n)) \<and> (no_failure k \<longrightarrow> ret = 0) \<and> (ret = 0 \<or> ret = - 1)"
proof (induction n arbitrary: r p d cap s rule: less_induct)
  case (less n)
  show ?case
  proof (cases "n = 0")
    case True
    then have "read_compressed_loop k r v (of_nat (d + n)) buf (of_nat d) cap s = Some (0, r, s)"
      by (simp add: read_compressed_loop.simps [of k r v "of_nat d" buf "of_nat d"])
    moreover have "r\<lparr>rd := moved es i p (rd r)\<rparr> = r" using less(4) by simp
    ultimately show ?thesis using True less(3) by simp
  next
    case False
    then have n: "0 < n" by simp
    note fd = less(2)
    have img': "image_ok (op_lz4 k) es (F (pi_fd r))" using img fd by simp
    have ca': "cache_ok (op_lz4 k) es (F (pi_fd r)) r" using less(3) fd by simp
    obtain t ret r1 cap1 s1 where t: "0 < t" "t \<le> n" and
        st: "read_compressed_loop k r v (of_nat (d + n)) buf (of_nat d) cap s =
           (if ret \<noteq> 0 then Some (- 1, r1, s1)
            else read_compressed_loop k (r1\<lparr>rd := moved es i (p + t) (rd r)\<rparr>) v (of_nat (d + n)) buf (of_nat (d + t)) cap1 s1)"
        "ret = 0 \<longrightarrow> same r r1 \<and> cache_ok (op_lz4 k) es (F fd) r1 \<and>
           ram s1 = store (ram s) (buf + of_nat d * PAGE) (pages_out (op_lz4 k) (F fd) (es ! i) (ent_off es 0 i) p t)" "no_failure k \<longrightarrow> ret = (0 :: int)"
      by (rule compressed_step [OF k img' ca' i less(4,5) n less(6,7,8), of buf cap s, unfolded fd]) (rule that)
    show ?thesis
    proof (cases "ret = 0")
      case False
      then show ?thesis using st(1,3) by auto
    next
      case True
      define r2 where "r2 = r1\<lparr>rd := moved es i (p + t) (rd r)\<rparr>"
      have s1: "same r r1" "cache_ok (op_lz4 k) es (F fd) r1" using st(2) True by auto
      have pre: "pi_fd r2 = fd" "cache_ok (op_lz4 k) es (F fd) r2" "rd r2 = moved es i (p + t) (rd r2)" "pe (rd r2) = Some (es ! i)"
          "p + t + (n - t) \<le> e_np (es ! i)" "d + t + (n - t) < 2 ^ 64" "v + of_nat (d + t) * PAGE = of_nat (e_lo (es ! i) + (p + t) * 4096)"
        using sameD [OF s1(1)] s1(2) less(2,5-8) t by (auto simp: r2_def cache_ok_def algebra_simps)
      have "n - t < n" using t by simp
      from less(1) [OF this pre, of cap1 s1] obtain ret' r' s' where
          r': "read_compressed_loop k r2 v (of_nat (d + n)) buf (of_nat (d + t)) cap1 s1 = Some (ret', r', s')"
          "ret' = 0 \<longrightarrow> same (r2\<lparr>rd := moved es i (p + n) (rd r2)\<rparr>) r' \<and> cache_ok (op_lz4 k) es (F fd) r' \<and>
             ram s' = store (ram s1) (buf + of_nat (d + t) * PAGE) (pages_out (op_lz4 k) (F fd) (es ! i) (ent_off es 0 i) (p + t) (n - t))"
          "no_failure k \<longrightarrow> ret' = 0" "ret' = 0 \<or> ret' = - 1"
        using t by auto
      have res: "read_compressed_loop k r v (of_nat (d + n)) buf (of_nat d) cap s = Some (ret', r', s')"
        unfolding st(1) r2_def [symmetric] using True r'(1) by simp
      have "same (r\<lparr>rd := moved es i (p + n) (rd r)\<rparr>) r'" if "ret' = 0"
        using same_trans [OF same_rd [OF s1(1)]] r'(2) that by (simp add: r2_def)
      moreover have "ram s' = store (ram s) (buf + of_nat d * PAGE) (pages_out (op_lz4 k) (F fd) (es ! i) (ent_off es 0 i) p n)" if "ret' = 0"
      proof -
        have len: "length (pages_out (op_lz4 k) (F fd) (es ! i) (ent_off es 0 i) p t) = t * 4096"
          using pages_out_length [OF img i(1), of p t] less(6) t blocks_present [OF image_payload(3) [OF img i(1)] i(2)] by simp
        have "buf + of_nat (d + t) * PAGE = buf + of_nat d * PAGE + of_nat (t * 4096)" by (simp add: algebra_simps)
        then show ?thesis using r'(2) that st(2) True len t(2) pages_out_add [of "op_lz4 k" "F fd" "es ! i" "ent_off es 0 i" p t "n - t"]
          by (simp add: store_append add.assoc del: of_nat_add of_nat_mult)
      qed
      ultimately show ?thesis using res r'(2,3,4) by blast
    qed
  qed
qed

end
