(* ===== verification/Spec2Isabelle.thy ===== *)
theory Spec2Isabelle
  imports Bitmap PagePipeProps UffdProps RstMalloc FileIds BfdProps ServiceFd StdStringProps PagemapProps PageReadBlock
begin

text \<open>
  \<^bold>\<open>The program.\<close>  CRIU checkpoints a tree of Linux processes into image files and restores it from them.
  A dump collects the pages of a process in page pipes, gives identifiers to the kernel objects
  that processes share, and writes the pages, possibly compressed, with a pagemap that says where they
  are.  A restore reads the pagemaps of a chain of incremental images, prepares memory for the restorer code
  that replaces the process, moves its own descriptors out of the way of those of the process, and may leave
  pages to a daemon that fills them in on page faults.  The parts modelled here are those that carry
  their own data structures and algorithms; they are the ones below.

  \<^bold>\<open>The model.\<close>  Every C function is a HOL function of the same name over the state that it reads and writes.  The
  result is an \<open>option\<close>, whose \<open>None\<close> is an abort (\<^verbatim>\<open>BUG_ON\<close>), an access outside an array, or a null
  dereference; error returns are values.  \<^verbatim>\<open>unsigned long\<close> and pointers are 64 bit words,
  \<^verbatim>\<open>unsigned int\<close> is a 32 bit word, \<^verbatim>\<open>int\<close> and \<^verbatim>\<open>off_t\<close> are integers.  System calls, the allocator and
  third-party libraries are parameters, with what their documentation says as hypotheses of the theorems that need it.
  A loop that the code does not obviously leave is a \<open>partial_function\<close>, and the theorems say that it returns;
  nothing is bounded by fuel except \<open>lpi_fini\<close>, whose chain of parents is given a length.

  \<^item> \<open>Prelude\<close>: the machine types, checked arrays, the rounding macros of \<^verbatim>\<open>include/common/compiler.h\<close> and
    shared lemmas on lists and words.

  \<^item> \<open>Bitmap\<close>: \<^verbatim>\<open>include/common/asm-generic/bitops.h\<close> and \<^verbatim>\<open>criu/bitmap.c\<close>.  A bitmap is a list of words; the
    locale \<open>bit_store\<close> is the contract of the single-bit operations, from which setting and clearing a range follow.
    \<open>find_next_bit\<close> returns the first set bit, and a range operation changes exactly its range.

  \<^item> \<open>PagePipe\<close>, \<open>PagePipeProps\<close>: \<^verbatim>\<open>criu/page-pipe.c\<close>.  The record \<open>page_pipe\<close> has the buffers, the free
    iovs and the holes.  The invariant is kept by every operation; a page that is added is found again
    at the offset of its bytes in the pipe.  Two theorems show what goes wrong on the error paths.

  \<^item> \<open>LazyIov\<close>, \<open>Uffd\<close>, \<open>UffdProps\<close>: \<^verbatim>\<open>criu/uffd.c\<close>.  The lists of lazy iovs are refined to the partial map from the
    addresses still to be filled to their image addresses; page faults, remaps, unmaps and forks act on it
    as they do on the memory.  Two theorems give runs in which they do not.

  \<^item> \<open>RstMalloc\<close>: \<^verbatim>\<open>criu/rst-malloc.c\<close>.  Allocations lie in their mapping, do not overlap, and are found again through
    their cookies when the arena moves.

  \<^item> \<open>Rbtree\<close>, \<open>RbtreeFun\<close>, \<open>RbtreeHeap\<close>, \<open>RbtreeProps\<close>: \<^verbatim>\<open>criu/rbtree.c\<close> on a heap of nodes with tagged parent
    pointers.  \<open>RbtreeFun\<close> is a functional account with contexts, \<open>RbtreeHeap\<close> shows that the heap code
    implements it, and \<open>RbtreeProps\<close> states that insertion and removal return and keep a red-black tree with
    the right nodes in the right order.

  \<^item> \<open>KcmpIds\<close>, \<open>KcmpProps\<close>, \<open>FileIds\<close>: \<^verbatim>\<open>criu/kcmp-ids.c\<close> and \<^verbatim>\<open>criu/file-ids.c\<close>, on top of the trees.  Under the
    order that \<^verbatim>\<open>kcmp(2)\<close> documents, two identifiers are equal exactly when the objects are.

  \<^item> \<open>Bfd\<close>, \<open>BfdProps\<close>: \<^verbatim>\<open>criu/bfd.c\<close>.  Readers get the byte stream of the file, however the kernel cuts and
    interrupts it, and every call returns; writers store what they put in.

  \<^item> \<open>ServiceFd\<close>: \<^verbatim>\<open>criu/servicefd.c\<close>.  The service descriptors stay above those of the process and keep
    their files when they move between overlapping ranges.

  \<^item> \<open>StdString\<close>, \<open>StdStringProps\<close>: \<^verbatim>\<open>compel/plugins/std/string.c\<close>.  Printed numbers are read back, and formats print
    their expansion.

  \<^item> \<open>Pagemap\<close>, \<open>PagemapSeek\<close>, \<open>PagemapProps\<close>: the pagemap readers of \<^verbatim>\<open>criu/pagemap.c\<close>.  What the validation of an image
    accepts is the invariant that the cursor needs: the seek returns and ends in front of the page, at
    its offset in the pages image, through entries with compressed blocks and aligned payloads.

  \<^item> \<open>Compress\<close>: \<^verbatim>\<open>criu/compression.c\<close>.  Blocks decompress to what was compressed; the budget that processes
    share is a step relation on interleaved atomic accesses, in which no slot is lost.

  \<^bold>\<open>Not modelled.\<close>  Most of the rest of CRIU drives the kernel: the parsers of \<^verbatim>\<open>/proc\<close>, mounts, namespaces,
  cgroups, sockets, terminals, ptrace, the parasite code, the restorer and the orchestration of dump and
  restore are sequences of system calls whose effect is on the kernel, with little state of their own.  The images are messages
  of protobuf-c, a third-party library.  Of the modelled files, what is left out is the set-up of
  sockets and of the daemon in \<^verbatim>\<open>uffd.c\<close>, the opening of images, the image streamer and the
  remote reader in \<^verbatim>\<open>pagemap.c\<close>, and the pool of worker threads in \<^verbatim>\<open>compression.c\<close>.  The manifest names every file.
\<close>

end
